(* ===== verification/Prelude.thy ===== *)
theory Prelude
  imports Main "HOL-Library.Word"
begin

text \<open>
  Shared basis of the development: the types of machine integers and threads, the ways a
  C++ call can end (\<open>ctl\<close>), the GCC atomic builtins as functions on a memory cell,
  reachability of a transition system with the invariant rule as a locale, and the lemmas
  on words and on sums over threads that the component theories use.
\<close>

section \<open>Types and control outcomes\<close>

type_synonym i32 = "32 word"
type_synonym tid = nat

named_theorems atomics \<open>unfolding rules for the atomic builtins\<close>
named_theorems ctl_rules \<open>rules for sequencing calls that may stop\<close>

text \<open>
  How a call can end other than by returning: \<^verbatim>\<open>abort()\<close> after a critical futex
  error or in a destructor, a failed \<^verbatim>\<open>assert\<close>, an exception that leaves the function,
  a read through a pointer that is null, freed or indeterminate, or other undefined behaviour.
\<close>

datatype fault =
    Critical_error string
  | Assert_failed string
  | Uncaught string
  | Bad_deref string
  | Undefined string

datatype 'a ctl = Ret 'a | Stop fault

fun bnd :: "'a ctl \<Rightarrow> ('a \<Rightarrow> 'b ctl) \<Rightarrow> 'b ctl" where
  "bnd (Ret x) f = f x"
| "bnd (Stop e) f = Stop e"

definition check :: "bool \<Rightarrow> string \<Rightarrow> unit ctl" where
  "check b msg = (if b then Ret () else Stop (Assert_failed msg))"

section \<open>The atomic builtins\<close>

text \<open>
  \<open>cas cur expected desired\<close> is the strong \<^verbatim>\<open>__atomic_compare_exchange\<close>
  (\<^verbatim>\<open>weak = false\<close>) on a cell that holds \<open>cur\<close>: its result, the value left in
  \<^verbatim>\<open>*expected\<close>, and the value left in the cell.
\<close>

definition cas :: "'a \<Rightarrow> 'a \<Rightarrow> 'a \<Rightarrow> bool \<times> 'a \<times> 'a" where
  "cas cur expected desired =
     (if cur = expected then (True, expected, desired) else (False, cur, cur))"

definition fetch_sub :: "i32 \<Rightarrow> i32 \<Rightarrow> i32 \<times> i32" where
  "fetch_sub cur x = (cur, cur - x)"

definition sub_fetch :: "i32 \<Rightarrow> i32 \<Rightarrow> i32" where
  "sub_fetch cur x = cur - x"

definition add_fetch :: "i32 \<Rightarrow> i32 \<Rightarrow> i32" where
  "add_fetch cur x = cur + x"

section \<open>Reachable states\<close>

inductive reach :: "'s \<Rightarrow> ('s \<Rightarrow> 's \<Rightarrow> bool) \<Rightarrow> 's \<Rightarrow> bool"
  for s0 :: 's and step :: "'s \<Rightarrow> 's \<Rightarrow> bool" where
  reach_init: "reach s0 step s0"
| reach_step: "reach s0 step s \<Longrightarrow> step s t \<Longrightarrow> reach s0 step t"

locale invariant_system =
  fixes s0 :: 's and step :: "'s \<Rightarrow> 's \<Rightarrow> bool" and inv :: "'s \<Rightarrow> bool"
  assumes init_inv: "inv s0"
    and step_inv: "inv s \<Longrightarrow> step s t \<Longrightarrow> inv t"
begin

lemma reach_inv: "reach s0 step s \<Longrightarrow> inv s"
  by (induction rule: reach.induct) (auto intro: init_inv step_inv)

end

section \<open>Shared lemmas\<close>

lemmas [atomics] = cas_def fetch_sub_def sub_fetch_def add_fetch_def

lemma bnd_Ret_iff [ctl_rules]: "bnd m f = Ret y \<longleftrightarrow> (\<exists>x. m = Ret x \<and> f x = Ret y)"
  by (cases m) auto

lemma bnd_Stop_iff [ctl_rules]:
  "bnd m f = Stop e \<longleftrightarrow> m = Stop e \<or> (\<exists>x. m = Ret x \<and> f x = Stop e)"
  by (cases m) auto

lemma bnd_assoc: "bnd (bnd m f) g = bnd m (\<lambda>x. bnd (f x) g)"
  by (cases m) auto

lemma check_Ret_iff [ctl_rules]: "check b msg = Ret u \<longleftrightarrow> b"
  by (simp add: check_def)

lemma check_True [simp]: "check True msg = Ret ()"
  by (simp add: check_def)

lemma check_False [simp]: "check False msg = Stop (Assert_failed msg)"
  by (simp add: check_def)

text \<open>Changing one thread changes a sum over the threads by that thread's difference.\<close>

lemma sum_upd:
  fixes f :: "'p \<Rightarrow> int"
  assumes "t < (N :: nat)"
  shows "(\<Sum>u<N. f ((P(t := q)) u)) = (\<Sum>u<N. f (P u)) + (f q - f (P t))"
proof -
  have "(\<Sum>u<N. f ((P(t := q)) u)) = f q + (\<Sum>u\<in>{..<N} - {t}. f ((P(t := q)) u))"
    using assms by (subst sum.remove [of _ t]) auto
  also have "(\<Sum>u\<in>{..<N} - {t}. f ((P(t := q)) u)) = (\<Sum>u\<in>{..<N} - {t}. f (P u))"
    by (rule sum.cong) auto
  also have "f q + \<dots> = (\<Sum>u<N. f (P u)) + (f q - f (P t))"
    using assms by (subst (2) sum.remove [of _ t]) auto
  finally show ?thesis .
qed

lemma sum_zero_one_member:
  fixes f :: "nat \<Rightarrow> int"
  assumes "\<And>u. 0 \<le> f u" and "t < N"
  shows "f t \<le> (\<Sum>u<N. f u)"
  using assms by (intro member_le_sum) auto

lemma sum_two_members:
  fixes f :: "nat \<Rightarrow> int"
  assumes "\<And>u. 0 \<le> f u" and "t < N" and "v < N" and "t \<noteq> v"
  shows "f t + f v \<le> (\<Sum>u<N. f u)"
proof -
  have "(\<Sum>u\<in>{t, v}. f u) \<le> (\<Sum>u<N. f u)"
    using assms by (intro sum_mono2) auto
  with \<open>t \<noteq> v\<close> show ?thesis by simp
qed

lemma sum_pos_member:
  fixes f :: "nat \<Rightarrow> int"
  assumes "0 < (\<Sum>u<N. f u)"
  obtains t where "t < N" and "0 < f t"
proof -
  have "\<exists>t<N. 0 < f t"
  proof (rule ccontr)
    assume none: "\<not> ?thesis"
    have "f t \<le> 0" if "t < N" for t
      using none that by (meson not_less)
    then have "(\<Sum>u<N. f u) \<le> 0"
      by (intro sum_nonpos) simp
    with assms show False by simp
  qed
  with that show ?thesis by blast
qed

text \<open>Signed reading of a small integer stored in a 32-bit word.\<close>

lemma sint_of_int_small:
  assumes "- (2 ^ 31) \<le> k" and "k < (2 ^ 31 :: int)"
  shows "sint (of_int k :: i32) = k"
  using assms by (simp add: sint_sbintrunc' signed_take_bit_int_eq_self)

end
