(* ===== verification/Futex.thy ===== *)
theory Futex
  imports Prelude
begin

unbundle bit_operations_syntax

text \<open>
  \<^verbatim>\<open>src/src/bdfutex.h\<close> and \<^verbatim>\<open>bdfutex.cpp\<close>: the wrappers around the
  \<^verbatim>\<open>futex\<close> system call. The kernel is not part of the repository, so the system call
  is a parameter: a function of the call's six arguments and of the world (memory and kernel
  state) that gives the return value, \<^verbatim>\<open>errno\<close> and the world after the call. Whatever
  other threads do while the caller is blocked is part of that function's effect. The global
  \<^verbatim>\<open>futex_critical_error\<close> function pointer is an argument as well; its initial value is
  \<open>default_futex_critical_error\<close>.

  The part of each wrapper that runs after the system call returned is a definition of its
  own (\<open>futex_wait_ret\<close>, \<open>futex_wake_ret\<close>, \<open>futex_pi_ret\<close>): the thread machines of
  theories \<open>Threads\<close> and \<open>Fu_Lock\<close> use these where the call blocks and other threads run
  meanwhile.
\<close>

section \<open>Constants, error codes, the world\<close>

datatype errno =
    EINTR | EAGAIN | EINVAL | EACCES | EFAULT | ENOMEM | ENOSYS | EPERM | ESRCH | EDEADLK
  | Errno int

definition futex_op_success :: int where "futex_op_success = 0"
definition futex_op_failed :: int where "futex_op_failed = -1"
definition futex_op_invalid :: int where "futex_op_invalid = -2"

text \<open>The constants of \<^verbatim>\<open><linux/futex.h>\<close> that the wrappers use.\<close>

definition FUTEX_WAIT :: i32 where "FUTEX_WAIT = 0"
definition FUTEX_WAKE :: i32 where "FUTEX_WAKE = 1"
definition FUTEX_LOCK_PI :: i32 where "FUTEX_LOCK_PI = 6"
definition FUTEX_UNLOCK_PI :: i32 where "FUTEX_UNLOCK_PI = 7"
definition FUTEX_PRIVATE_FLAG :: i32 where "FUTEX_PRIVATE_FLAG = 128"
definition FUTEX_WAITERS :: i32 where "FUTEX_WAITERS = 0x80000000"
definition FUTEX_OWNER_DIED :: i32 where "FUTEX_OWNER_DIED = 0x40000000"
definition FUTEX_TID_MASK :: i32 where "FUTEX_TID_MASK = 0x3FFFFFFF"

definition MASK_OUT_FUTEX_WAITERS :: i32 where
  "MASK_OUT_FUTEX_WAITERS = NOT FUTEX_WAITERS"

record 'k world =
  words :: "nat \<Rightarrow> i32"  \<comment> \<open>the \<^verbatim>\<open>int\<close> objects, by address\<close>
  kernel :: 'k              \<comment> \<open>everything else\<close>

type_synonym 'k futex_syscall =
  "nat \<Rightarrow> i32 \<Rightarrow> i32 \<Rightarrow> nat option \<Rightarrow> nat option \<Rightarrow> i32 \<Rightarrow> 'k world \<Rightarrow> int \<times> errno \<times> 'k world"

type_synonym critical_error = "string option \<Rightarrow> unit ctl"

section \<open>The wrappers\<close>

definition default_futex_critical_error :: critical_error where
  "default_futex_critical_error txt =
     Stop (Critical_error (case txt of None \<Rightarrow> '''' | Some t \<Rightarrow> t))"

definition futex_critical_error :: critical_error where
  "futex_critical_error = default_futex_critical_error"

definition futex :: "'k futex_syscall \<Rightarrow> nat \<Rightarrow> i32 \<Rightarrow> i32 \<Rightarrow> nat option \<Rightarrow> nat option \<Rightarrow> i32
    \<Rightarrow> 'k world \<Rightarrow> int \<times> errno \<times> 'k world" where
  "futex sys uaddr futex_op val timeout uaddr2 val3 w =
     sys uaddr futex_op val timeout uaddr2 val3 w"

definition futex_wake_ret :: "critical_error \<Rightarrow> string option \<Rightarrow> int \<Rightarrow> int ctl" where
  "futex_wake_ret crit txt rv =
     (if rv < 0 then bnd (crit txt) (\<lambda>_. Ret (-1)) else Ret rv)"

definition futex_wake :: "'k futex_syscall \<Rightarrow> critical_error \<Rightarrow> nat \<Rightarrow> i32 \<Rightarrow> string option
    \<Rightarrow> 'k world \<Rightarrow> (int \<times> 'k world) ctl" where
  "futex_wake sys crit uaddr wake_count txt w =
     (let (rv, e, w') = futex sys uaddr (FUTEX_WAKE OR FUTEX_PRIVATE_FLAG) wake_count None None 0 w
      in bnd (futex_wake_ret crit txt rv) (\<lambda>r. Ret (r, w')))"

definition futex_wait_ret :: "critical_error \<Rightarrow> string option \<Rightarrow> int \<Rightarrow> errno \<Rightarrow> int ctl" where
  "futex_wait_ret crit txt rv e =
     (if rv \<noteq> 0 \<and> e \<noteq> EINTR \<and> e \<noteq> EAGAIN then bnd (crit txt) (\<lambda>_. Ret (-1)) else Ret 0)"

definition futex_wait :: "'k futex_syscall \<Rightarrow> critical_error \<Rightarrow> nat \<Rightarrow> i32 \<Rightarrow> string option
    \<Rightarrow> 'k world \<Rightarrow> (int \<times> 'k world) ctl" where
  "futex_wait sys crit uaddr expected txt w =
     (let (rv, e, w') = futex sys uaddr (FUTEX_WAIT OR FUTEX_PRIVATE_FLAG) expected None None 0 w
      in bnd (futex_wait_ret crit txt rv e) (\<lambda>r. Ret (r, w')))"

text \<open>
  \<open>futex_lock_pi\<close>: \<open>tid\<close> is the result of \<^verbatim>\<open>syscall(SYS_gettid)\<close>. The test of
  \<^verbatim>\<open>FUTEX_OWNER_DIED\<close> in the source has an empty body and no effect.
\<close>

definition futex_pi_ret :: "critical_error \<Rightarrow> string option \<Rightarrow> int \<Rightarrow> errno \<Rightarrow> int ctl" where
  "futex_pi_ret crit txt rv e =
     (if rv \<noteq> 0 \<and> e \<noteq> EINTR \<and> e \<noteq> EAGAIN then bnd (crit txt) (\<lambda>_. Ret (-1)) else Ret 0)"

text \<open>
  The parts of the two PI wrappers before the system call: the compare-exchange, with the contents of the word
  after it. \<open>futex_lock_pi_start\<close> says whether it locked; \<open>futex_unlock_pi_start\<close> gives the result
  of the wrapper, or \<^const>\<open>None\<close> if the system call has to be made.
\<close>

definition futex_lock_pi_start :: "i32 \<Rightarrow> i32 \<Rightarrow> bool \<times> i32" where
  "futex_lock_pi_start tid cell =
     (let desired = tid; (ok, expected, cell') = cas cell 0 desired in (ok, cell'))"

definition futex_unlock_pi_start :: "i32 \<Rightarrow> i32 \<Rightarrow> int option \<times> i32" where
  "futex_unlock_pi_start tid cell =
     (let desired = 0; (ok, expected, cell') = cas cell tid desired
      in if \<not> ok then
           let expected = expected AND MASK_OUT_FUTEX_WAITERS
           in (if expected \<noteq> tid then Some futex_op_invalid else None, cell')
         else (Some 0, cell'))"

definition futex_lock_pi :: "'k futex_syscall \<Rightarrow> critical_error \<Rightarrow> i32 \<Rightarrow> nat \<Rightarrow> string option
    \<Rightarrow> 'k world \<Rightarrow> (int \<times> 'k world) ctl" where
  "futex_lock_pi sys crit tid uaddr txt w =
     (let lock_op = FUTEX_LOCK_PI OR FUTEX_PRIVATE_FLAG;
          (ok, cell) = futex_lock_pi_start tid (words w uaddr);
          w1 = w\<lparr>words := (words w)(uaddr := cell)\<rparr>
      in if \<not> ok then
           let (rv, e, w2) = futex sys uaddr lock_op 0 None None 0 w1
           in bnd (futex_pi_ret crit txt rv e) (\<lambda>r. Ret (r, w2))
         else Ret (0, w1))"

definition futex_unlock_pi :: "'k futex_syscall \<Rightarrow> critical_error \<Rightarrow> i32 \<Rightarrow> nat \<Rightarrow> string option
    \<Rightarrow> 'k world \<Rightarrow> (int \<times> 'k world) ctl" where
  "futex_unlock_pi sys crit tid uaddr txt w =
     (let (r, cell) = futex_unlock_pi_start tid (words w uaddr);
          w1 = w\<lparr>words := (words w)(uaddr := cell)\<rparr>
      in case r of
           Some rv \<Rightarrow> Ret (rv, w1)
         | None \<Rightarrow>
             let (rv, e, w2) = futex sys uaddr (FUTEX_UNLOCK_PI OR FUTEX_PRIVATE_FLAG) 0 None None 0 w1
             in bnd (futex_pi_ret crit txt rv e) (\<lambda>r. Ret (r, w2)))"

section \<open>Behaviour of the wrappers\<close>

lemma crit_stops [simp]: "bnd (futex_critical_error txt) f \<noteq> Ret x"
  by (simp add: futex_critical_error_def default_futex_critical_error_def)

lemma crit_not_Ret [simp]: "futex_critical_error txt \<noteq> Ret u"
  by (simp add: futex_critical_error_def default_futex_critical_error_def)

lemma crit_stop_kind:
  "bnd (futex_critical_error txt) f = Stop e \<Longrightarrow> \<exists>m. e = Critical_error m"
  by (auto simp: futex_critical_error_def default_futex_critical_error_def)

lemma futex_wait_ret_Ret:
  "futex_wait_ret futex_critical_error txt rv e = Ret r \<Longrightarrow> r = 0 \<and> (rv = 0 \<or> e = EINTR \<or> e = EAGAIN)"
  by (auto simp: futex_wait_ret_def split: if_splits)

lemma futex_wait_ret_Stop:
  "futex_wait_ret futex_critical_error txt rv e = Stop x \<Longrightarrow> \<exists>m. x = Critical_error m"
  by (auto simp: futex_wait_ret_def dest: crit_stop_kind split: if_splits)

lemma futex_wake_ret_Stop:
  "futex_wake_ret futex_critical_error txt rv = Stop x \<Longrightarrow> \<exists>m. x = Critical_error m"
  by (auto simp: futex_wake_ret_def dest: crit_stop_kind split: if_splits)

lemma futex_pi_ret_Ret:
  "futex_pi_ret futex_critical_error txt rv e = Ret r \<Longrightarrow> r = 0 \<and> (rv = 0 \<or> e = EINTR \<or> e = EAGAIN)"
  by (auto simp: futex_pi_ret_def split: if_splits)

lemma futex_pi_ret_Stop:
  "futex_pi_ret futex_critical_error txt rv e = Stop x \<Longrightarrow> \<exists>m. x = Critical_error m"
  by (auto simp: futex_pi_ret_def dest: crit_stop_kind split: if_splits)

lemma futex_wait_ret_ok [simp]: "futex_wait_ret crit txt 0 e = Ret 0"
  "futex_wait_ret crit txt rv EINTR = Ret 0" "futex_wait_ret crit txt rv EAGAIN = Ret 0"
  by (simp_all add: futex_wait_ret_def)

lemma futex_wake_ret_ok [simp]: "0 \<le> rv \<Longrightarrow> futex_wake_ret crit txt rv = Ret rv"
  by (simp add: futex_wake_ret_def)

text \<open>A thread id uses neither of the two flag bits of a priority-inheritance futex word.\<close>

definition valid_tid :: "i32 \<Rightarrow> bool" where
  "valid_tid tid \<longleftrightarrow> tid \<noteq> 0 \<and> tid AND FUTEX_TID_MASK = tid"

lemma flag_bits:
  "bit FUTEX_WAITERS n \<longleftrightarrow> n = 31" "bit FUTEX_OWNER_DIED n \<longleftrightarrow> n = 30"
  "bit FUTEX_TID_MASK n \<longleftrightarrow> n < 30"
proof -
  have w: "FUTEX_WAITERS = 2 ^ 31" and d: "FUTEX_OWNER_DIED = 2 ^ 30"
    by (simp_all add: FUTEX_WAITERS_def FUTEX_OWNER_DIED_def)
  have m: "FUTEX_TID_MASK = mask 30"
    by (simp add: FUTEX_TID_MASK_def mask_eq_exp_minus_1)
  show "bit FUTEX_WAITERS n \<longleftrightarrow> n = 31"
    by (auto simp only: w bit_exp_iff) simp
  show "bit FUTEX_OWNER_DIED n \<longleftrightarrow> n = 30"
    by (auto simp only: d bit_exp_iff) simp
  show "bit FUTEX_TID_MASK n \<longleftrightarrow> n < 30"
    by (auto simp: m bit_mask_iff)
qed

lemma waiters_mask_bit: "bit MASK_OUT_FUTEX_WAITERS n \<longleftrightarrow> n < 31"
  by (auto simp: MASK_OUT_FUTEX_WAITERS_def bit_not_iff flag_bits)

lemma valid_tid_bit:
  assumes "valid_tid tid" and "bit tid n"
  shows "n < 30"
proof -
  from assms have "bit (tid AND FUTEX_TID_MASK) n"
    by (simp add: valid_tid_def)
  then show ?thesis by (simp add: bit_and_iff flag_bits)
qed

lemma valid_tid_waiters:
  assumes "valid_tid tid"
  shows "(tid OR FUTEX_WAITERS) AND MASK_OUT_FUTEX_WAITERS = tid"
    and "tid AND MASK_OUT_FUTEX_WAITERS = tid"
    and "(tid OR FUTEX_OWNER_DIED) AND MASK_OUT_FUTEX_WAITERS \<noteq> tid"
    and "(tid OR FUTEX_OWNER_DIED OR FUTEX_WAITERS) AND MASK_OUT_FUTEX_WAITERS \<noteq> tid"
proof -
  note b = valid_tid_bit [OF assms]
  note s = bit_and_iff bit_or_iff waiters_mask_bit flag_bits
  show "(tid OR FUTEX_WAITERS) AND MASK_OUT_FUTEX_WAITERS = tid"
    and "tid AND MASK_OUT_FUTEX_WAITERS = tid"
    by (rule bit_word_eqI; auto simp: s dest: b)+
  show "(tid OR FUTEX_OWNER_DIED) AND MASK_OUT_FUTEX_WAITERS \<noteq> tid"
    and "(tid OR FUTEX_OWNER_DIED OR FUTEX_WAITERS) AND MASK_OUT_FUTEX_WAITERS \<noteq> tid"
    using b [of 30] by (auto simp: s dest!: arg_cong [where f = "\<lambda>x. bit x 30"])
qed

end
