(* ===== verification/Threads.thy ===== *)
theory Threads
  imports Futex
begin

text \<open>
  Threads that share memory and call the futex wrappers. A component describes its functions
  by program points (a datatype of \<^emph>\<open>pcs\<close>) and a function \<open>act\<close> that says what a
  thread at a point does next: one atomic memory access, a \<^verbatim>\<open>FUTEX_WAIT\<close>, a
  \<^verbatim>\<open>FUTEX_WAKE\<close>, or (between two calls) a choice of its caller. \<open>exec\<close> runs one
  event of one thread; every interleaving of such events is a run, so memory is sequentially
  consistent.

  The kernel's part follows the manual page of \<^verbatim>\<open>futex(2)\<close>: \<^verbatim>\<open>FUTEX_WAIT\<close> puts
  the thread to sleep if the word still holds the expected value and returns
  \<^verbatim>\<open>EAGAIN\<close> if not, and may return with any result at any time (a signal, a spurious wake
  up, an error); \<^verbatim>\<open>FUTEX_WAKE\<close> wakes a list of sleepers of that word. Which sleepers is
  the parameter \<open>kw\<close>, and \<open>documented_wake\<close> is what the manual promises of it.
\<close>

section \<open>Actions, threads, configurations\<close>

datatype ('m, 'p, 'c) action =
    Mem "'m \<Rightarrow> 'm \<times> 'p ctl"
  | Wait 'c i32 "int \<Rightarrow> errno \<Rightarrow> 'p ctl"
  | Wake 'c nat "int \<Rightarrow> 'p ctl"
  | Client "'p list"

datatype status = Running | Sleeping | Returned int errno

record ('m, 'p) conf =
  mem :: 'm
  pcs :: "tid \<Rightarrow> 'p"
  stat :: "tid \<Rightarrow> status"
  halted :: "fault option"

datatype event = Run tid | Call tid nat | WakeUp tid "tid list" | Kern tid int errno

type_synonym kernel_wake = "nat \<Rightarrow> tid list \<Rightarrow> tid list \<Rightarrow> bool"

definition documented_wake :: "kernel_wake \<Rightarrow> bool" where
  "documented_wake kw \<longleftrightarrow>
     (\<forall>n q w. kw n q w \<longrightarrow> distinct q \<longrightarrow>
        set w \<subseteq> set q \<and> distinct w \<and> length w = min n (length q)) \<and>
     (\<forall>n q. distinct q \<longrightarrow> (\<exists>w. kw n q w))"

definition fifo_wake :: kernel_wake where
  "fifo_wake n q w \<longleftrightarrow> w = take n q"

definition waits_on :: "('p \<Rightarrow> ('m, 'p, 'c) action) \<Rightarrow> 'c \<Rightarrow> 'p \<Rightarrow> bool" where
  "waits_on act c p = (case act p of Wait c' _ _ \<Rightarrow> c' = c | _ \<Rightarrow> False)"

definition sleepers :: "('p \<Rightarrow> ('m, 'p, 'c) action) \<Rightarrow> nat \<Rightarrow> ('m, 'p) conf \<Rightarrow> 'c \<Rightarrow> tid list" where
  "sleepers act N s c = filter (\<lambda>u. stat s u = Sleeping \<and> waits_on act c (pcs s u)) [0..<N]"

definition goto :: "tid \<Rightarrow> 'p ctl \<Rightarrow> ('m, 'p) conf \<Rightarrow> ('m, 'p) conf" where
  "goto t c s = (case c of
       Ret p \<Rightarrow> s\<lparr>pcs := (pcs s)(t := p), stat := (stat s)(t := Running)\<rparr>
     | Stop e \<Rightarrow> s\<lparr>halted := Some e\<rparr>)"

definition rouse :: "tid list \<Rightarrow> ('m, 'p) conf \<Rightarrow> ('m, 'p) conf" where
  "rouse w s = s\<lparr>stat := (\<lambda>u. if u \<in> set w then Returned 0 (Errno 0) else stat s u)\<rparr>"

fun exec :: "kernel_wake \<Rightarrow> nat \<Rightarrow> ('p \<Rightarrow> ('m, 'p, 'c) action) \<Rightarrow> ('c \<Rightarrow> 'm \<Rightarrow> i32)
    \<Rightarrow> ('m, 'p) conf \<Rightarrow> event \<Rightarrow> ('m, 'p) conf option" where
  "exec kw N act rd s (Run t) =
     (if halted s \<noteq> None \<or> N \<le> t then None else
      case act (pcs s t) of
        Mem f \<Rightarrow> (let (m, c) = f (mem s) in Some (goto t c (s\<lparr>mem := m\<rparr>)))
      | Wait c v k \<Rightarrow>
          (case stat s t of
             Running \<Rightarrow>
               Some (s\<lparr>stat := (stat s)(t := if rd c (mem s) = v then Sleeping
                                               else Returned (-1) EAGAIN)\<rparr>)
           | Sleeping \<Rightarrow> None
           | Returned rv e \<Rightarrow> Some (goto t (k rv e) s))
      | _ \<Rightarrow> None)"
| "exec kw N act rd s (Call t i) =
     (if halted s \<noteq> None \<or> N \<le> t then None else
      case act (pcs s t) of
        Client ps \<Rightarrow> if i < length ps then Some (goto t (Ret (ps ! i)) s) else None
      | _ \<Rightarrow> None)"
| "exec kw N act rd s (WakeUp t w) =
     (if halted s \<noteq> None \<or> N \<le> t then None else
      case act (pcs s t) of
        Wake c n k \<Rightarrow>
          (let q = sleepers act N s c; w' = filter (\<lambda>u. u \<in> set q) w
           in if kw n q w then Some (goto t (k (int (length w'))) (rouse w' s)) else None)
      | _ \<Rightarrow> None)"
| "exec kw N act rd s (Kern t rv e) =
     (if halted s \<noteq> None \<or> N \<le> t then None else
      case act (pcs s t) of
        Wait c v k \<Rightarrow>
          (case stat s t of
             Returned _ _ \<Rightarrow> None
           | _ \<Rightarrow> Some (s\<lparr>stat := (stat s)(t := Returned rv e)\<rparr>))
      | Wake c n k \<Rightarrow> if rv < 0 then Some (goto t (k rv) s) else None
      | _ \<Rightarrow> None)"

fun run :: "kernel_wake \<Rightarrow> nat \<Rightarrow> ('p \<Rightarrow> ('m, 'p, 'c) action) \<Rightarrow> ('c \<Rightarrow> 'm \<Rightarrow> i32)
    \<Rightarrow> ('m, 'p) conf \<Rightarrow> event list \<Rightarrow> ('m, 'p) conf option" where
  "run kw N act rd s [] = Some s"
| "run kw N act rd s (ev # evs) =
     (case exec kw N act rd s ev of None \<Rightarrow> None | Some s' \<Rightarrow> run kw N act rd s' evs)"

definition mstep :: "kernel_wake \<Rightarrow> nat \<Rightarrow> ('p \<Rightarrow> ('m, 'p, 'c) action) \<Rightarrow> ('c \<Rightarrow> 'm \<Rightarrow> i32)
    \<Rightarrow> ('m, 'p) conf \<Rightarrow> ('m, 'p) conf \<Rightarrow> bool" where
  "mstep kw N act rd s s' \<longleftrightarrow> (\<exists>ev. exec kw N act rd s ev = Some s')"

definition start :: "'m \<Rightarrow> 'p \<Rightarrow> ('m, 'p) conf" where
  "start m p = \<lparr>mem = m, pcs = (\<lambda>_. p), stat = (\<lambda>_. Running), halted = None\<rparr>"

text \<open>
  A function on a part of the memory, called from a function on the whole memory: \<open>get\<close>
  and \<open>upd\<close> select the part, \<open>cm\<close> names its futex words in the caller, and \<open>j\<close> says
  where the caller continues. \<open>cont\<close> is where a called function continues: at a point of
  its own, or in its caller with the returned value.
\<close>

datatype ('p, 'r) cont = Goto 'p | Done 'r

fun embed :: "('m \<Rightarrow> 's) \<Rightarrow> ('s \<Rightarrow> 'm \<Rightarrow> 'm) \<Rightarrow> ('d \<Rightarrow> 'c) \<Rightarrow> ('n \<Rightarrow> 'p)
    \<Rightarrow> ('s, 'n, 'd) action \<Rightarrow> ('m, 'p, 'c) action" where
  "embed get upd cm j (Mem f) =
     Mem (\<lambda>m. let (s, n) = f (get m) in (upd s m, bnd n (\<lambda>x. Ret (j x))))"
| "embed get upd cm j (Wait c v k) = Wait (cm c) v (\<lambda>rv e. bnd (k rv e) (\<lambda>x. Ret (j x)))"
| "embed get upd cm j (Wake c n k) = Wake (cm c) n (\<lambda>rv. bnd (k rv) (\<lambda>x. Ret (j x)))"
| "embed get upd cm j (Client ns) = Client (map j ns)"

text \<open>The function \<open>a\<close>, called by one whose points inside the call are \<open>at\<close> and which goes on at \<open>ret\<close>.\<close>

definition calls :: "('q \<Rightarrow> 'p) \<Rightarrow> ('r \<Rightarrow> 'p) \<Rightarrow> ('m, ('q, 'r) cont, 'c) action \<Rightarrow> ('m, 'p, 'c) action" where
  "calls at ret a =
     embed id (\<lambda>s _. s) id (\<lambda>n. case n of Goto q \<Rightarrow> at q | Done r \<Rightarrow> ret r) a"

section \<open>Invariants of every run\<close>

text \<open>
  The interface between a component and the machine: a property of configurations that each
  kind of event keeps. \<open>safety_invariant\<close> is the special case of a property of the memory
  and the program points alone, which no behaviour of the kernel can break; it also shows that
  no assertion fails and no memory access faults.
\<close>

locale machine_invariant =
  fixes kw :: kernel_wake and N :: nat and act :: "'p \<Rightarrow> ('m, 'p, 'c) action"
    and rd :: "'c \<Rightarrow> 'm \<Rightarrow> i32" and I :: "('m, 'p) conf \<Rightarrow> bool"
  assumes I_mem: "\<lbrakk>I s; halted s = None; t < N; act (pcs s t) = Mem f; f (mem s) = (m, c)\<rbrakk>
      \<Longrightarrow> I (goto t c (s\<lparr>mem := m\<rparr>))"
    and I_call: "\<lbrakk>I s; halted s = None; t < N; act (pcs s t) = Client ps; p \<in> set ps\<rbrakk>
      \<Longrightarrow> I (goto t (Ret p) s)"
    and I_block: "\<lbrakk>I s; halted s = None; t < N; act (pcs s t) = Wait c' v k; stat s t = Running;
        rd c' (mem s) = v\<rbrakk> \<Longrightarrow> I (s\<lparr>stat := (stat s)(t := Sleeping)\<rparr>)"
    and I_kern: "\<lbrakk>I s; halted s = None; t < N; act (pcs s t) = Wait c' v k;
        stat s t = Running \<or> stat s t = Sleeping\<rbrakk>
      \<Longrightarrow> I (s\<lparr>stat := (stat s)(t := Returned rv e)\<rparr>)"
    and I_return: "\<lbrakk>I s; halted s = None; t < N; act (pcs s t) = Wait c' v k;
        stat s t = Returned rv e\<rbrakk> \<Longrightarrow> I (goto t (k rv e) s)"
    and I_wake: "\<lbrakk>I s; halted s = None; t < N; act (pcs s t) = Wake c' n k';
        kw n (sleepers act N s c') w; w' = filter (\<lambda>u. u \<in> set (sleepers act N s c')) w\<rbrakk>
      \<Longrightarrow> I (goto t (k' (int (length w'))) (rouse w' s))"
    and I_wake_error: "\<lbrakk>I s; halted s = None; t < N; act (pcs s t) = Wake c' n k'; rv < 0\<rbrakk>
      \<Longrightarrow> I (goto t (k' rv) s)"
begin

lemma exec_Run_inv: "exec kw N act rd s (Run t) = Some s' \<Longrightarrow> I s \<Longrightarrow> I s'"
  by (auto split: if_splits action.splits status.splits prod.splits
      intro: I_mem I_block I_kern I_return)

lemma exec_Call_inv: "exec kw N act rd s (Call t i) = Some s' \<Longrightarrow> I s \<Longrightarrow> I s'"
  by (auto split: if_splits action.splits intro: I_call)

lemma exec_WakeUp_inv: "exec kw N act rd s (WakeUp t w) = Some s' \<Longrightarrow> I s \<Longrightarrow> I s'"
  by (auto simp: Let_def split: if_splits action.splits intro: I_wake)

lemma exec_Kern_inv: "exec kw N act rd s (Kern t rv e) = Some s' \<Longrightarrow> I s \<Longrightarrow> I s'"
  by (auto split: if_splits action.splits status.splits intro: I_kern I_wake_error)

lemma exec_inv: "exec kw N act rd s ev = Some s' \<Longrightarrow> I s \<Longrightarrow> I s'"
  by (cases ev) (blast intro: exec_Run_inv exec_Call_inv exec_WakeUp_inv exec_Kern_inv)+

lemma mstep_inv: "I s \<Longrightarrow> mstep kw N act rd s s' \<Longrightarrow> I s'"
  by (auto simp: mstep_def intro: exec_inv)

lemma machine_reach_inv:
  assumes "reach s0 (mstep kw N act rd) s" and "I s0"
  shows "I s"
  using assms by (induction rule: reach.induct) (auto intro: mstep_inv)

end

definition halt_ok :: "('m, 'p) conf \<Rightarrow> bool" where
  "halt_ok s \<longleftrightarrow> (case halted s of None \<Rightarrow> True | Some (Critical_error _) \<Rightarrow> True | _ \<Rightarrow> False)"

lemma goto_simps [simp]:
  "mem (goto t c s) = mem s"
  "goto t (Ret p) s = s\<lparr>pcs := (pcs s)(t := p), stat := (stat s)(t := Running)\<rparr>"
  "goto t (Stop e) s = s\<lparr>halted := Some e\<rparr>"
  by (simp_all add: goto_def split: ctl.splits)

lemma rouse_simps [simp]:
  "mem (rouse w s) = mem s" "pcs (rouse w s) = pcs s" "halted (rouse w s) = halted s"
  "stat (rouse w s) u = (if u \<in> set w then Returned 0 (Errno 0) else stat s u)"
  by (simp_all add: rouse_def)

lemma start_simps [simp]:
  "mem (start m p) = m" "pcs (start m p) t = p" "stat (start m p) t = Running"
  "halted (start m p) = None"
  by (simp_all add: start_def)

locale safety_invariant =
  fixes kw :: kernel_wake and N :: nat and act :: "'p \<Rightarrow> ('m, 'p, 'c) action"
    and rd :: "'c \<Rightarrow> 'm \<Rightarrow> i32" and J :: "'m \<Rightarrow> (tid \<Rightarrow> 'p) \<Rightarrow> bool"
  assumes J_mem: "\<lbrakk>J m P; t < N; act (P t) = Mem f\<rbrakk>
      \<Longrightarrow> \<exists>m' p. f m = (m', Ret p) \<and> J m' (P(t := p))"
    and J_call: "\<lbrakk>J m P; t < N; act (P t) = Client ps; p \<in> set ps\<rbrakk> \<Longrightarrow> J m (P(t := p))"
    and J_wait: "\<lbrakk>J m P; t < N; act (P t) = Wait c v k; k rv e = Ret p\<rbrakk> \<Longrightarrow> J m (P(t := p))"
    and J_wake: "\<lbrakk>J m P; t < N; act (P t) = Wake c n k'; k' rv = Ret p\<rbrakk> \<Longrightarrow> J m (P(t := p))"
    and wait_stop: "\<lbrakk>act q = Wait c v k; k rv e = Stop x\<rbrakk> \<Longrightarrow> \<exists>msg. x = Critical_error msg"
    and wake_stop: "\<lbrakk>act q = Wake c n k'; k' rv = Stop x\<rbrakk> \<Longrightarrow> \<exists>msg. x = Critical_error msg"
begin

definition safe :: "('m, 'p) conf \<Rightarrow> bool" where
  "safe s \<longleftrightarrow> J (mem s) (pcs s) \<and> halt_ok s"

lemma safe_goto:
  assumes "safe s" and "\<And>p. c = Ret p \<Longrightarrow> J (mem s) ((pcs s)(t := p))"
    and "\<And>x. c = Stop x \<Longrightarrow> \<exists>msg. x = Critical_error msg"
  shows "safe (goto t c s)"
  using assms by (cases c) (auto simp: safe_def halt_ok_def)

lemma safe_mem:
  assumes "safe s" "halted s = None" "t < N" "act (pcs s t) = Mem f" "f (mem s) = (m, c)"
  shows "safe (goto t c (s\<lparr>mem := m\<rparr>))"
  using assms J_mem [of "mem s" "pcs s" t f] by (auto simp: safe_def halt_ok_def)

lemma safe_rouse: "safe (rouse w s) = safe s" "safe (s\<lparr>stat := f\<rparr>) = safe s"
  by (simp_all add: safe_def halt_ok_def)

lemma J_of_safe: "safe s \<Longrightarrow> J (mem s) (pcs s)"
  by (simp add: safe_def)

sublocale machine_invariant kw N act rd safe
proof
  fix s t f m c
  assume "safe s" "halted s = None" "t < N" "act (pcs s t) = Mem f" "f (mem s) = (m, c)"
  then show "safe (goto t c (s\<lparr>mem := m\<rparr>))" by (rule safe_mem)
next
  fix s t ps p
  assume "safe s" "t < N" "act (pcs s t) = Client ps" "p \<in> set ps"
  then show "safe (goto t (Ret p) s)"
    by (intro safe_goto) (auto dest: J_of_safe intro: J_call)
next
  fix s t c' v k rv e
  assume "safe s" "t < N" "act (pcs s t) = Wait c' v k"
  then show "safe (goto t (k rv e) s)"
    by (intro safe_goto) (auto dest: J_of_safe wait_stop intro: J_wait)
next
  fix s t c' n k' w w'
  assume "safe s" "t < N" and a: "act (pcs s t) = Wake c' n k'"
  then show "safe (goto t (k' (int (length w'))) (rouse w' s))"
    by (intro safe_goto) (auto simp: safe_rouse dest: J_of_safe wake_stop intro: J_wake [where P = "pcs s" and t = t, OF _ _ a])
next
  fix s t c' n k' and rv :: int
  assume "safe s" "t < N" and a: "act (pcs s t) = Wake c' n k'"
  then show "safe (goto t (k' rv) s)"
    by (intro safe_goto) (auto dest: J_of_safe wake_stop intro: J_wake [where P = "pcs s" and t = t, OF _ _ a])
qed (simp_all add: safe_rouse)

end

section \<open>Facts about runs\<close>

lemma fifo_wake_documented: "documented_wake fifo_wake"
  by (auto simp: documented_wake_def fifo_wake_def min.commute dest: in_set_takeD)

lemma set_sleepers [simp]:
  "set (sleepers act N s c) = {u. u < N \<and> stat s u = Sleeping \<and> waits_on act c (pcs s u)}"
  by (auto simp: sleepers_def)

lemma distinct_sleepers [simp]: "distinct (sleepers act N s c)"
  by (simp add: sleepers_def)

lemma documented_wake_one:
  assumes "documented_wake kw" and "kw 1 (sleepers act N s c) w"
  shows "set w \<subseteq> set (sleepers act N s c)" and "filter (\<lambda>u. u \<in> set (sleepers act N s c)) w = w"
    and "set (sleepers act N s c) \<noteq> {} \<Longrightarrow> \<exists>x. w = [x]"
proof -
  have w: "set w \<subseteq> set (sleepers act N s c)" "length w = min 1 (length (sleepers act N s c))"
    using assms distinct_sleepers [of act N s c] unfolding documented_wake_def by blast+
  then show "set w \<subseteq> set (sleepers act N s c)" by blast
  show "filter (\<lambda>u. u \<in> set (sleepers act N s c)) w = w"
    using w(1) by (auto intro!: filter_True)
  assume "set (sleepers act N s c) \<noteq> {}"
  then have "length w = 1"
    using w(2) by (cases "sleepers act N s c") auto
  then show "\<exists>x. w = [x]" by (cases w) auto
qed

lemma reach_run:
  assumes "reach s0 (mstep kw N act rd) s" and "run kw N act rd s evs = Some s'"
  shows "reach s0 (mstep kw N act rd) s'"
  using assms
proof (induction evs arbitrary: s)
  case Nil
  then show ?case by simp
next
  case (Cons ev evs)
  then obtain s1 where "exec kw N act rd s ev = Some s1" and "run kw N act rd s1 evs = Some s'"
    by (auto split: option.splits)
  moreover from this Cons.prems(1) have "reach s0 (mstep kw N act rd) s1"
    by (blast intro: reach_step mstep_def [THEN iffD2])
  ultimately show ?case by (intro Cons.IH)
qed

lemma run_reachable: "run kw N act rd s0 evs = Some s' \<Longrightarrow> reach s0 (mstep kw N act rd) s'"
  by (rule reach_run [OF reach_init])

text \<open>A run all of whose states after the first satisfy \<open>Q\<close>.\<close>

fun run_in :: "(('m, 'p) conf \<Rightarrow> bool) \<Rightarrow> kernel_wake \<Rightarrow> nat \<Rightarrow> ('p \<Rightarrow> ('m, 'p, 'c) action) \<Rightarrow> ('c \<Rightarrow> 'm \<Rightarrow> i32)
    \<Rightarrow> ('m, 'p) conf \<Rightarrow> event list \<Rightarrow> ('m, 'p) conf option" where
  "run_in Q kw N act rd s [] = Some s"
| "run_in Q kw N act rd s (ev # evs) = (case exec kw N act rd s ev of None \<Rightarrow> None
     | Some s' \<Rightarrow> if Q s' then run_in Q kw N act rd s' evs else None)"

lemma run_in_reach:
  assumes "run_in Q kw N act rd s evs = Some s'" and "reach s0 (\<lambda>x y. mstep kw N act rd x y \<and> Q y) s"
  shows "reach s0 (\<lambda>x y. mstep kw N act rd x y \<and> Q y) s'"
  using assms
proof (induction evs arbitrary: s)
  case (Cons ev evs)
  then obtain s1 where s1: "exec kw N act rd s ev = Some s1" "Q s1" "run_in Q kw N act rd s1 evs = Some s'"
    by (auto split: option.splits if_splits)
  then have "mstep kw N act rd s s1" by (auto simp: mstep_def)
  with s1 Cons.prems(2) show ?case by (blast intro: Cons.IH reach_step)
qed simp

text \<open>What one event does to the program points: nothing, or it moves one thread.\<close>

lemma exec_pcs:
  assumes "exec kw N act rd s ev = Some s'"
  obtains "pcs s' = pcs s" "mem s' = mem s"
  | t F x where "t < N" "act (pcs s t) = Mem F" "F (mem s) = (mem s', Stop x)" "pcs s' = pcs s"
  | t F p where "t < N" "act (pcs s t) = Mem F" "F (mem s) = (mem s', Ret p)" "pcs s' = (pcs s)(t := p)"
  | t ps p where "t < N" "act (pcs s t) = Client ps" "p \<in> set ps" "pcs s' = (pcs s)(t := p)" "mem s' = mem s"
  | t c v k rv e p where "t < N" "act (pcs s t) = Wait c v k" "k rv e = Ret p" "pcs s' = (pcs s)(t := p)" "mem s' = mem s"
  | t c n k rv p where "t < N" "act (pcs s t) = Wake c n k" "k rv = Ret p" "pcs s' = (pcs s)(t := p)" "mem s' = mem s"
proof (cases ev)
  case (Run t)
  with assms have t: "t < N" by (auto split: if_splits)
  show ?thesis
  proof (cases "act (pcs s t)")
    case (Mem f)
    obtain m c where f: "f (mem s) = (m, c)" by fastforce
    with assms Run Mem have s': "s' = goto t c (s\<lparr>mem := m\<rparr>)" by (auto split: if_splits)
    show ?thesis
    proof (cases c)
      case (Ret p)
      with f s' Mem t show ?thesis by (intro that(3) [of t f p]) auto
    next
      case (Stop x)
      with f s' Mem t show ?thesis by (intro that(2) [of t f x]) auto
    qed
  next
    case (Wait c v k)
    show ?thesis
    proof (cases "stat s t")
      case (Returned rv e)
      show ?thesis
      proof (cases "k rv e")
        case (Ret p)
        show ?thesis
          by (rule that(5) [OF t Wait Ret]) (use assms Run Wait Returned Ret in \<open>auto split: if_splits\<close>)
      qed (use assms Run Wait Returned in \<open>auto intro: that(1) split: if_splits\<close>)
    qed (use assms Run Wait in \<open>auto intro: that(1) split: if_splits\<close>)
  qed (use assms Run in \<open>auto split: if_splits\<close>)
next
  case (Call t i)
  with assms obtain ps where "t < N" "act (pcs s t) = Client ps" "i < length ps" "pcs s' = (pcs s)(t := ps ! i)" "mem s' = mem s"
    by (auto split: if_splits action.splits)
  then show ?thesis using that(4) [of t ps "ps ! i"] by simp
next
  case (WakeUp t w)
  with assms obtain c n k where t: "t < N" "act (pcs s t) = Wake c n k"
    by (auto split: if_splits action.splits)
  define rv where "rv = int (length (filter (\<lambda>u. u \<in> set (sleepers act N s c)) w))"
  show ?thesis
  proof (cases "k rv")
    case (Ret p)
    show ?thesis
      by (rule that(6) [OF t Ret]) (use assms WakeUp t Ret in \<open>auto simp: Let_def rv_def split: if_splits\<close>)
  qed (use assms WakeUp t in \<open>auto intro: that(1) simp: Let_def rv_def split: if_splits\<close>)
next
  case (Kern t rv e)
  show ?thesis
  proof (cases "act (pcs s t)")
    case (Wake c n k)
    have t: "t < N" using assms Kern by (auto split: if_splits)
    show ?thesis
    proof (cases "k rv")
      case (Ret p)
      show ?thesis
        by (rule that(6) [OF t Wake Ret]) (use assms Kern Wake Ret in \<open>auto split: if_splits\<close>)
    qed (use assms Kern Wake in \<open>auto intro: that(1) split: if_splits\<close>)
  next
    case (Wait c v k)
    with assms Kern show ?thesis by (auto intro: that(1) split: if_splits status.splits)
  qed (use assms Kern in \<open>auto split: if_splits\<close>)
qed

lemma embed_Mem_iff:
  "embed get upd cm j a = Mem F \<longleftrightarrow>
     (\<exists>f. a = Mem f \<and> F = (\<lambda>m. let (s, n) = f (get m) in (upd s m, bnd n (\<lambda>x. Ret (j x)))))"
  by (cases a) auto

lemma embed_Wait_iff:
  "embed get upd cm j a = Wait c v K \<longleftrightarrow>
     (\<exists>d k. a = Wait d v k \<and> c = cm d \<and> K = (\<lambda>rv e. bnd (k rv e) (\<lambda>x. Ret (j x))))"
  by (cases a) auto

lemma embed_Wake_iff:
  "embed get upd cm j a = Wake c n K \<longleftrightarrow>
     (\<exists>d k. a = Wake d n k \<and> c = cm d \<and> K = (\<lambda>rv. bnd (k rv) (\<lambda>x. Ret (j x))))"
  by (cases a) auto

lemma embed_Client_iff:
  "embed get upd cm j a = Client ps \<longleftrightarrow> (\<exists>ns. a = Client ns \<and> ps = map j ns)"
  by (cases a) auto

lemmas embed_iffs = embed_Mem_iff embed_Wait_iff embed_Wake_iff embed_Client_iff

lemma calls_iffs:
  "calls at ret a = Mem F \<longleftrightarrow> (\<exists>f. a = Mem f \<and> F = (\<lambda>m. let (s, n) = f m
     in (s, bnd n (\<lambda>x. Ret (case x of Goto q \<Rightarrow> at q | Done r \<Rightarrow> ret r)))))"
  "calls at ret a = Wait c v K \<longleftrightarrow> (\<exists>k. a = Wait c v k \<and>
     K = (\<lambda>rv e. bnd (k rv e) (\<lambda>x. Ret (case x of Goto q \<Rightarrow> at q | Done r \<Rightarrow> ret r))))"
  "calls at ret a = Wake c n K' \<longleftrightarrow> (\<exists>k. a = Wake c n k \<and>
     K' = (\<lambda>rv. bnd (k rv) (\<lambda>x. Ret (case x of Goto q \<Rightarrow> at q | Done r \<Rightarrow> ret r))))"
  "calls at ret a = Client ps \<longleftrightarrow> (\<exists>ns. a = Client ns \<and>
     ps = map (\<lambda>x. case x of Goto q \<Rightarrow> at q | Done r \<Rightarrow> ret r) ns)"
  by (simp_all add: calls_def embed_iffs)

text \<open>Where the caller is after the called function went on to \<open>n\<close>.\<close>

abbreviation after :: "('q \<Rightarrow> 'p) \<Rightarrow> ('r \<Rightarrow> 'p) \<Rightarrow> ('q, 'r) cont \<Rightarrow> 'p" where
  "after at ret n \<equiv> (case n of Goto q \<Rightarrow> at q | Done r \<Rightarrow> ret r)"

lemma calls_Mem_Ret:
  assumes "calls at ret a = Mem F" and "F m = (m', Ret p')"
  obtains f n where "a = Mem f" and "f m = (m', Ret n)" and "p' = after at ret n"
  using assms by (auto simp: calls_iffs ctl_rules split: prod.splits)

lemma embed_calls:
  "embed id (\<lambda>s _. s) id h (calls at ret a) = calls (\<lambda>q. h (at q)) (\<lambda>r. h (ret r)) a"
  by (cases a) (auto simp: calls_def Let_def bnd_assoc fun_eq_iff split: prod.splits cont.splits
      intro!: arg_cong [where f = "bnd _"])

lemma calls_result:
  assumes "\<And>q. G (at q)" and "\<And>r. G (ret r)"
  shows "calls at ret a = Mem F \<Longrightarrow> F m = (m', Ret p) \<Longrightarrow> G p"
    and "calls at ret a = Wait c v k \<Longrightarrow> k rv e = Ret p \<Longrightarrow> G p"
    and "calls at ret a = Wake c n k' \<Longrightarrow> k' rv = Ret p \<Longrightarrow> G p"
    and "calls at ret a = Client ps \<Longrightarrow> p \<in> set ps \<Longrightarrow> G p"
proof -
  have after: "G (case x of Goto q \<Rightarrow> at q | Done r \<Rightarrow> ret r)" for x
    using assms by (cases x) auto
  show "calls at ret a = Mem F \<Longrightarrow> F m = (m', Ret p) \<Longrightarrow> G p"
    using after by (auto simp: calls_iffs ctl_rules split: prod.splits)
  show "calls at ret a = Wait c v k \<Longrightarrow> k rv e = Ret p \<Longrightarrow> G p"
    "calls at ret a = Wake c n k' \<Longrightarrow> k' rv = Ret p \<Longrightarrow> G p"
    "calls at ret a = Client ps \<Longrightarrow> p \<in> set ps \<Longrightarrow> G p"
    using after by (auto simp: calls_iffs ctl_rules)
qed

lemma waits_on_Wait: "act p = Wait c' v k \<Longrightarrow> waits_on act c p \<longleftrightarrow> c' = c"
  by (simp add: waits_on_def)

section \<open>A component on top of another\<close>

text \<open>
  A component whose functions call those of a lower one: \<open>h\<close> says at which point of the
  lower component a thread of the upper one is, for points that satisfy \<open>good\<close>. Inside a call
  both do the same; between calls the upper component only does what a caller of the lower one
  may do. Then every run of the upper component is a run of the lower one.
\<close>

locale machine_map =
  fixes kw :: kernel_wake and N :: nat
    and act :: "'p \<Rightarrow> ('m, 'p, 'c) action" and act' :: "'q \<Rightarrow> ('m, 'q, 'c) action"
    and rd :: "'c \<Rightarrow> 'm \<Rightarrow> i32" and h :: "'p \<Rightarrow> 'q" and good :: "'p \<Rightarrow> bool"
  assumes same_action: "\<lbrakk>good p; \<And>ps. act p \<noteq> Client ps\<rbrakk>
      \<Longrightarrow> act' (h p) = embed id (\<lambda>s _. s) id h (act p)"
    and client: "\<lbrakk>good p; act p = Client ps\<rbrakk>
      \<Longrightarrow> \<exists>ps'. act' (h p) = Client ps' \<and> (\<forall>q\<in>set ps. h q = h p \<or> h q \<in> set ps')"
    and good_client: "\<lbrakk>good p; act p = Client ps; q \<in> set ps\<rbrakk> \<Longrightarrow> good q"
    and good_mem: "\<lbrakk>good p; act p = Mem f; f m = (m', Ret q)\<rbrakk> \<Longrightarrow> good q"
    and good_wait: "\<lbrakk>good p; act p = Wait c v k; k rv e = Ret q\<rbrakk> \<Longrightarrow> good q"
    and good_wake: "\<lbrakk>good p; act p = Wake c n k'; k' rv = Ret q\<rbrakk> \<Longrightarrow> good q"
begin

definition below :: "('m, 'p) conf \<Rightarrow> ('m, 'q) conf" where
  "below s = \<lparr>mem = mem s, pcs = (\<lambda>t. h (pcs s t)), stat = stat s, halted = halted s\<rparr>"

lemma below_simps [simp]:
  "mem (below s) = mem s" "pcs (below s) t = h (pcs s t)" "stat (below s) = stat s"
  "halted (below s) = halted s"
  by (simp_all add: below_def)

lemma below_goto: "goto t (bnd c (\<lambda>x. Ret (h x))) (below s) = below (goto t c s)"
  by (cases c) (auto simp: below_def)

lemma below_upd:
  "(below s)\<lparr>mem := m\<rparr> = below (s\<lparr>mem := m\<rparr>)" "(below s)\<lparr>stat := f\<rparr> = below (s\<lparr>stat := f\<rparr>)"
  "rouse w (below s) = below (rouse w s)"
  by (simp_all add: below_def rouse_def fun_eq_iff)

lemma waits_on_below:
  assumes "good p"
  shows "waits_on act' c (h p) = waits_on act c p"
  using assms same_action [OF assms] client [OF assms]
  by (cases "act p") (auto simp: waits_on_def)

lemma sleepers_below:
  assumes "\<And>t. good (pcs s t)"
  shows "sleepers act' N (below s) c = sleepers act N s c"
  using assms by (simp add: sleepers_def waits_on_below)

definition settled :: "('m, 'p) conf \<Rightarrow> bool" where
  "settled s \<longleftrightarrow> (\<forall>u. good (pcs s u)) \<and> (\<forall>u ps. act (pcs s u) = Client ps \<longrightarrow> stat s u = Running)"

lemma settled_goto: "settled s \<Longrightarrow> (\<And>p. c = Ret p \<Longrightarrow> good p) \<Longrightarrow> settled (goto t c s)"
  by (cases c) (auto simp: settled_def)

lemma settled_stat: "settled s \<Longrightarrow> act (pcs s t) = Wait c v k \<Longrightarrow> settled (s\<lparr>stat := (stat s)(t := x)\<rparr>)"
  by (auto simp: settled_def)

lemma settled_rouse:
  assumes "settled s"
  shows "settled (rouse (filter (\<lambda>u. u \<in> set (sleepers act N s c)) w) s)"
  using assms by (auto simp: settled_def waits_on_def)

lemma settled_mem: "settled (s\<lparr>mem := m\<rparr>) = settled s"
  by (simp add: settled_def)

sublocale settled_inv: machine_invariant kw N act rd settled
proof
  fix s t f m c assume s: "settled s" "act (pcs s t) = Mem f" "f (mem s) = (m, c)"
  then have "good p" if "c = Ret p" for p
    using good_mem that unfolding settled_def by blast
  with settled_goto [of "s\<lparr>mem := m\<rparr>"] s(1) show "settled (goto t c (s\<lparr>mem := m\<rparr>))"
    by (simp add: settled_mem)
next
  fix s t ps p assume s: "settled s" "act (pcs s t) = Client ps" "p \<in> set ps"
  then have "good p" using good_client unfolding settled_def by blast
  with settled_goto [OF s(1), of "Ret p" t] show "settled (goto t (Ret p) s)" by simp
next
  fix s t c' v k rv e assume s: "settled s" "act (pcs s t) = Wait c' v k"
  then have "good p" if "k rv e = Ret p" for p
    using good_wait that unfolding settled_def by blast
  with settled_goto [OF s(1)] show "settled (goto t (k rv e) s)" by blast
next
  fix s t c' n k' w w' assume s: "settled s" "act (pcs s t) = Wake c' n k'"
    "w' = filter (\<lambda>u. u \<in> set (sleepers act N s c')) w"
  have "good p" if "k' (int (length w')) = Ret p" for p
    using good_wake s(1,2) that unfolding settled_def by blast
  with settled_goto [OF settled_rouse [OF s(1), of c' w]] s(3)
  show "settled (goto t (k' (int (length w'))) (rouse w' s))" by blast
next
  fix s t c' n k' and rv :: int assume s: "settled s" "act (pcs s t) = Wake c' n k'"
  then have "good p" if "k' rv = Ret p" for p
    using good_wake that unfolding settled_def by blast
  with settled_goto [OF s(1)] show "settled (goto t (k' rv) s)" by blast
qed (auto intro: settled_stat)

lemma exec_call_below:
  assumes "exec kw N act rd s (Call t i) = Some s'" and "settled s"
  shows "below s' = below s \<or> (\<exists>ev'. exec kw N act' rd (below s) ev' = Some (below s'))"
proof -
  from assms(1) obtain ps where t: "halted s = None" "t < N" and ps: "act (pcs s t) = Client ps" "i < length ps"
    and s': "s' = goto t (Ret (ps ! i)) s"
    by (auto split: if_splits action.splits)
  have g: "good (pcs s t)" "stat s t = Running"
    using assms(2) ps by (auto simp: settled_def)
  obtain qs where qs: "act' (h (pcs s t)) = Client qs"
    and disj: "h (ps ! i) = h (pcs s t) \<or> h (ps ! i) \<in> set qs"
    using client [OF g(1) ps(1)] ps(2) nth_mem by blast
  from disj show ?thesis
  proof
    assume "h (ps ! i) = h (pcs s t)"
    with g have "below s' = below s" by (auto simp: s' below_def fun_eq_iff)
    then show ?thesis ..
  next
    assume "h (ps ! i) \<in> set qs"
    then obtain j where "j < length qs" "qs ! j = h (ps ! i)" by (auto simp: in_set_conv_nth)
    then have "exec kw N act' rd (below s) (Call t j) = Some (below s')"
      using t qs below_goto [of t "Ret (ps ! i)" s] by (simp add: s')
    then show ?thesis by blast
  qed
qed

lemma exec_below:
  assumes "exec kw N act rd s ev = Some s'" and s: "settled s" and "\<And>t i. ev \<noteq> Call t i"
  shows "exec kw N act' rd (below s) ev = Some (below s')"
proof -
  have g: "good (pcs s t)" for t using s by (simp add: settled_def)
  have a: "act' (h (pcs s t)) = embed id (\<lambda>s _. s) id h (act (pcs s t))" if "\<And>ps. act (pcs s t) \<noteq> Client ps" for t
    using same_action g that by blast
  show ?thesis
  proof (cases ev)
    case (Run t)
    with assms(1) a [of t] show ?thesis
      by (cases "act (pcs s t)")
        (auto simp: below_goto below_upd Let_def split: if_splits prod.splits status.splits)
  next
    case (WakeUp t w)
    with assms(1) a [of t] show ?thesis
      by (cases "act (pcs s t)")
        (auto simp: below_goto below_upd Let_def sleepers_below [OF g] split: if_splits)
  next
    case (Kern t rv e)
    with assms(1) a [of t] show ?thesis
      by (cases "act (pcs s t)") (auto simp: below_goto below_upd split: if_splits status.splits)
  qed (use assms(3) in auto)
qed

lemma mstep_below:
  assumes "mstep kw N act rd s s'" and "settled s"
  shows "below s' = below s \<or> mstep kw N act' rd (below s) (below s')"
proof -
  from assms(1) obtain ev where ev: "exec kw N act rd s ev = Some s'" by (auto simp: mstep_def)
  show ?thesis
  proof (cases "\<exists>t i. ev = Call t i")
    case True
    with exec_call_below ev assms(2) show ?thesis unfolding mstep_def by blast
  next
    case False
    with exec_below [OF ev assms(2)] show ?thesis unfolding mstep_def by blast
  qed
qed

lemma reach_below:
  assumes "reach s0 (mstep kw N act rd) s" and "settled s0"
  shows "reach (below s0) (mstep kw N act' rd) (below s)"
  using assms(1)
proof (induction rule: reach.induct)
  case (reach_step s s')
  then have "settled s" using settled_inv.machine_reach_inv assms(2) by blast
  with reach_step mstep_below show ?case by (metis reach.reach_step)
qed (rule reach_init)

end

end
