(* ===== verification/Gate.thy ===== *)
theory Gate
  imports Threads
begin

text \<open>
  The gate of \<^verbatim>\<open>src/src/bdrwlock.cpp\<close>: a mutex in one \<^verbatim>\<open>int\<close> with the values
  0 (unlocked), 1 (locked) and 2 (locked, contended). \<open>enter_gate\<close> and \<open>leave_gate\<close>
  make several atomic accesses, so each is a function from program points to actions on the
  gate's word; \<open>try_enter_gate\<close> is a single access. The locale \<open>mutex_word\<close> is the
  contract that users of the gate rely on, and the interpretation at the end discharges it for
  these definitions.
\<close>

section \<open>The functions\<close>

text \<open>
  Points of \<open>enter_gate\<close>: before the first compare-exchange, at the head of the loop with the
  value of \<^verbatim>\<open>expected\<close> seen by the failed compare-exchange, at the call of
  \<open>futex_wait\<close>, and before the compare-exchange of the loop's condition.
\<close>

datatype enter_pc = EG_first | EG_mark i32 | EG_wait | EG_again

fun enter_gate :: "string option \<Rightarrow> enter_pc \<Rightarrow> (i32, (enter_pc, unit) cont, unit) action" where
  "enter_gate txt EG_first = Mem (\<lambda>gate.
     let (ok, expected, gate') = cas gate 0 1
     in (gate', Ret (if \<not> ok then Goto (EG_mark expected) else Done ())))"
| "enter_gate txt (EG_mark expected) = Mem (\<lambda>gate.
     if expected = 2 then (gate, Ret (Goto EG_wait))
     else let (ok, expected, gate') = cas gate expected 2
          in (gate', Ret (if ok then Goto EG_wait else Goto EG_again)))"
| "enter_gate txt EG_wait = Wait () 2 (\<lambda>rv e.
     bnd (futex_wait_ret futex_critical_error txt rv e) (\<lambda>_. Ret (Goto EG_again)))"
| "enter_gate txt EG_again = Mem (\<lambda>gate.
     let (ok, expected, gate') = cas gate 0 2
     in (gate', Ret (if \<not> ok then Goto (EG_mark expected) else Done ())))"

definition try_enter_gate :: "i32 \<Rightarrow> bool \<times> i32" where
  "try_enter_gate gate =
     (let (ok, expected, gate') = cas gate 0 1
      in if ok then (True, gate') else (False, gate'))"

text \<open>
  Points of \<open>leave_gate\<close>: before the atomic decrement, before the store of 0, and at the call
  of \<open>futex_wake\<close>. \<open>testing\<close> says whether \<^verbatim>\<open>TESTING\<close> is defined; the Makefile
  leaves it undefined.
\<close>

datatype leave_pc = LG_sub | LG_store | LG_wake

fun leave_gate :: "bool \<Rightarrow> string option \<Rightarrow> leave_pc \<Rightarrow> (i32, (leave_pc, unit) cont, unit) action" where
  "leave_gate testing txt LG_sub = Mem (\<lambda>gate.
     let (vsampled, gate') = fetch_sub gate 1
     in if vsampled \<noteq> 1
        then (gate', bnd (check (testing \<longrightarrow> vsampled = 2) ''vsampled == 2'') (\<lambda>_. Ret (Goto LG_store)))
        else (gate', bnd (check (testing \<longrightarrow> vsampled = 0) ''vsampled == 0'') (\<lambda>_. Ret (Done ()))))"
| "leave_gate testing txt LG_store = Mem (\<lambda>gate. (0, Ret (Goto LG_wake)))"
| "leave_gate testing txt LG_wake = Wake () 1 (\<lambda>rv.
     bnd (futex_wake_ret futex_critical_error txt rv) (\<lambda>_. Ret (Done ())))"

text \<open>The values the comment in the source allows, and who owns the gate in the middle of a call.\<close>

definition gate_value :: "i32 \<Rightarrow> bool" where
  "gate_value g \<longleftrightarrow> g = 0 \<or> g = 1 \<or> g = 2"

fun enter_ok :: "enter_pc \<Rightarrow> bool" where
  "enter_ok (EG_mark e) = (e \<noteq> 0)"
| "enter_ok _ = True"

fun leave_held :: "leave_pc \<Rightarrow> bool" where
  "leave_held LG_wake = False"
| "leave_held _ = True"

section \<open>The contract of a mutex word\<close>

locale mutex_word =
  fixes enter :: "'e \<Rightarrow> (i32, ('e, unit) cont, unit) action"
    and leave :: "'l \<Rightarrow> (i32, ('l, unit) cont, unit) action"
    and good :: "i32 \<Rightarrow> bool" and e_ok :: "'e \<Rightarrow> bool" and held :: "'l \<Rightarrow> bool"
  assumes enter_mem: "\<lbrakk>enter e = Mem f; good g; e_ok e\<rbrakk>
      \<Longrightarrow> \<exists>g' n. f g = (g', Ret n) \<and> good g' \<and>
          (case n of Goto e' \<Rightarrow> e_ok e' \<and> (g' = 0 \<longleftrightarrow> g = 0) | Done _ \<Rightarrow> g = 0 \<and> g' \<noteq> 0)"
    and enter_wait: "\<lbrakk>enter e = Wait u v k; k rv er = Ret n\<rbrakk> \<Longrightarrow> \<exists>e'. n = Goto e' \<and> e_ok e'"
    and enter_wait_stop: "\<lbrakk>enter e = Wait u v k; k rv er = Stop x\<rbrakk> \<Longrightarrow> \<exists>m. x = Critical_error m"
    and enter_other: "enter e \<noteq> Wake u c ke" "enter e \<noteq> Client ns"
    and leave_mem: "\<lbrakk>leave l = Mem h; good g; held l \<Longrightarrow> g \<noteq> 0\<rbrakk>
      \<Longrightarrow> held l \<and> (\<exists>g' n. h g = (g', Ret n) \<and> good g' \<and>
          (case n of Goto l' \<Rightarrow> (if held l' then g' \<noteq> 0 else g' = 0) | Done _ \<Rightarrow> g' = 0))"
    and leave_wake: "leave l = Wake u c k' \<Longrightarrow> \<not> held l"
    and leave_wake_ret: "\<lbrakk>leave l = Wake u c k'; k' rv = Ret n'\<rbrakk> \<Longrightarrow> n' = Done ()"
    and leave_wake_stop: "\<lbrakk>leave l = Wake u c k'; k' rv = Stop x\<rbrakk> \<Longrightarrow> \<exists>m. x = Critical_error m"
    and leave_other: "leave l \<noteq> Wait u v kl" "leave l \<noteq> Client ns'"
begin

text \<open>The number of owners (0 or 1) that the word stands for.\<close>

definition owners :: "i32 \<Rightarrow> int" where
  "owners g = (if g = 0 then 0 else 1)"

lemma enter_step:
  assumes "enter e = Mem f" and "good g" and "e_ok e"
  obtains g' e' where "f g = (g', Ret (Goto e'))" "good g'" "e_ok e'" "owners g' = owners g"
  | g' where "f g = (g', Ret (Done ()))" "good g'" "owners g = 0" "owners g' = 1"
proof -
  from enter_mem [OF assms] obtain g' n where *: "f g = (g', Ret n)" "good g'"
    and n: "case n of Goto e' \<Rightarrow> e_ok e' \<and> (g' = 0 \<longleftrightarrow> g = 0) | Done _ \<Rightarrow> g = 0 \<and> g' \<noteq> 0"
    by blast
  then show ?thesis
    using that by (cases n) (auto simp: owners_def)
qed

lemma leave_step:
  assumes "leave l = Mem f" and "good g" and "held l \<Longrightarrow> owners g = 1"
  obtains g' l' where "f g = (g', Ret (Goto l'))" "good g'" "held l" "owners g = 1"
      "owners g' = (if held l' then 1 else 0)"
  | g' where "f g = (g', Ret (Done ()))" "good g'" "held l" "owners g = 1" "owners g' = 0"
proof -
  have "held l \<Longrightarrow> g \<noteq> 0"
    using assms(3) by (auto simp: owners_def)
  from leave_mem [OF assms(1,2) this] obtain g' n where *: "held l" "f g = (g', Ret n)" "good g'"
    and n: "case n of Goto l' \<Rightarrow> (if held l' then g' \<noteq> 0 else g' = 0) | Done _ \<Rightarrow> g' = 0"
    by blast
  then show ?thesis
    using that assms(3) by (cases n) (auto simp: owners_def split: if_splits)
qed

end

section \<open>The gate is a mutex word\<close>

lemma enter_gate_Mem:
  assumes "enter_gate txt e = Mem f" and "gate_value g" and "enter_ok e"
  shows "\<exists>g' n. f g = (g', Ret n) \<and> gate_value g' \<and>
    (case n of Goto e' \<Rightarrow> enter_ok e' \<and> (g' = 0 \<longleftrightarrow> g = 0) | Done _ \<Rightarrow> g = 0 \<and> g' \<noteq> 0)"
  using assms by (cases e) (auto simp: atomics gate_value_def)

lemma leave_gate_Mem:
  assumes "leave_gate False txt l = Mem f" and "gate_value g" and "leave_held l \<Longrightarrow> g \<noteq> 0"
  shows "leave_held l \<and> (\<exists>g' n. f g = (g', Ret n) \<and> gate_value g' \<and>
    (case n of Goto l' \<Rightarrow> (if leave_held l' then g' \<noteq> 0 else g' = 0) | Done _ \<Rightarrow> g' = 0))"
  using assms by (cases l) (auto simp: atomics gate_value_def)

interpretation gt: mutex_word "enter_gate txt" "leave_gate False txt'" gate_value enter_ok leave_held
proof
  show "\<exists>e'. n = Goto e' \<and> enter_ok e'"
    if "enter_gate txt e = Wait u v k" "k rv er = Ret n" for e u v k rv er n
    using that by (cases e) (auto simp: ctl_rules)
  show "\<exists>m. x = Critical_error m"
    if "enter_gate txt e = Wait u v k" "k rv er = Stop x" for e u v k rv er x
    using that by (cases e) (auto simp: ctl_rules dest: futex_wait_ret_Stop)
  show "\<exists>m. x = Critical_error m"
    if "leave_gate False txt' l = Wake u c k'" "k' rv = Stop x" for l u c k' rv x
    using that by (cases l) (auto simp: ctl_rules dest: futex_wake_ret_Stop)
  show "n = Done ()"
    if "leave_gate False txt' l = Wake u c k'" "k' rv = Ret n" for l u c k' rv n
    using that by (cases l) (auto simp: ctl_rules)
  show "enter_gate txt e \<noteq> Wake u c k'" "enter_gate txt e \<noteq> Client ns" for e u c k' ns
    by (cases e; simp)+
  show "leave_gate False txt' l \<noteq> Wait u v k" "leave_gate False txt' l \<noteq> Client ns" for l u v k ns
    by (cases l; simp)+
  show "\<not> leave_held l" if "leave_gate False txt' l = Wake u c k'" for l u c k'
    using that by (cases l) auto
qed (fact enter_gate_Mem leave_gate_Mem)+

end
