(* ===== verification/RW_Control.thy ===== *)
theory RW_Control
  imports Gate
begin

text \<open>
  \<^verbatim>\<open>futex_rw_control\<close> (\<^verbatim>\<open>src/src/bdrwlock.h\<close>, \<^verbatim>\<open>bdrwlock.cpp\<close>): a read/write
  lock in two words, the gate and the reader count. A writer keeps the gate and subtracts one
  from the count, so that the count is negative exactly when a writer is waiting or writing and
  no reader is left. Each member function is a definition of its own from its program points to
  actions; \<open>rw_act\<close> puts them together for threads that follow the rules in the header of
  \<^verbatim>\<open>bdrwlock.h\<close> (a lock is released by the call that matches it, on the same thread).

  The invariant \<open>rw_inv\<close> counts, over all threads, the owners of the gate, the readers and
  the writers; the theorems at the end are mutual exclusion, the value of the count, the absence
  of assertion failures and the success of the destructor once every lock is released.
\<close>

section \<open>State and member functions\<close>

record futex_rw_control =
  gate :: i32
  nreaders :: i32

definition futex_rw_control_init :: futex_rw_control where
  "futex_rw_control_init = \<lparr>gate = 0, nreaders = 0\<rparr>"

datatype rw_cell = Gate_word | Nreaders_word

fun rw_word :: "rw_cell \<Rightarrow> futex_rw_control \<Rightarrow> i32" where
  "rw_word Gate_word m = gate m"
| "rw_word Nreaders_word m = nreaders m"

definition on_gate :: "('n \<Rightarrow> 'p) \<Rightarrow> (i32, 'n, unit) action \<Rightarrow> (futex_rw_control, 'p, rw_cell) action" where
  "on_gate j a = embed gate (\<lambda>g m. m\<lparr>gate := g\<rparr>) (\<lambda>_. Gate_word) j a"

definition then_at :: "('q \<Rightarrow> 'p) \<Rightarrow> ('p, 'r) cont \<Rightarrow> ('q, unit) cont \<Rightarrow> ('p, 'r) cont" where
  "then_at at k n = (case n of Goto q \<Rightarrow> Goto (at q) | Done _ \<Rightarrow> k)"

datatype read_lock_pc = RL_enter enter_pc | RL_add | RL_leave leave_pc

fun read_lock :: "read_lock_pc \<Rightarrow> (futex_rw_control, (read_lock_pc, unit) cont, rw_cell) action" where
  "read_lock (RL_enter p) =
     on_gate (then_at RL_enter (Goto RL_add)) (enter_gate (Some '' fu_read_lock::lock'') p)"
| "read_lock RL_add = Mem (\<lambda>m.
     (m\<lparr>nreaders := add_fetch (nreaders m) 1\<rparr>, Ret (Goto (RL_leave LG_sub))))"
| "read_lock (RL_leave p) =
     on_gate (then_at RL_leave (Done ())) (leave_gate False (Some '' fu_read_lock::lock'') p)"

datatype read_unlock_pc = RU_sub | RU_wake

fun read_unlock :: "read_unlock_pc \<Rightarrow> (futex_rw_control, (read_unlock_pc, unit) cont, rw_cell) action" where
  "read_unlock RU_sub = Mem (\<lambda>m.
     let result = sub_fetch (nreaders m) 1
     in (m\<lparr>nreaders := result\<rparr>,
         if 0 > sint result
         then bnd (check (result = -1) ''result == -1'') (\<lambda>_. Ret (Goto RU_wake))
         else Ret (Done ())))"
| "read_unlock RU_wake = Wake Nreaders_word 1 (\<lambda>rv.
     bnd (futex_wake_ret futex_critical_error (Some '' fu_read_lock::unlock'') rv) (\<lambda>_. Ret (Done ())))"

datatype write_lock_pc = WL_enter enter_pc | WL_sub | WL_wait i32 | WL_load

fun write_lock :: "write_lock_pc \<Rightarrow> (futex_rw_control, (write_lock_pc, unit) cont, rw_cell) action" where
  "write_lock (WL_enter p) =
     on_gate (then_at WL_enter (Goto WL_sub)) (enter_gate (Some '' fu_write_lock::lock'') p)"
| "write_lock WL_sub = Mem (\<lambda>m.
     let val_nreaders = sub_fetch (nreaders m) 1
     in (m\<lparr>nreaders := val_nreaders\<rparr>,
         Ret (if 0 \<le> sint val_nreaders then Goto (WL_wait val_nreaders) else Done ())))"
| "write_lock (WL_wait val_nreaders) = Wait Nreaders_word val_nreaders (\<lambda>rv e.
     bnd (futex_wait_ret futex_critical_error (Some '' fu_write_lock::lock'') rv e)
       (\<lambda>_. Ret (Goto WL_load)))"
| "write_lock WL_load = Mem (\<lambda>m.
     let val_nreaders = nreaders m
     in (m, Ret (if sint val_nreaders \<ge> 0 then Goto (WL_wait val_nreaders) else Done ())))"

datatype write_unlock_pc = WU_store | WU_leave leave_pc

fun write_unlock :: "write_unlock_pc \<Rightarrow> (futex_rw_control, (write_unlock_pc, unit) cont, rw_cell) action" where
  "write_unlock WU_store = Mem (\<lambda>m. (m\<lparr>nreaders := 0\<rparr>, Ret (Goto (WU_leave LG_sub))))"
| "write_unlock (WU_leave p) =
     on_gate (then_at WU_leave (Done ())) (leave_gate False (Some '' fu_write_lock::unlock'') p)"

datatype try_modify_pc = TM_try | TM_sub1 | TM_sub2 | TM_wait i32 | TM_load

fun try_write_modify :: "try_modify_pc \<Rightarrow> (futex_rw_control, (try_modify_pc, bool) cont, rw_cell) action" where
  "try_write_modify TM_try = Mem (\<lambda>m.
     let (entered, g) = try_enter_gate (gate m)
     in (m\<lparr>gate := g\<rparr>, Ret (if entered then Goto TM_sub1 else Done False)))"
| "try_write_modify TM_sub1 = Mem (\<lambda>m.
     (m\<lparr>nreaders := sub_fetch (nreaders m) 1\<rparr>, Ret (Goto TM_sub2)))"
| "try_write_modify TM_sub2 = Mem (\<lambda>m.
     let val_nreaders = sub_fetch (nreaders m) 1
     in (m\<lparr>nreaders := val_nreaders\<rparr>,
         Ret (if 0 \<le> sint val_nreaders then Goto (TM_wait val_nreaders) else Done True)))"
| "try_write_modify (TM_wait val_nreaders) = Wait Nreaders_word val_nreaders (\<lambda>rv e.
     bnd (futex_wait_ret futex_critical_error (Some '' futex_rw_control::try_write_modify'') rv e)
       (\<lambda>_. Ret (Goto TM_load)))"
| "try_write_modify TM_load = Mem (\<lambda>m.
     let val_nreaders = nreaders m
     in (m, Ret (if sint val_nreaders \<ge> 0 then Goto (TM_wait val_nreaders) else Done True)))"

datatype write_modify_pc =
  WM_sub | WM_wake | WM_enter enter_pc | WM_sub2 | WM_wait i32 | WM_load

fun write_modify :: "write_modify_pc \<Rightarrow> (futex_rw_control, (write_modify_pc, unit) cont, rw_cell) action" where
  "write_modify WM_sub = Mem (\<lambda>m.
     let result = sub_fetch (nreaders m) 1
     in (m\<lparr>nreaders := result\<rparr>,
         Ret (Goto (if 0 > sint result then WM_wake else WM_enter EG_first))))"
| "write_modify WM_wake = Wake Nreaders_word 1 (\<lambda>rv.
     bnd (futex_wake_ret futex_critical_error (Some '' futex_rw_control::write_modify'') rv)
       (\<lambda>_. Ret (Goto (WM_enter EG_first))))"
| "write_modify (WM_enter p) =
     on_gate (then_at WM_enter (Goto WM_sub2))
       (enter_gate (Some '' futex_rw_control::write_modify'') p)"
| "write_modify WM_sub2 = Mem (\<lambda>m.
     let val_nreaders = sub_fetch (nreaders m) 1
     in (m\<lparr>nreaders := val_nreaders\<rparr>,
         Ret (if 0 \<le> sint val_nreaders then Goto (WM_wait val_nreaders) else Done ())))"
| "write_modify (WM_wait val_nreaders) = Wait Nreaders_word val_nreaders (\<lambda>rv e.
     bnd (futex_wait_ret futex_critical_error (Some '' futex_rw_control::write_modify'') rv e)
       (\<lambda>_. Ret (Goto WM_load)))"
| "write_modify WM_load = Mem (\<lambda>m.
     let val_nreaders = nreaders m
     in (m, Ret (if sint val_nreaders \<ge> 0 then Goto (WM_wait val_nreaders) else Done ())))"

definition futex_rw_control_dtor :: "futex_rw_control \<Rightarrow> futex_rw_control ctl" where
  "futex_rw_control_dtor m =
     (if nreaders m \<noteq> 0 then Stop (Critical_error '' ~futex_rw_control readers count is not 0 '')
      else let (entered, g) = try_enter_gate (gate m)
           in if \<not> entered then Stop (Critical_error '' ~futex_rw_control writer active '')
              else Ret (m\<lparr>gate := g\<rparr>))"

section \<open>Threads that use the lock\<close>

text \<open>
  Between two calls a thread holds nothing (\<open>Idle\<close>), a read lock (\<open>Reading\<close>) or the
  write lock (\<open>Writing\<close>), and its caller chooses the next call among those allowed there.
\<close>

datatype rw_pc =
    Idle | Reading | Writing
  | In_read_lock read_lock_pc | In_read_unlock read_unlock_pc
  | In_write_lock write_lock_pc | In_write_unlock write_unlock_pc
  | In_try_write_modify try_modify_pc | In_write_modify write_modify_pc

fun rw_act :: "rw_pc \<Rightarrow> (futex_rw_control, rw_pc, rw_cell) action" where
  "rw_act Idle = Client [In_read_lock (RL_enter EG_first), In_write_lock (WL_enter EG_first)]"
| "rw_act Reading = Client [In_read_unlock RU_sub, In_try_write_modify TM_try, In_write_modify WM_sub]"
| "rw_act Writing = Client [In_write_unlock WU_store]"
| "rw_act (In_read_lock p) = calls In_read_lock (\<lambda>_. Reading) (read_lock p)"
| "rw_act (In_read_unlock p) = calls In_read_unlock (\<lambda>_. Idle) (read_unlock p)"
| "rw_act (In_write_lock p) = calls In_write_lock (\<lambda>_. Writing) (write_lock p)"
| "rw_act (In_write_unlock p) = calls In_write_unlock (\<lambda>_. Idle) (write_unlock p)"
| "rw_act (In_try_write_modify p) =
     calls In_try_write_modify (\<lambda>ok. if ok then Writing else Reading) (try_write_modify p)"
| "rw_act (In_write_modify p) = calls In_write_modify (\<lambda>_. Writing) (write_modify p)"

abbreviation rw_start :: "(futex_rw_control, rw_pc) conf" where
  "rw_start \<equiv> start futex_rw_control_init Idle"

abbreviation rw_step :: "kernel_wake \<Rightarrow> nat \<Rightarrow> (futex_rw_control, rw_pc) conf
    \<Rightarrow> (futex_rw_control, rw_pc) conf \<Rightarrow> bool" where
  "rw_step kw N \<equiv> mstep kw N rw_act rw_word"

section \<open>The counting invariant\<close>

text \<open>
  What a thread contributes at each point: 1 if it owns the gate, 1 if it is counted as a
  reader, 1 if it has subtracted itself as a writer, 1 if it may write.
\<close>

fun own :: "rw_pc \<Rightarrow> int" where
  "own (In_read_lock (RL_add)) = 1"
| "own (In_read_lock (RL_leave p)) = (if leave_held p then 1 else 0)"
| "own (In_write_lock (WL_enter p)) = 0"
| "own (In_write_lock p) = 1"
| "own Writing = 1"
| "own (In_write_unlock WU_store) = 1"
| "own (In_write_unlock (WU_leave p)) = (if leave_held p then 1 else 0)"
| "own (In_try_write_modify TM_try) = 0"
| "own (In_try_write_modify p) = 1"
| "own (In_write_modify WM_sub2) = 1"
| "own (In_write_modify (WM_wait v)) = 1"
| "own (In_write_modify WM_load) = 1"
| "own _ = 0"

fun rcnt :: "rw_pc \<Rightarrow> int" where
  "rcnt (In_read_lock (RL_leave p)) = 1"
| "rcnt Reading = 1"
| "rcnt (In_read_unlock RU_sub) = 1"
| "rcnt (In_try_write_modify TM_try) = 1"
| "rcnt (In_try_write_modify TM_sub1) = 1"
| "rcnt (In_write_modify WM_sub) = 1"
| "rcnt _ = 0"

fun wcnt :: "rw_pc \<Rightarrow> int" where
  "wcnt (In_write_lock (WL_wait v)) = 1"
| "wcnt (In_write_lock WL_load) = 1"
| "wcnt Writing = 1"
| "wcnt (In_write_unlock WU_store) = 1"
| "wcnt (In_try_write_modify (TM_wait v)) = 1"
| "wcnt (In_try_write_modify TM_load) = 1"
| "wcnt (In_write_modify (WM_wait v)) = 1"
| "wcnt (In_write_modify WM_load) = 1"
| "wcnt _ = 0"

fun wrt :: "rw_pc \<Rightarrow> int" where
  "wrt Writing = 1"
| "wrt (In_write_unlock WU_store) = 1"
| "wrt _ = 0"

fun pc_ok :: "rw_pc \<Rightarrow> bool" where
  "pc_ok (In_read_lock (RL_enter p)) = enter_ok p"
| "pc_ok (In_write_lock (WL_enter p)) = enter_ok p"
| "pc_ok (In_write_modify (WM_enter p)) = enter_ok p"
| "pc_ok _ = True"

definition rw_inv :: "nat \<Rightarrow> futex_rw_control \<Rightarrow> (tid \<Rightarrow> rw_pc) \<Rightarrow> bool" where
  "rw_inv N m P \<longleftrightarrow>
     gate_value (gate m) \<and>
     (\<forall>u<N. pc_ok (P u)) \<and>
     (\<Sum>u<N. own (P u)) = gt.owners (gate m) \<and>
     nreaders m = of_int ((\<Sum>u<N. rcnt (P u)) - (\<Sum>u<N. wcnt (P u))) \<and>
     (0 < (\<Sum>u<N. wrt (P u)) \<longrightarrow> (\<Sum>u<N. rcnt (P u)) = 0)"


section \<open>Every step keeps the invariant\<close>

lemma cnt_order: "0 \<le> rcnt p \<and> rcnt p \<le> 1 \<and> 0 \<le> wrt p \<and> wrt p \<le> wcnt p \<and> wcnt p \<le> own p \<and> own p \<le> 1"
proof (cases p)
  case (In_read_lock q) then show ?thesis by (cases q) simp_all
next
  case (In_read_unlock q) then show ?thesis by (cases q) simp_all
next
  case (In_write_lock q) then show ?thesis by (cases q) simp_all
next
  case (In_write_unlock q) then show ?thesis by (cases q) simp_all
next
  case (In_try_write_modify q) then show ?thesis by (cases q) simp_all
next
  case (In_write_modify q) then show ?thesis by (cases q) simp_all
qed simp_all

lemma cnt_bounds:
  "0 \<le> own p" "0 \<le> rcnt p" "rcnt p \<le> 1" "0 \<le> wrt p" "wrt p \<le> wcnt p" "wcnt p \<le> own p" "own p \<le> 1"
  using cnt_order [of p] by linarith+

text \<open>The four sums and their bounds, as seen from one thread.\<close>

lemma rw_sums:
  assumes inv: "rw_inv N m P" and t: "t < N"
  obtains G R W X :: int
  where "(\<Sum>u<N. own (P u)) = G" "(\<Sum>u<N. rcnt (P u)) = R"
    "(\<Sum>u<N. wcnt (P u)) = W" "(\<Sum>u<N. wrt (P u)) = X"
    and "G = gt.owners (gate m)" "nreaders m = of_int (R - W)" "0 < X \<longrightarrow> R = 0"
    and "0 \<le> X" "X \<le> W" "W \<le> G" "G \<le> 1" "rcnt (P t) \<le> R" "R \<le> int N"
    and "own (P t) \<le> G" "wrt (P t) \<le> X" "own (P t) - wcnt (P t) \<le> G - W"
    and "wcnt (P t) - wrt (P t) \<le> W - X"
proof -
  have wx: "(\<Sum>u<N. wrt (P u)) \<le> (\<Sum>u<N. wcnt (P u))" and ow: "(\<Sum>u<N. wcnt (P u)) \<le> (\<Sum>u<N. own (P u))"
    by (auto intro!: sum_mono cnt_bounds)
  have x0: "0 \<le> (\<Sum>u<N. wrt (P u))" and rN: "(\<Sum>u<N. rcnt (P u)) \<le> (\<Sum>u<N. 1)"
    by (auto intro!: sum_nonneg sum_mono cnt_bounds simp del: sum_constant)
  have o1: "gt.owners (gate m) \<le> 1" by (simp add: gt.owners_def)
  have d1: "own (P t) - wcnt (P t) \<le> (\<Sum>u<N. own (P u) - wcnt (P u))"
    by (rule sum_zero_one_member [OF _ t]) (simp add: cnt_bounds)
  have d2: "wcnt (P t) - wrt (P t) \<le> (\<Sum>u<N. wcnt (P u) - wrt (P u))"
    by (rule sum_zero_one_member [OF _ t]) (simp add: cnt_bounds)
  have m: "own (P t) \<le> (\<Sum>u<N. own (P u))" "rcnt (P t) \<le> (\<Sum>u<N. rcnt (P u))"
    "wrt (P t) \<le> (\<Sum>u<N. wrt (P u))"
    by (rule sum_zero_one_member [OF _ t], simp add: cnt_bounds)+
  show ?thesis
    using that [OF refl refl refl refl] inv wx ow x0 rN o1 d1 d2 m
    by (simp add: rw_inv_def sum_subtractf)
qed

text \<open>A step of thread \<open>t\<close> from point \<open>P t\<close> to \<open>q\<close> keeps the invariant if the sums agree.\<close>

lemma rw_inv_upd:
  assumes inv: "rw_inv N m P" and t: "t < N"
    and g: "gate_value (gate m')" and q: "pc_ok q"
    and o: "gt.owners (gate m') = gt.owners (gate m) + (own q - own (P t))"
    and n: "nreaders m' = nreaders m + of_int ((rcnt q - rcnt (P t)) - (wcnt q - wcnt (P t)))"
    and x: "0 < (\<Sum>u<N. wrt (P u)) + (wrt q - wrt (P t)) \<Longrightarrow>
      (\<Sum>u<N. rcnt (P u)) + (rcnt q - rcnt (P t)) = 0"
  shows "rw_inv N m' (P(t := q))"
proof -
  define R W where "R = (\<Sum>u<N. rcnt (P u))" and "W = (\<Sum>u<N. wcnt (P u))"
  have "nreaders m = of_int (R - W)"
    using inv by (simp add: rw_inv_def R_def W_def)
  then have "nreaders m' = of_int (R - W) + of_int ((rcnt q - rcnt (P t)) - (wcnt q - wcnt (P t)))"
    using n by simp
  also have "\<dots> = of_int ((R + (rcnt q - rcnt (P t))) - (W + (wcnt q - wcnt (P t))))"
    by (simp only: of_int_add [symmetric]) (simp add: algebra_simps)
  finally show ?thesis
    unfolding rw_inv_def sum_upd [OF t] R_def W_def
    using inv g q o x by (auto simp: rw_inv_def)
qed

text \<open>The reader count as a signed number, as long as there are fewer than \<open>2^31\<close> threads.\<close>

lemma rw_count:
  assumes inv: "rw_inv N m P" and t: "t < N" and N: "int N < 2 ^ 31"
  defines "R \<equiv> \<Sum>u<N. rcnt (P u)" and "W \<equiv> \<Sum>u<N. wcnt (P u)"
  shows "sint (nreaders m) = R - W" and "sint (nreaders m - 1) = R - W - 1"
    and "nreaders m - 1 = of_int (R - W - 1)"
proof -
  obtain G X where n: "nreaders m = of_int (R - W)" and b: "0 \<le> R" "R \<le> int N" "0 \<le> W" "W \<le> 1"
    using cnt_bounds(2) [of "P t"] unfolding R_def W_def by (rule_tac rw_sums [OF inv t]) auto
  show m1: "nreaders m - 1 = of_int (R - W - 1)"
    using n by simp
  show "sint (nreaders m) = R - W"
    unfolding n by (rule sint_of_int_small) (use b N in simp_all)
  show "sint (nreaders m - 1) = R - W - 1"
    unfolding m1 by (rule sint_of_int_small) (use b N in simp_all)
qed

text \<open>Steps of \<open>enter_gate\<close> and \<open>leave_gate\<close> inside any of the member functions.\<close>

lemma gate_enter_inv:
  assumes inv: "rw_inv N m P" and t: "t < N" and P: "P t = at e" and e: "enter_gate txt e = Mem f"
    and at: "\<And>e. own (at e) = 0 \<and> pc_ok (at e) = enter_ok e \<and> rcnt (at e) = 0 \<and> wcnt (at e) = 0 \<and> wrt (at e) = 0"
    and q: "own q = 1" "pc_ok q" "rcnt q = 0" "wcnt q = 0" "wrt q = 0"
  shows "\<exists>g' n. f (gate m) = (g', Ret n) \<and>
    rw_inv N (m\<lparr>gate := g'\<rparr>) (P(t := case n of Goto e' \<Rightarrow> at e' | Done _ \<Rightarrow> q))"
proof -
  have g: "gate_value (gate m)" and ok: "enter_ok e" and X: "0 < (\<Sum>u<N. wrt (P u)) \<longrightarrow> (\<Sum>u<N. rcnt (P u)) = 0"
    using inv t P at by (auto simp: rw_inv_def)
  from e g ok show ?thesis
  proof (rule gt.enter_step)
    fix g' e' assume "f (gate m) = (g', Ret (Goto e'))" "gate_value g'" "enter_ok e'"
      "gt.owners g' = gt.owners (gate m)"
    moreover from this have "rw_inv N (m\<lparr>gate := g'\<rparr>) (P(t := at e'))"
      using X by (intro rw_inv_upd [OF inv t]) (simp_all add: at P)
    ultimately show ?thesis by fastforce
  next
    fix g' assume "f (gate m) = (g', Ret (Done ()))" "gate_value g'" "gt.owners (gate m) = 0"
      "gt.owners g' = 1"
    moreover from this have "rw_inv N (m\<lparr>gate := g'\<rparr>) (P(t := q))"
      using X by (intro rw_inv_upd [OF inv t]) (simp_all add: at P q)
    ultimately show ?thesis by fastforce
  qed
qed

lemma gate_leave_inv:
  assumes inv: "rw_inv N m P" and t: "t < N" and P: "P t = at l" and l: "leave_gate False txt l = Mem f"
    and at: "\<And>l. own (at l) = (if leave_held l then 1 else 0) \<and> pc_ok (at l) \<and> rcnt (at l) = r \<and> wcnt (at l) = 0 \<and> wrt (at l) = 0"
    and q: "own q = 0" "pc_ok q" "rcnt q = r" "wcnt q = 0" "wrt q = 0"
  shows "\<exists>g' n. f (gate m) = (g', Ret n) \<and>
    rw_inv N (m\<lparr>gate := g'\<rparr>) (P(t := case n of Goto l' \<Rightarrow> at l' | Done _ \<Rightarrow> q))"
proof -
  have g: "gate_value (gate m)" and X: "0 < (\<Sum>u<N. wrt (P u)) \<longrightarrow> (\<Sum>u<N. rcnt (P u)) = 0"
    using inv by (auto simp: rw_inv_def)
  have h: "gt.owners (gate m) = 1" if "leave_held l"
    using that at P by (rule_tac rw_sums [OF inv t]) (auto simp: gt.owners_def split: if_splits)
  from l g h show ?thesis
  proof (rule gt.leave_step)
    fix g' l' assume "f (gate m) = (g', Ret (Goto l'))" "gate_value g'" "leave_held l"
      "gt.owners (gate m) = 1" "gt.owners g' = (if leave_held l' then 1 else 0)"
    moreover from this have "rw_inv N (m\<lparr>gate := g'\<rparr>) (P(t := at l'))"
      using X by (intro rw_inv_upd [OF inv t]) (simp_all add: at P)
    ultimately show ?thesis by fastforce
  next
    fix g' assume "f (gate m) = (g', Ret (Done ()))" "gate_value g'" "leave_held l"
      "gt.owners (gate m) = 1" "gt.owners g' = 0"
    moreover from this have "rw_inv N (m\<lparr>gate := g'\<rparr>) (P(t := q))"
      using X by (intro rw_inv_upd [OF inv t]) (simp_all add: at P q)
    ultimately show ?thesis by fastforce
  qed
qed

lemma on_gate_result:
  assumes "on_gate (then_at c k) a = Mem f" and "f m = (m', Ret n)"
  shows "n = k \<or> (\<exists>e. n = Goto (c e))"
proof -
  from assms obtain x where "n = then_at c k x"
    by (auto simp: on_gate_def embed_Mem_iff ctl_rules split: prod.splits)
  then show ?thesis by (cases x) (auto simp: then_at_def)
qed

lemma on_gate_enter:
  assumes inv: "rw_inv N m P" and t: "t < N" and P: "P t = at (c e)"
    and f: "on_gate (then_at c k) (enter_gate txt e) = Mem f"
    and at: "\<And>e. own (at (c e)) = 0 \<and> pc_ok (at (c e)) = enter_ok e \<and> rcnt (at (c e)) = 0 \<and>
        wcnt (at (c e)) = 0 \<and> wrt (at (c e)) = 0"
    and q: "own (after at ret k) = 1" "pc_ok (after at ret k)" "rcnt (after at ret k) = 0"
      "wcnt (after at ret k) = 0" "wrt (after at ret k) = 0"
  shows "\<exists>m' n. f m = (m', Ret n) \<and> rw_inv N m' (P(t := after at ret n))"
proof -
  from f obtain f0 where e: "enter_gate txt e = Mem f0"
    and F: "f = (\<lambda>m. let (s, n) = f0 (gate m) in (m\<lparr>gate := s\<rparr>, bnd n (\<lambda>x. Ret (then_at c k x))))"
    by (auto simp: on_gate_def embed_Mem_iff)
  from gate_enter_inv [OF inv t, where at = "\<lambda>e. at (c e)", OF P e at q]
  obtain g' n where "f0 (gate m) = (g', Ret n)"
    and "rw_inv N (m\<lparr>gate := g'\<rparr>) (P(t := case n of Goto e' \<Rightarrow> at (c e') | Done _ \<Rightarrow> after at ret k))"
    by blast
  then show ?thesis
    by (cases n) (auto simp: F then_at_def)
qed

lemma on_gate_leave:
  assumes inv: "rw_inv N m P" and t: "t < N" and P: "P t = at (c l)"
    and f: "on_gate (then_at c k) (leave_gate False txt l) = Mem f"
    and at: "\<And>l. own (at (c l)) = (if leave_held l then 1 else 0) \<and> pc_ok (at (c l)) \<and>
        rcnt (at (c l)) = r \<and> wcnt (at (c l)) = 0 \<and> wrt (at (c l)) = 0"
    and q: "own (after at ret k) = 0" "pc_ok (after at ret k)" "rcnt (after at ret k) = r"
      "wcnt (after at ret k) = 0" "wrt (after at ret k) = 0"
  shows "\<exists>m' n. f m = (m', Ret n) \<and> rw_inv N m' (P(t := after at ret n))"
proof -
  from f obtain f0 where e: "leave_gate False txt l = Mem f0"
    and F: "f = (\<lambda>m. let (s, n) = f0 (gate m) in (m\<lparr>gate := s\<rparr>, bnd n (\<lambda>x. Ret (then_at c k x))))"
    by (auto simp: on_gate_def embed_Mem_iff)
  from gate_leave_inv [OF inv t, where at = "\<lambda>l. at (c l)", OF P e at q]
  obtain g' n where "f0 (gate m) = (g', Ret n)"
    and "rw_inv N (m\<lparr>gate := g'\<rparr>) (P(t := case n of Goto l' \<Rightarrow> at (c l') | Done _ \<Rightarrow> after at ret k))"
    by blast
  then show ?thesis
    by (cases n) (auto simp: F then_at_def)
qed

text \<open>
  The two places where a writer looks at the count: after it subtracted itself, and after it
  woke up. It goes on to write exactly if no reader is left.
\<close>

lemma writer_sub:
  assumes inv: "rw_inv N m P" and t: "t < N" and N: "int N < 2 ^ 31"
    and P: "own (P t) = 1" "rcnt (P t) = 0" "wcnt (P t) = 0" "wrt (P t) = 0"
    and q: "own q = 1" "rcnt q = 0" "wcnt q = 1" "pc_ok q" "wrt q = (if sint (nreaders m - 1) < 0 then 1 else 0)"
  shows "rw_inv N (m\<lparr>nreaders := nreaders m - 1\<rparr>) (P(t := q))"
proof -
  obtain R W X where RW: "(\<Sum>u<N. rcnt (P u)) = R" "(\<Sum>u<N. wcnt (P u)) = W" "(\<Sum>u<N. wrt (P u)) = X"
    and b: "0 \<le> R" "W \<le> 0" "0 \<le> X" "X \<le> W"
    using P by (rule_tac rw_sums [OF inv t]) auto
  have "sint (nreaders m - 1) = R - W - 1"
    using rw_count(2) [OF inv t N] RW by simp
  then show ?thesis
    using P q b inv RW by (intro rw_inv_upd [OF inv t]) (auto simp: rw_inv_def split: if_splits)
qed

lemma writer_load:
  assumes inv: "rw_inv N m P" and t: "t < N" and N: "int N < 2 ^ 31"
    and P: "own (P t) = 1" "rcnt (P t) = 0" "wcnt (P t) = 1" "wrt (P t) = 0"
    and q: "own q = 1" "rcnt q = 0" "wcnt q = 1" "pc_ok q" "wrt q = (if sint (nreaders m) < 0 then 1 else 0)"
  shows "rw_inv N m (P(t := q))"
proof -
  obtain R W X where RW: "(\<Sum>u<N. rcnt (P u)) = R" "(\<Sum>u<N. wcnt (P u)) = W" "(\<Sum>u<N. wrt (P u)) = X"
    and b: "0 \<le> R" "W \<le> 1" "0 \<le> X" "1 \<le> W - X"
    using P by (rule_tac rw_sums [OF inv t]) auto
  have "sint (nreaders m) = R - W"
    using rw_count(1) [OF inv t N] RW by simp
  then show ?thesis
    using P q b inv RW by (intro rw_inv_upd [OF inv t]) (auto simp: rw_inv_def split: if_splits)
qed

lemma reader_sub:
  assumes inv: "rw_inv N m P" and t: "t < N"
    and P: "rcnt (P t) = 1" and q: "own q = own (P t)" "rcnt q = 0" "wcnt q = wcnt (P t)" "pc_ok q" "wrt q = wrt (P t)"
  shows "rw_inv N (m\<lparr>nreaders := nreaders m - 1\<rparr>) (P(t := q))"
  using P q inv
  by (rule_tac rw_sums [OF inv t], intro rw_inv_upd [OF inv t]) (auto simp: rw_inv_def)

section \<open>The member functions keep the invariant\<close>

lemma read_lock_step:
  assumes inv: "rw_inv N m P" and t: "t < N" and P: "P t = In_read_lock p" and f: "read_lock p = Mem f"
  shows "\<exists>m' n. f m = (m', Ret n) \<and> rw_inv N m' (P(t := after In_read_lock (\<lambda>_. Reading) n))"
proof (cases p)
  case (RL_enter e)
  with P f show ?thesis by (intro on_gate_enter [OF inv t]) auto
next
  case RL_add
  have "rw_inv N (m\<lparr>nreaders := nreaders m + 1\<rparr>) (P(t := In_read_lock (RL_leave LG_sub)))"
    using P RL_add inv
    by (rule_tac rw_sums [OF inv t], intro rw_inv_upd [OF inv t]) (simp_all add: rw_inv_def)
  with f RL_add show ?thesis by (auto simp: atomics)
next
  case (RL_leave l)
  with P f show ?thesis by (intro on_gate_leave [OF inv t, where r = 1]) auto
qed

lemma read_unlock_step:
  assumes inv: "rw_inv N m P" and t: "t < N" and N: "int N < 2 ^ 31"
    and P: "P t = In_read_unlock p" and f: "read_unlock p = Mem f"
  shows "\<exists>m' n. f m = (m', Ret n) \<and> rw_inv N m' (P(t := after In_read_unlock (\<lambda>_. Idle) n))"
proof (cases p)
  case RU_sub
  obtain R W where RW: "(\<Sum>u<N. rcnt (P u)) = R" "(\<Sum>u<N. wcnt (P u)) = W" and b: "1 \<le> R" "W \<le> 1"
    using P RU_sub by (rule_tac rw_sums [OF inv t]) auto
  note c = rw_count [OF inv t N, unfolded RW]
  have keep: "rw_inv N (m\<lparr>nreaders := nreaders m - 1\<rparr>) (P(t := q))"
    if "q = Idle \<or> q = In_read_unlock RU_wake" for q
    using that P RU_sub by (intro reader_sub [OF inv t]) auto
  have "nreaders m - 1 = -1" if "sint (nreaders m - 1) < 0"
  proof -
    from that b c(2) have "R - W - 1 = -1" by linarith
    then show ?thesis using c(3) by (metis of_int_minus of_int_1)
  qed
  then show ?thesis
    using f RU_sub keep by (cases "sint (nreaders m - 1) < 0") (auto simp: atomics Let_def)
next
  case RU_wake
  with f show ?thesis by simp
qed

lemma write_lock_step:
  assumes inv: "rw_inv N m P" and t: "t < N" and N: "int N < 2 ^ 31"
    and P: "P t = In_write_lock p" and f: "write_lock p = Mem f"
  shows "\<exists>m' n. f m = (m', Ret n) \<and> rw_inv N m' (P(t := after In_write_lock (\<lambda>_. Writing) n))"
proof (cases p)
  case (WL_enter e)
  with P f show ?thesis by (intro on_gate_enter [OF inv t]) auto
next
  case WL_sub
  with P f show ?thesis by (auto simp: atomics Let_def intro!: writer_sub [OF inv t N])
next
  case (WL_wait v)
  with f show ?thesis by simp
next
  case WL_load
  with P f show ?thesis by (auto simp: Let_def intro!: writer_load [OF inv t N])
qed

lemma write_unlock_step:
  assumes inv: "rw_inv N m P" and t: "t < N" and P: "P t = In_write_unlock p" and f: "write_unlock p = Mem f"
  shows "\<exists>m' n. f m = (m', Ret n) \<and> rw_inv N m' (P(t := after In_write_unlock (\<lambda>_. Idle) n))"
proof (cases p)
  case WU_store
  obtain R W X where RW: "(\<Sum>u<N. rcnt (P u)) = R" "(\<Sum>u<N. wcnt (P u)) = W" "(\<Sum>u<N. wrt (P u)) = X"
    and b: "R = 0" "W = 1" "X = 1"
    using P WU_store by (rule_tac rw_sums [OF inv t]) auto
  then have "rw_inv N (m\<lparr>nreaders := 0\<rparr>) (P(t := In_write_unlock (WU_leave LG_sub)))"
    using P WU_store inv by (intro rw_inv_upd [OF inv t]) (auto simp: rw_inv_def)
  with f WU_store show ?thesis by auto
next
  case (WU_leave l)
  with P f show ?thesis by (intro on_gate_leave [OF inv t, where r = 0]) auto
qed

lemma try_write_modify_step:
  assumes inv: "rw_inv N m P" and t: "t < N" and N: "int N < 2 ^ 31"
    and P: "P t = In_try_write_modify p" and f: "try_write_modify p = Mem f"
  shows "\<exists>m' n. f m = (m', Ret n) \<and>
    rw_inv N m' (P(t := after In_try_write_modify (\<lambda>ok. if ok then Writing else Reading) n))"
proof (cases p)
  case TM_try
  have "rw_inv N m (P(t := Reading))"
    using P TM_try inv by (intro rw_inv_upd [OF inv t]) (auto simp: rw_inv_def)
  moreover have "rw_inv N (m\<lparr>gate := 1\<rparr>) (P(t := In_try_write_modify TM_sub1))" if "gate m = 0"
    using P TM_try inv that
    by (intro rw_inv_upd [OF inv t]) (auto simp: rw_inv_def gt.owners_def gate_value_def)
  ultimately show ?thesis
    using f TM_try by (cases "gate m = 0") (auto simp: try_enter_gate_def atomics)
next
  case TM_sub1
  with P f show ?thesis by (auto simp: atomics intro!: reader_sub [OF inv t])
next
  case TM_sub2
  with P f show ?thesis by (auto simp: atomics Let_def intro!: writer_sub [OF inv t N])
next
  case (TM_wait v)
  with f show ?thesis by simp
next
  case TM_load
  with P f show ?thesis by (auto simp: Let_def intro!: writer_load [OF inv t N])
qed

lemma write_modify_step:
  assumes inv: "rw_inv N m P" and t: "t < N" and N: "int N < 2 ^ 31"
    and P: "P t = In_write_modify p" and f: "write_modify p = Mem f"
  shows "\<exists>m' n. f m = (m', Ret n) \<and> rw_inv N m' (P(t := after In_write_modify (\<lambda>_. Writing) n))"
proof (cases p)
  case WM_sub
  with P f show ?thesis by (auto simp: atomics Let_def intro!: reader_sub [OF inv t])
next
  case WM_wake
  with f show ?thesis by simp
next
  case (WM_enter e)
  with P f show ?thesis by (intro on_gate_enter [OF inv t]) auto
next
  case WM_sub2
  with P f show ?thesis by (auto simp: atomics Let_def intro!: writer_sub [OF inv t N])
next
  case (WM_wait v)
  with f show ?thesis by simp
next
  case WM_load
  with P f show ?thesis by (auto simp: Let_def intro!: writer_load [OF inv t N])
qed

section \<open>All steps of all threads\<close>

lemma rw_inv_same:
  assumes inv: "rw_inv N m P" and t: "t < N"
    and "own q = own (P t)" "rcnt q = rcnt (P t)" "wcnt q = wcnt (P t)" "wrt q = wrt (P t)" "pc_ok q"
  shows "rw_inv N m (P(t := q))"
  using assms by (intro rw_inv_upd [OF inv t]) (auto simp: rw_inv_def)

lemma calls_step:
  assumes F: "calls at ret a = Mem F"
    and a: "\<And>f. a = Mem f \<Longrightarrow> \<exists>m' n. f m = (m', Ret n) \<and> Q m' (after at ret n)"
  shows "\<exists>m' p. F m = (m', Ret p) \<and> Q m' p"
proof -
  from F obtain f where f: "a = Mem f"
    and F': "F = (\<lambda>m. let (s, n) = f m in (s, bnd n (\<lambda>x. Ret (after at ret x))))"
    by (auto simp: calls_iffs)
  from a [OF f] obtain m' n where "f m = (m', Ret n)" "Q m' (after at ret n)" by blast
  then show ?thesis by (simp add: F')
qed

lemma rw_mem_step:
  assumes inv: "rw_inv N m P" and N: "int N < 2 ^ 31" and t: "t < N" and F: "rw_act (P t) = Mem F"
  shows "\<exists>m' p. F m = (m', Ret p) \<and> rw_inv N m' (P(t := p))"
proof (cases "P t")
  case (In_read_lock p) with F show ?thesis
    by (auto intro!: calls_step [where Q = "\<lambda>m' p. rw_inv N m' (P(t := p))"] read_lock_step inv t)
next
  case (In_read_unlock p) with F show ?thesis
    by (auto intro!: calls_step [where Q = "\<lambda>m' p. rw_inv N m' (P(t := p))"] read_unlock_step inv t N)
next
  case (In_write_lock p) with F show ?thesis
    by (auto intro!: calls_step [where Q = "\<lambda>m' p. rw_inv N m' (P(t := p))"] write_lock_step inv t N)
next
  case (In_write_unlock p) with F show ?thesis
    by (auto intro!: calls_step [where Q = "\<lambda>m' p. rw_inv N m' (P(t := p))"] write_unlock_step inv t)
next
  case (In_try_write_modify p) with F show ?thesis
    by (auto intro!: calls_step [where Q = "\<lambda>m' p. rw_inv N m' (P(t := p))"] try_write_modify_step inv t N)
next
  case (In_write_modify p) with F show ?thesis
    by (auto intro!: calls_step [where Q = "\<lambda>m' p. rw_inv N m' (P(t := p))"] write_modify_step inv t N)
qed (use F in auto)

text \<open>The points where a thread waits, what it waits for, and where it goes on.\<close>

fun waiting :: "rw_pc \<Rightarrow> (rw_cell \<times> i32 \<times> rw_pc) option" where
  "waiting (In_read_lock (RL_enter EG_wait)) = Some (Gate_word, 2, In_read_lock (RL_enter EG_again))"
| "waiting (In_write_lock (WL_enter EG_wait)) = Some (Gate_word, 2, In_write_lock (WL_enter EG_again))"
| "waiting (In_write_modify (WM_enter EG_wait)) = Some (Gate_word, 2, In_write_modify (WM_enter EG_again))"
| "waiting (In_write_lock (WL_wait v)) = Some (Nreaders_word, v, In_write_lock WL_load)"
| "waiting (In_try_write_modify (TM_wait v)) = Some (Nreaders_word, v, In_try_write_modify TM_load)"
| "waiting (In_write_modify (WM_wait v)) = Some (Nreaders_word, v, In_write_modify WM_load)"
| "waiting _ = None"

fun waking :: "rw_pc \<Rightarrow> (rw_cell \<times> rw_pc) option" where
  "waking (In_read_lock (RL_leave LG_wake)) = Some (Gate_word, Reading)"
| "waking (In_write_unlock (WU_leave LG_wake)) = Some (Gate_word, Idle)"
| "waking (In_read_unlock RU_wake) = Some (Nreaders_word, Idle)"
| "waking (In_write_modify WM_wake) = Some (Nreaders_word, In_write_modify (WM_enter EG_first))"
| "waking _ = None"

lemma enter_wait_iff: "enter_gate txt e = Wait c v k \<longleftrightarrow> e = EG_wait \<and> v = 2 \<and>
    k = (\<lambda>rv er. bnd (futex_wait_ret futex_critical_error txt rv er) (\<lambda>_. Ret (Goto EG_again)))"
  by (cases e) auto

lemma leave_wake_iff: "leave_gate b txt l = Wake c n k \<longleftrightarrow> l = LG_wake \<and> n = 1 \<and>
    k = (\<lambda>rv. bnd (futex_wake_ret futex_critical_error txt rv) (\<lambda>_. Ret (Done ())))"
  by (cases l) auto

lemmas gate_call_iffs = calls_iffs on_gate_def embed_iffs enter_wait_iff leave_wake_iff
  gt.enter_other gt.leave_other then_at_def

lemma rw_act_Client:
  assumes "rw_act p = Client ps"
  shows "p = Idle \<or> p = Reading \<or> p = Writing"
proof (cases p)
  case (In_read_lock q) with assms show ?thesis by (cases q) (auto simp: gate_call_iffs)
next
  case (In_read_unlock q) with assms show ?thesis by (cases q) (auto simp: calls_iffs)
next
  case (In_write_lock q) with assms show ?thesis by (cases q) (auto simp: gate_call_iffs)
next
  case (In_write_unlock q) with assms show ?thesis by (cases q) (auto simp: gate_call_iffs)
next
  case (In_try_write_modify q) with assms show ?thesis by (cases q) (auto simp: calls_iffs)
next
  case (In_write_modify q) with assms show ?thesis by (cases q) (auto simp: gate_call_iffs)
qed auto

lemma rw_call_step:
  assumes "rw_inv N m P" and "t < N" and "rw_act (P t) = Client ps" and "p \<in> set ps"
  shows "rw_inv N m (P(t := p))"
  using assms rw_act_Client [OF assms(3)] by (intro rw_inv_same) auto

lemma rw_act_Wait:
  assumes "rw_act p = Wait c v k"
  obtains q where "waiting p = Some (c, v, q)"
    and "\<And>rv e p'. k rv e = Ret p' \<longleftrightarrow> p' = q \<and> (rv = 0 \<or> e = EINTR \<or> e = EAGAIN)"
    and "\<And>rv e x. k rv e = Stop x \<Longrightarrow> \<exists>msg. x = Critical_error msg"
proof -
  have "\<exists>q msg. waiting p = Some (c, v, q) \<and>
      k = (\<lambda>rv e. bnd (futex_wait_ret futex_critical_error msg rv e) (\<lambda>_. Ret q))"
  proof (cases p)
    case (In_read_lock r) with assms show ?thesis
      by (cases r) (auto simp: gate_call_iffs bnd_assoc)
  next
    case (In_read_unlock r) with assms show ?thesis by (cases r) (auto simp: calls_iffs)
  next
    case (In_write_lock r) with assms show ?thesis
      by (cases r) (auto simp: gate_call_iffs bnd_assoc)
  next
    case (In_write_unlock r) with assms show ?thesis by (cases r) (auto simp: gate_call_iffs)
  next
    case (In_try_write_modify r) with assms show ?thesis
      by (cases r) (auto simp: calls_iffs bnd_assoc)
  next
    case (In_write_modify r) with assms show ?thesis
      by (cases r) (auto simp: gate_call_iffs bnd_assoc)
  qed (use assms in auto)
  then obtain q msg where w: "waiting p = Some (c, v, q)"
    and k: "k = (\<lambda>rv e. bnd (futex_wait_ret futex_critical_error msg rv e) (\<lambda>_. Ret q))"
    by blast
  have "k rv e = Ret p' \<longleftrightarrow> p' = q \<and> (rv = 0 \<or> e = EINTR \<or> e = EAGAIN)" for rv e p'
    by (auto simp: k ctl_rules dest: futex_wait_ret_Ret)
  moreover have "\<exists>msg. x = Critical_error msg" if "k rv e = Stop x" for rv e x
    using that by (auto simp: k ctl_rules dest: futex_wait_ret_Stop)
  ultimately show ?thesis by (rule that [OF w])
qed

lemma rw_act_Wake:
  assumes "rw_act p = Wake c n k"
  obtains q where "waking p = Some (c, q)" and "n = 1"
    and "\<And>rv p'. k rv = Ret p' \<longleftrightarrow> p' = q \<and> 0 \<le> rv"
    and "\<And>rv x. k rv = Stop x \<Longrightarrow> \<exists>msg. x = Critical_error msg"
proof -
  have "\<exists>q msg. waking p = Some (c, q) \<and> n = 1 \<and>
      k = (\<lambda>rv. bnd (futex_wake_ret futex_critical_error msg rv) (\<lambda>_. Ret q))"
  proof (cases p)
    case (In_read_lock r) with assms show ?thesis
      by (cases r) (auto simp: gate_call_iffs bnd_assoc)
  next
    case (In_read_unlock r) with assms show ?thesis by (cases r) (auto simp: calls_iffs bnd_assoc)
  next
    case (In_write_lock r) with assms show ?thesis by (cases r) (auto simp: gate_call_iffs)
  next
    case (In_write_unlock r) with assms show ?thesis
      by (cases r) (auto simp: gate_call_iffs bnd_assoc)
  next
    case (In_try_write_modify r) with assms show ?thesis by (cases r) (auto simp: calls_iffs)
  next
    case (In_write_modify r) with assms show ?thesis
      by (cases r) (auto simp: gate_call_iffs bnd_assoc)
  qed (use assms in auto)
  then obtain q msg where w: "waking p = Some (c, q)" "n = 1"
    and k: "k = (\<lambda>rv. bnd (futex_wake_ret futex_critical_error msg rv) (\<lambda>_. Ret q))"
    by blast
  have "k rv = Ret p' \<longleftrightarrow> p' = q \<and> 0 \<le> rv" for rv p'
    by (auto simp: k ctl_rules futex_wake_ret_def)
  moreover have "\<exists>msg. x = Critical_error msg" if "k rv = Stop x" for rv x
    using that by (auto simp: k ctl_rules dest: futex_wake_ret_Stop)
  ultimately show ?thesis by (rule that [OF w])
qed

lemma waiting_same:
  assumes "waiting p = Some (c, v, q)"
  shows "own q = own p" "rcnt q = rcnt p" "wcnt q = wcnt p" "wrt q = wrt p" "pc_ok q"
  using assms by (cases p rule: waiting.cases; force)+

lemma waking_same:
  assumes "waking p = Some (c, q)"
  shows "own q = own p" "rcnt q = rcnt p" "wcnt q = wcnt p" "wrt q = wrt p" "pc_ok q"
  using assms by (cases p rule: waking.cases; force)+

interpretation rw: safety_invariant kw N rw_act rw_word "\<lambda>m P. int N < 2 ^ 31 \<and> rw_inv N m P"
  for kw N
proof
  show "\<exists>m' p. f m = (m', Ret p) \<and> int N < 2 ^ 31 \<and> rw_inv N m' (P(t := p))"
    if "int N < 2 ^ 31 \<and> rw_inv N m P" "t < N" "rw_act (P t) = Mem f" for m P t f
    using that rw_mem_step by blast
  show "int N < 2 ^ 31 \<and> rw_inv N m (P(t := p))"
    if "int N < 2 ^ 31 \<and> rw_inv N m P" "t < N" "rw_act (P t) = Client ps" "p \<in> set ps" for m P t ps p
    using that rw_call_step by blast
  show "int N < 2 ^ 31 \<and> rw_inv N m (P(t := p))"
    if "int N < 2 ^ 31 \<and> rw_inv N m P" "t < N" and a: "rw_act (P t) = Wait c v k" "k rv e = Ret p"
    for m P t c v k rv e p
    using that by (auto elim!: rw_act_Wait intro!: rw_inv_same waiting_same)
  show "int N < 2 ^ 31 \<and> rw_inv N m (P(t := p))"
    if "int N < 2 ^ 31 \<and> rw_inv N m P" "t < N" and a: "rw_act (P t) = Wake c n k'" "k' rv = Ret p"
    for m P t c n k' rv p
    using that by (auto elim!: rw_act_Wake intro!: rw_inv_same waking_same)
  show "\<exists>msg. x = Critical_error msg" if "rw_act q = Wait c v k" "k rv e = Stop x" for q c v k rv e x
    using that by (auto elim: rw_act_Wait)
  show "\<exists>msg. x = Critical_error msg" if "rw_act q = Wake c n k'" "k' rv = Stop x" for q c n k' rv x
    using that by (auto elim: rw_act_Wake)
qed

section \<open>What the lock guarantees\<close>

lemma rw_inv_init: "rw_inv N futex_rw_control_init (\<lambda>_. Idle)"
  by (simp add: rw_inv_def futex_rw_control_init_def gate_value_def gt.owners_def)

lemma rw_reach_safe:
  assumes "reach rw_start (rw_step kw N) s" and "int N < 2 ^ 31"
  shows "rw_inv N (mem s) (pcs s)" and "halt_ok s"
proof -
  have "rw.safe N rw_start"
    unfolding rw.safe_def using assms(2) rw_inv_init [of N] by (simp add: halt_ok_def start_def)
  with assms(1) have "rw.safe N s"
    by (rule rw.machine_reach_inv)
  then show "rw_inv N (mem s) (pcs s)" and "halt_ok s"
    unfolding rw.safe_def by simp_all
qed

lemmas rw_eval = start_def futex_rw_control_init_def calls_def on_gate_def then_at_def
  try_enter_gate_def atomics goto_def rouse_def sleepers_def waits_on_def fifo_wake_def upt_rec

lemma rw_writer_alone:
  assumes "rw_inv N m P" and "t < N" and "u < N" and "t \<noteq> u" and "P t = Writing"
  shows "P u \<noteq> Writing \<and> P u \<noteq> Reading \<and> rcnt (P u) = 0"
proof -
  have two: "own (P t) + own (P u) \<le> (\<Sum>v<N. own (P v))"
    using assms by (intro sum_two_members cnt_bounds)
  have ru: "rcnt (P u) \<le> 0"
    using assms cnt_bounds(2) [of "P u"] sum_zero_one_member [OF cnt_bounds(4), of t N P]
    by (rule_tac rw_sums [OF assms(1) \<open>u < N\<close>]) auto
  have own: "own (P u) \<le> 0"
    using two assms(5) by (rule_tac rw_sums [OF assms(1) \<open>u < N\<close>]) auto
  have "rcnt (P u) = 0" and "own (P u) = 0"
    using ru own cnt_bounds [of "P u"] by auto
  then show ?thesis by auto
qed

text \<open>
  C1: Mutual exclusion. In every state that any interleaving of any number of threads below
  \<open>2^31\<close> can reach, whatever the kernel does, while one thread holds the write lock no other
  thread holds a read lock or the write lock, and none is counted as a reader.
\<close>

theorem rw_mutual_exclusion:
  assumes "reach rw_start (rw_step kw N) s" and "int N < 2 ^ 31"
    and "t < N" and "u < N" and "t \<noteq> u" and "pcs s t = Writing"
  shows "pcs s u \<noteq> Writing \<and> pcs s u \<noteq> Reading \<and> rcnt (pcs s u) = 0"
  using rw_writer_alone [OF rw_reach_safe(1) [OF assms(1,2)] assms(3-6)] .

definition rw_contended :: "event list" where
  "rw_contended = [Call 0 1, Run 0, Run 0, Call 1 0, Run 1, Run 1, Run 1]"

theorem rw_mutual_exclusion_witness:
  "\<exists>s. run fifo_wake 2 rw_act rw_word rw_start rw_contended = Some s \<and>
     pcs s 0 = Writing \<and> stat s 1 = Sleeping \<and> rcnt (pcs s 1) = 0"
proof -
  obtain s where r: "run fifo_wake 2 rw_act rw_word rw_start rw_contended = Some s"
    and s: "pcs s 0 = Writing" "stat s 1 = Sleeping"
    by (simp add: rw_contended_def rw_eval)
  have "rcnt (pcs s 1) = 0"
    using rw_mutual_exclusion [OF run_reachable [OF r], of 0 1] s by simp
  with r s show ?thesis by blast
qed

text \<open>
  C22: What the two words mean. In every reachable state the gate holds 0, 1 or 2, it is 0 exactly
  when no thread owns it, and the reader count, read as a signed number, is the number of readers
  minus the number of writers that have subtracted themselves (of which there is at most one).
\<close>

theorem rw_words:
  assumes "reach rw_start (rw_step kw N) s" and "int N < 2 ^ 31"
  shows "gate (mem s) \<in> {0, 1, 2} \<and>
    (gate (mem s) = 0 \<longleftrightarrow> (\<Sum>u<N. own (pcs s u)) = 0) \<and>
    sint (nreaders (mem s)) = (\<Sum>u<N. rcnt (pcs s u)) - (\<Sum>u<N. wcnt (pcs s u)) \<and>
    (\<Sum>u<N. wcnt (pcs s u)) \<le> 1"
proof -
  note inv = rw_reach_safe(1) [OF assms]
  have g: "gate (mem s) \<in> {0, 1, 2}" "gate (mem s) = 0 \<longleftrightarrow> (\<Sum>u<N. own (pcs s u)) = 0"
    using inv by (auto simp: rw_inv_def gate_value_def gt.owners_def)
  show ?thesis
  proof (cases "N = 0")
    case True
    with inv g show ?thesis by (simp add: rw_inv_def)
  next
    case False
    then have "0 < N" by simp
    then show ?thesis
      using g rw_count(1) [OF inv _ assms(2), of 0] by (rule_tac rw_sums [OF inv \<open>0 < N\<close>]) auto
  qed
qed

definition rw_two_readers :: "event list" where
  "rw_two_readers = [Call 0 0, Run 0, Run 0, Run 0, Call 1 0, Run 1, Run 1, Run 1]"

theorem rw_words_witness:
  "\<exists>s. run fifo_wake 2 rw_act rw_word rw_start rw_two_readers = Some s \<and>
     pcs s 0 = Reading \<and> pcs s 1 = Reading \<and> sint (nreaders (mem s)) = 2 \<and> gate (mem s) = 0"
proof -
  obtain s where r: "run fifo_wake 2 rw_act rw_word rw_start rw_two_readers = Some s"
    and s: "pcs s 0 = Reading" "pcs s 1 = Reading"
    by (simp add: rw_two_readers_def rw_eval)
  have "{..<2::nat} = {0, 1}" by auto
  with rw_words [OF run_reachable [OF r]] s have "sint (nreaders (mem s)) = 2" "gate (mem s) = 0"
    by simp_all
  with r s show ?thesis by blast
qed

text \<open>
  C23: No assertion fails and no call leaves by an exception. In particular the
  \<^verbatim>\<open>assert(result == -1)\<close> of \<open>read_unlock\<close> holds in every interleaving: the only way
  the process can stop is a futex error that the wrappers treat as critical.
\<close>

theorem rw_no_assertion_failure:
  assumes "reach rw_start (rw_step kw N) s" and "int N < 2 ^ 31"
  shows "halted s = None \<or> (\<exists>msg. halted s = Some (Critical_error msg))"
  using rw_reach_safe(2) [OF assms] by (auto simp: halt_ok_def split: option.splits fault.splits)

definition rw_last_reader :: "event list" where
  "rw_last_reader = [Call 0 0, Run 0, Run 0, Run 0, Call 1 1, Run 1, Run 1, Run 1, Call 0 0, Run 0]"

theorem rw_no_assertion_failure_witness:
  "\<exists>s. run fifo_wake 2 rw_act rw_word rw_start rw_last_reader = Some s \<and>
     nreaders (mem s) = -1 \<and> pcs s 0 = In_read_unlock RU_wake \<and> halted s = None"
proof -
  obtain s where r: "run fifo_wake 2 rw_act rw_word rw_start rw_last_reader = Some s"
    and s: "nreaders (mem s) = -1" "pcs s 0 = In_read_unlock RU_wake" "halted s = None"
    by (simp add: rw_last_reader_def rw_eval)
  with rw_no_assertion_failure [OF run_reachable [OF r]] show ?thesis by auto
qed

text \<open>
  The destructor. Once every thread has released its lock, the destructor of
  \<^verbatim>\<open>futex_rw_control\<close> finds the count 0 and the gate free and does not abort.
\<close>

theorem rw_destructor_ok:
  assumes "reach rw_start (rw_step kw N) s" and "int N < 2 ^ 31" and "\<forall>u<N. pcs s u = Idle"
  shows "futex_rw_control_dtor (mem s) = Ret (mem s\<lparr>gate := 1\<rparr>)"
proof -
  note inv = rw_reach_safe(1) [OF assms(1,2)]
  have z: "(\<Sum>u<N. own (pcs s u)) = 0" "(\<Sum>u<N. rcnt (pcs s u)) = 0" "(\<Sum>u<N. wcnt (pcs s u)) = 0"
    using assms(3) by auto
  have "nreaders (mem s) = 0" and "gate (mem s) = 0"
    using inv z by (auto simp: rw_inv_def gt.owners_def split: if_splits)
  then show ?thesis
    by (simp add: futex_rw_control_dtor_def try_enter_gate_def atomics)
qed

definition rw_lock_unlock :: "event list" where
  "rw_lock_unlock = [Call 0 1, Run 0, Run 0, Call 1 0, Run 1, Run 1, Run 1,
     Call 0 0, Run 0, Run 0, Run 0, WakeUp 0 [1], Run 1, Run 1, Run 1, Run 1, Run 1, WakeUp 1 [],
     Call 1 0, Run 1]"

theorem rw_destructor_ok_witness:
  "\<exists>s. run fifo_wake 2 rw_act rw_word rw_start rw_lock_unlock = Some s \<and>
     futex_rw_control_dtor (mem s) = Ret (mem s\<lparr>gate := 1\<rparr>)"
proof -
  obtain s where r: "run fifo_wake 2 rw_act rw_word rw_start rw_lock_unlock = Some s"
    and s: "pcs s 0 = Idle" "pcs s 1 = Idle"
    by (simp add: rw_lock_unlock_def rw_eval)
  then have "\<forall>u<2. pcs s u = Idle" by (auto simp: less_2_cases_iff)
  with rw_destructor_ok [OF run_reachable [OF r]] r show ?thesis by simp
qed

end
