(* ===== verification/RW_Progress.thy ===== *)
theory RW_Progress
  imports RW_Control
begin

text \<open>
  No lost wake-ups in \<^verbatim>\<open>futex_rw_control\<close>. A thread that sleeps on the gate or on the
  reader count sleeps only while somebody else still has to act: the invariant \<open>rw_live\<close> says
  who. From it follows that the lock never deadlocks on its own: if any thread is inside a call,
  then some thread can take a step or some caller holds a lock and has yet to release it. These
  facts, unlike the ones of theory \<open>RW_Control\<close>, need the kernel to wake a sleeper when
  there is one (\<open>documented_wake\<close>).
\<close>

section \<open>Who still has to act\<close>

fun slow :: "rw_pc \<Rightarrow> bool" where
  "slow (In_read_lock (RL_enter e)) = (e \<noteq> EG_first)"
| "slow (In_write_lock (WL_enter e)) = (e \<noteq> EG_first)"
| "slow (In_write_modify (WM_enter e)) = (e \<noteq> EG_first)"
| "slow _ = False"

fun leaving :: "rw_pc \<Rightarrow> bool" where
  "leaving (In_read_lock (RL_leave l)) = (l \<noteq> LG_sub)"
| "leaving (In_write_unlock (WU_leave l)) = (l \<noteq> LG_sub)"
| "leaving _ = False"

definition asleep :: "rw_cell \<Rightarrow> (futex_rw_control, rw_pc) conf \<Rightarrow> tid \<Rightarrow> bool" where
  "asleep c s u \<longleftrightarrow> stat s u = Sleeping \<and> (\<exists>v q. waiting (pcs s u) = Some (c, v, q))"

definition gate_pending :: "nat \<Rightarrow> (futex_rw_control, rw_pc) conf \<Rightarrow> bool" where
  "gate_pending N s \<longleftrightarrow> gate (mem s) = 2 \<or>
     (\<exists>u<N. leaving (pcs s u) \<or> slow (pcs s u) \<and> stat s u \<noteq> Sleeping)"

definition readers_pending :: "nat \<Rightarrow> (futex_rw_control, rw_pc) conf \<Rightarrow> bool" where
  "readers_pending N s \<longleftrightarrow> 0 \<le> sint (nreaders (mem s)) \<or>
     (\<exists>u<N. \<exists>q. waking (pcs s u) = Some (Nreaders_word, q))"

definition rw_awake :: "nat \<Rightarrow> (futex_rw_control, rw_pc) conf \<Rightarrow> bool" where
  "rw_awake N s \<longleftrightarrow>
     (\<forall>u<N. asleep Gate_word s u \<longrightarrow> gate_pending N s) \<and>
     (\<forall>u<N. asleep Nreaders_word s u \<longrightarrow> readers_pending N s) \<and>
     (\<forall>u<N. \<forall>v q. waiting (pcs s u) = Some (Nreaders_word, v, q) \<longrightarrow> 0 \<le> sint v)"

definition rw_live :: "kernel_wake \<Rightarrow> nat \<Rightarrow> (futex_rw_control, rw_pc) conf \<Rightarrow> bool" where
  "rw_live kw N s \<longleftrightarrow> documented_wake kw \<and> rw.safe N s \<and> (halted s = None \<longrightarrow> rw_awake N s)"

section \<open>How single steps affect it\<close>

lemma enter_progress:
  assumes "enter_gate msg e = Mem f" and "f g = (g', Ret n)"
  shows "g = 2 \<Longrightarrow> g' = 2"
    and "e \<noteq> EG_first \<Longrightarrow> (case n of Goto e' \<Rightarrow> e' \<noteq> EG_first | Done _ \<Rightarrow> g' = 2)"
  using assms by (cases e; auto simp: atomics split: if_splits)+

lemma leave_progress:
  assumes "leave_gate False msg l = Mem f" and "f g = (g', Ret n)" and "g = 2 \<or> l \<noteq> LG_sub"
  shows "\<exists>l'. n = Goto l' \<and> l' \<noteq> LG_sub"
  using assms by (cases l) (auto simp: atomics split: if_splits)

lemma on_gate_enter_progress:
  assumes "on_gate (then_at c k) (enter_gate msg e) = Mem f" and "f m = (m', Ret n)"
    and "gate m = 2 \<or> e \<noteq> EG_first"
  shows "gate m' = 2 \<or> (\<exists>e'. n = Goto (c e') \<and> e' \<noteq> EG_first)"
proof -
  from assms(1,2) obtain f0 g' n0 where "enter_gate msg e = Mem f0" "f0 (gate m) = (g', Ret n0)"
    "m' = m\<lparr>gate := g'\<rparr>" "n = then_at c k n0"
    by (auto simp: on_gate_def embed_Mem_iff ctl_rules split: prod.splits)
  with enter_progress [of msg e f0 "gate m" g' n0] assms(3) show ?thesis
    by (cases n0) (auto simp: then_at_def)
qed

lemma on_gate_leave_progress:
  assumes "on_gate (then_at c k) (leave_gate False msg l) = Mem f" and "f m = (m', Ret n)"
    and "gate m = 2 \<or> l \<noteq> LG_sub"
  shows "\<exists>l'. n = Goto (c l') \<and> l' \<noteq> LG_sub"
proof -
  from assms(1,2) obtain f0 g' n0 where "leave_gate False msg l = Mem f0" "f0 (gate m) = (g', Ret n0)"
    "n = then_at c k n0"
    by (auto simp: on_gate_def embed_Mem_iff ctl_rules split: prod.splits)
  with leave_progress [of msg l f0 "gate m" g' n0] assms(3) show ?thesis
    by (auto simp: then_at_def)
qed

text \<open>One step of a thread keeps the gate's wake-up pending, or passes it on.\<close>

lemma rw_step_gate_pending:
  assumes F: "rw_act p = Mem F" and m: "F m = (m', Ret p')"
    and pend: "gate m = 2 \<or> slow p \<or> leaving p"
  shows "gate m' = 2 \<or> slow p' \<or> leaving p'"
proof (cases p)
  case (In_read_lock q)
  with F m obtain f n where *: "read_lock q = Mem f" "f m = (m', Ret n)" "p' = after In_read_lock (\<lambda>_. Reading) n"
    by (auto elim: calls_Mem_Ret)
  with pend In_read_lock show ?thesis
    by (cases q) (auto simp: atomics dest!: on_gate_enter_progress on_gate_leave_progress)
next
  case (In_read_unlock q)
  with F m obtain f n where *: "read_unlock q = Mem f" "f m = (m', Ret n)" by (auto elim: calls_Mem_Ret)
  with pend In_read_unlock show ?thesis
    by (cases q) (auto simp: atomics Let_def)
next
  case (In_write_lock q)
  with F m obtain f n where *: "write_lock q = Mem f" "f m = (m', Ret n)" "p' = after In_write_lock (\<lambda>_. Writing) n"
    by (auto elim: calls_Mem_Ret)
  with pend In_write_lock show ?thesis
    by (cases q) (auto simp: atomics Let_def dest!: on_gate_enter_progress)
next
  case (In_write_unlock q)
  with F m obtain f n where *: "write_unlock q = Mem f" "f m = (m', Ret n)" "p' = after In_write_unlock (\<lambda>_. Idle) n"
    by (auto elim: calls_Mem_Ret)
  with pend In_write_unlock show ?thesis
    by (cases q) (auto dest!: on_gate_leave_progress)
next
  case (In_try_write_modify q)
  with F m obtain f n where *: "try_write_modify q = Mem f" "f m = (m', Ret n)" by (auto elim: calls_Mem_Ret)
  with pend In_try_write_modify show ?thesis
    by (cases q) (auto simp: atomics Let_def try_enter_gate_def)
next
  case (In_write_modify q)
  with F m obtain f n where *: "write_modify q = Mem f" "f m = (m', Ret n)" "p' = after In_write_modify (\<lambda>_. Writing) n"
    by (auto elim: calls_Mem_Ret)
  with pend In_write_modify show ?thesis
    by (cases q) (auto simp: atomics Let_def dest!: on_gate_enter_progress)
qed (use F in auto)

text \<open>A step of a thread that does not own the gate lowers the count below 0 only to wake the writer.\<close>

lemma on_gate_nreaders:
  assumes "on_gate j a = Mem f" and "f m = (m', n)"
  shows "nreaders m' = nreaders m"
  using assms by (auto simp: on_gate_def embed_Mem_iff split: prod.splits)

lemma rw_step_readers_pending:
  assumes F: "rw_act p = Mem F" and m: "F m = (m', Ret p')" and own: "own p = 0"
  shows "nreaders m' = nreaders m \<or> 0 \<le> sint (nreaders m') \<or> (\<exists>q. waking p' = Some (Nreaders_word, q))"
proof (cases p)
  case (In_read_lock q)
  with F m obtain f n where "read_lock q = Mem f" "f m = (m', Ret n)" by (auto elim: calls_Mem_Ret)
  with own In_read_lock show ?thesis by (cases q) (auto dest: on_gate_nreaders)
next
  case (In_read_unlock q)
  with F m obtain f n where "read_unlock q = Mem f" "f m = (m', Ret n)" "p' = after In_read_unlock (\<lambda>_. Idle) n"
    by (auto elim: calls_Mem_Ret)
  with In_read_unlock show ?thesis
    by (cases q) (auto simp: atomics Let_def ctl_rules split: if_splits)
next
  case (In_write_lock q)
  with F m obtain f n where "write_lock q = Mem f" "f m = (m', Ret n)" by (auto elim: calls_Mem_Ret)
  with own In_write_lock show ?thesis by (cases q) (auto dest: on_gate_nreaders)
next
  case (In_write_unlock q)
  with F m obtain f n where "write_unlock q = Mem f" "f m = (m', Ret n)" by (auto elim: calls_Mem_Ret)
  with own In_write_unlock show ?thesis by (cases q) (auto dest: on_gate_nreaders)
next
  case (In_try_write_modify q)
  with F m obtain f n where "try_write_modify q = Mem f" "f m = (m', Ret n)" by (auto elim: calls_Mem_Ret)
  with own In_try_write_modify show ?thesis by (cases q) (auto split: prod.splits)
next
  case (In_write_modify q)
  with F m obtain f n where "write_modify q = Mem f" "f m = (m', Ret n)" "p' = after In_write_modify (\<lambda>_. Writing) n"
    by (auto elim: calls_Mem_Ret)
  with own In_write_modify show ?thesis
    by (cases q) (auto simp: atomics Let_def dest: on_gate_nreaders split: if_splits)
qed (use F in auto)

lemma waiting_readers_own: "waiting p = Some (Nreaders_word, v, q) \<Longrightarrow> own p = 1"
  by (cases p rule: waiting.cases) auto

lemma rw_step_wait_value:
  assumes F: "rw_act p = Mem F" and m: "F m = (m', Ret p')" and w: "waiting p' = Some (Nreaders_word, v, q)"
  shows "0 \<le> sint v"
proof (cases p)
  case (In_read_lock r)
  with F m obtain f n where "read_lock r = Mem f" "f m = (m', Ret n)" "p' = after In_read_lock (\<lambda>_. Reading) n"
    by (auto elim: calls_Mem_Ret)
  with w show ?thesis by (cases p' rule: waiting.cases) (auto split: cont.splits)
next
  case (In_read_unlock r)
  with F m obtain f n where "read_unlock r = Mem f" "f m = (m', Ret n)" "p' = after In_read_unlock (\<lambda>_. Idle) n" by (auto elim: calls_Mem_Ret)
  with w show ?thesis by (auto split: cont.splits)
next
  case (In_write_lock r)
  with F m obtain f n where "write_lock r = Mem f" "f m = (m', Ret n)" "p' = after In_write_lock (\<lambda>_. Writing) n"
    by (auto elim: calls_Mem_Ret)
  with w show ?thesis
    by (cases r) (auto simp: atomics Let_def dest!: on_gate_result dest: waiting_readers_own
        split: cont.splits if_splits)
next
  case (In_write_unlock r)
  with F m obtain f n where "write_unlock r = Mem f" "f m = (m', Ret n)" "p' = after In_write_unlock (\<lambda>_. Idle) n" by (auto elim: calls_Mem_Ret)
  with w show ?thesis by (auto split: cont.splits)
next
  case (In_try_write_modify r)
  with F m obtain f n where "try_write_modify r = Mem f" "f m = (m', Ret n)"
    "p' = after In_try_write_modify (\<lambda>ok. if ok then Writing else Reading) n"
    by (auto elim: calls_Mem_Ret)
  with w show ?thesis
    by (cases r) (auto simp: atomics Let_def split: cont.splits if_splits prod.splits)
next
  case (In_write_modify r)
  with F m obtain f n where "write_modify r = Mem f" "f m = (m', Ret n)" "p' = after In_write_modify (\<lambda>_. Writing) n"
    by (auto elim: calls_Mem_Ret)
  with w show ?thesis
    by (cases r) (auto simp: atomics Let_def dest!: on_gate_result dest: waiting_readers_own
        split: cont.splits if_splits)
qed (use F in auto)

lemma waiting_gate_slow: "waiting p = Some (Gate_word, v, q) \<Longrightarrow> slow p \<and> slow q \<and> v = 2"
  by (cases p rule: waiting.cases) auto

lemma waiting_quiet:
  assumes "waiting p = Some (c, v, q)"
  shows "\<not> leaving p" "waking p = None" "\<not> leaving q" "waking q = None" "waiting q = None"
  using assms by (cases p rule: waiting.cases; force)+

lemma waking_quiet:
  assumes "waking p = Some (c, q)"
  shows "\<not> slow p" "waiting p = None" "\<not> slow q" "\<not> leaving q" "waking q = None" "waiting q = None"
  using assms by (cases p rule: waking.cases; force)+

section \<open>Every event keeps it\<close>

lemma rw_act_Mem_quiet: "rw_act p = Mem F \<Longrightarrow> waking p = None"
  by (cases p rule: waking.cases) (auto simp: calls_iffs on_gate_def embed_iffs)

lemma own_unique:
  assumes "rw_inv N m P" and "t < N" and "u < N" and "t \<noteq> u" and "own (P u) = 1"
  shows "own (P t) = 0"
proof -
  have "own (P t) + own (P u) \<le> (\<Sum>v<N. own (P v))"
    using assms by (intro sum_two_members cnt_bounds)
  then have "own (P t) \<le> 0"
    using assms by (rule_tac rw_sums [OF assms(1,2)]) auto
  with cnt_bounds(1) [of "P t"] show ?thesis by simp
qed

lemma gate_pending_other:
  assumes "gate_pending N s" and "t < N"
    and "\<And>v. v < N \<Longrightarrow> v \<noteq> t \<Longrightarrow> pcs s' v = pcs s v \<and> (stat s' v = Sleeping \<longrightarrow> stat s v = Sleeping)"
    and "gate (mem s) = 2 \<or> slow (pcs s t) \<or> leaving (pcs s t)
      \<Longrightarrow> gate (mem s') = 2 \<or> (slow (pcs s' t) \<and> stat s' t \<noteq> Sleeping) \<or> leaving (pcs s' t)"
  shows "gate_pending N s'"
  using assms unfolding gate_pending_def by metis

lemma asleep_other:
  assumes "asleep c s' u" and "pcs s' = (pcs s)(t := q)" and "stat s' = (stat s)(t := Running)"
  shows "u \<noteq> t" and "asleep c s u"
  using assms by (auto simp: asleep_def split: if_splits)

lemma rw_awake_mem:
  assumes inv: "rw_inv N (mem s) (pcs s)" and a: "rw_awake N s" and t: "t < N"
    and F: "rw_act (pcs s t) = Mem F" "F (mem s) = (m', Ret p')"
    and s': "mem s' = m'" "pcs s' = (pcs s)(t := p')" "stat s' = (stat s)(t := Running)"
  shows "rw_awake N s'"
  unfolding rw_awake_def
proof (intro conjI allI impI)
  fix u assume u: "u < N" "asleep Gate_word s' u"
  then have "gate_pending N s"
    using a asleep_other [OF u(2) s'(2,3)] by (auto simp: rw_awake_def)
  then show "gate_pending N s'"
    using t by (rule gate_pending_other) (use rw_step_gate_pending [OF F] s' in auto)
next
  fix u assume u: "u < N" "asleep Nreaders_word s' u"
  note o = asleep_other [OF u(2) s'(2,3)]
  have pend: "readers_pending N s"
    using a o u by (auto simp: rw_awake_def)
  have "own (pcs s t) = 0"
    using own_unique [OF inv t u(1)] o by (auto simp: asleep_def dest: waiting_readers_own)
  then consider "nreaders m' = nreaders (mem s)" | "0 \<le> sint (nreaders m')"
    | q where "waking p' = Some (Nreaders_word, q)"
    using rw_step_readers_pending [OF F] by blast
  then show "readers_pending N s'"
  proof cases
    case 1
    with pend s' rw_act_Mem_quiet [OF F(1)] show ?thesis
      by (auto simp: readers_pending_def fun_upd_apply)
  qed (use s' t in \<open>auto simp: readers_pending_def\<close>)
next
  fix u v q assume "u < N" "waiting (pcs s' u) = Some (Nreaders_word, v, q)"
  then show "0 \<le> sint v"
    using a s' rw_step_wait_value [OF F] by (auto simp: rw_awake_def split: if_splits)
qed

lemma rw_awake_move:
  assumes a: "rw_awake N s" and t: "t < N"
    and q: "waiting q = None" "slow (pcs s t) \<or> leaving (pcs s t) \<Longrightarrow> slow q \<or> leaving q"
      "\<And>x. waking (pcs s t) \<noteq> Some (Nreaders_word, x)"
    and s': "mem s' = mem s" "pcs s' = (pcs s)(t := q)" "stat s' = (stat s)(t := Running)"
  shows "rw_awake N s'"
  unfolding rw_awake_def
proof (intro conjI allI impI)
  fix u assume u: "u < N" "asleep Gate_word s' u"
  then have "gate_pending N s"
    using a asleep_other [OF u(2) s'(2,3)] by (auto simp: rw_awake_def)
  then show "gate_pending N s'"
    using t by (rule gate_pending_other) (use q s' in auto)
next
  fix u assume u: "u < N" "asleep Nreaders_word s' u"
  then have "readers_pending N s"
    using a asleep_other [OF u(2) s'(2,3)] by (auto simp: rw_awake_def)
  then show "readers_pending N s'"
    using q s' by (auto simp: readers_pending_def fun_upd_apply) metis
next
  fix u v q assume "u < N" "waiting (pcs s' u) = Some (Nreaders_word, v, q)"
  then show "0 \<le> sint v"
    using a s' q by (auto simp: rw_awake_def split: if_splits)
qed

lemma rw_awake_block:
  assumes a: "rw_awake N s" and t: "t < N" and w: "waiting (pcs s t) = Some (c, v, q)"
    and v: "rw_word c (mem s) = v"
  shows "rw_awake N (s\<lparr>stat := (stat s)(t := Sleeping)\<rparr>)"
proof (cases c)
  case Gate_word
  with w v have "gate (mem s) = 2" using waiting_gate_slow by fastforce
  with a w Gate_word show ?thesis
    by (auto simp: rw_awake_def gate_pending_def readers_pending_def asleep_def)
next
  case Nreaders_word
  with w v a t have "0 \<le> sint (nreaders (mem s))" by (auto simp: rw_awake_def)
  moreover have "\<not> slow (pcs s t)" "\<not> leaving (pcs s t)"
    using w Nreaders_word by (cases "pcs s t" rule: waiting.cases; simp)+
  ultimately show ?thesis
    using a w Nreaders_word
    by (auto simp: rw_awake_def gate_pending_def readers_pending_def asleep_def)
qed

lemma rw_awake_kern:
  assumes "rw_awake N s"
  shows "rw_awake N (s\<lparr>stat := (stat s)(t := Returned rv e)\<rparr>)"
  using assms unfolding rw_awake_def gate_pending_def readers_pending_def asleep_def
  by (auto simp: fun_upd_apply)

lemma waits_on_waiting: "waits_on rw_act c p \<longleftrightarrow> (\<exists>v q. waiting p = Some (c, v, q))"
proof
  assume "waits_on rw_act c p"
  then obtain v k where "rw_act p = Wait c v k"
    by (auto simp: waits_on_def split: action.splits)
  then show "\<exists>v q. waiting p = Some (c, v, q)"
    by (auto elim: rw_act_Wait)
next
  assume "\<exists>v q. waiting p = Some (c, v, q)"
  then show "waits_on rw_act c p"
    by (cases p rule: waiting.cases) (auto simp: waits_on_def calls_def on_gate_def)
qed

lemma set_rw_sleepers: "u \<in> set (sleepers rw_act N s c) \<longleftrightarrow> u < N \<and> asleep c s u"
  by (auto simp: waits_on_waiting asleep_def)

lemma rw_awake_wake:
  assumes inv: "rw_inv N (mem s) (pcs s)" and a: "rw_awake N s" and t: "t < N"
    and kw: "documented_wake kw" "kw 1 (sleepers rw_act N s c) w" and k: "waking (pcs s t) = Some (c, q)"
    and s': "mem s' = mem s" "pcs s' = (pcs s)(t := q)"
      "stat s' = (\<lambda>u. if u \<in> set w then Returned 0 (Errno 0) else stat s u)(t := Running)"
  shows "rw_awake N s'"
  unfolding rw_awake_def
proof (intro conjI allI impI)
  note wk = waking_quiet [OF k]
  have other: "u \<noteq> t \<and> u \<notin> set w \<and> asleep d s u" if "asleep d s' u" for d u
    using that s' wk by (auto simp: asleep_def split: if_splits)
  have one: "\<exists>x<N. w = [x] \<and> asleep c s x \<and> x \<noteq> t" if un: "u < N" "asleep c s u" for u
  proof -
    have "set (sleepers rw_act N s c) \<noteq> {}"
      using set_rw_sleepers [of u N s c] un by (metis empty_iff)
    then obtain x where x: "w = [x]"
      using documented_wake_one(3) [OF kw] by blast
    then have "x < N \<and> asleep c s x"
      using documented_wake_one(1) [OF kw] set_rw_sleepers [of x N s c] by auto
    with x wk show ?thesis by (auto simp: asleep_def)
  qed
  show "gate_pending N s'" if u: "u < N" "asleep Gate_word s' u" for u
  proof (cases c)
    case Gate_word
    with one u other obtain x where "x < N" "w = [x]" "asleep Gate_word s x" "x \<noteq> t" by blast
    then show ?thesis
      using s' by (auto simp: gate_pending_def asleep_def dest: waiting_gate_slow intro!: exI [of _ x])
  next
    case Nreaders_word
    with k have "\<not> leaving (pcs s t)" by (cases "pcs s t" rule: waking.cases) auto
    moreover have "gate_pending N s" using a other that by (auto simp: rw_awake_def)
    ultimately show ?thesis
      using wk s' t by (auto elim!: gate_pending_other split: if_splits)
  qed
  show "readers_pending N s'" if u: "u < N" "asleep Nreaders_word s' u" for u
  proof (cases c)
    case Gate_word
    have "readers_pending N s" using a other that by (auto simp: rw_awake_def)
    with Gate_word k s' show ?thesis
      by (auto simp: readers_pending_def fun_upd_apply)
  next
    case Nreaders_word
    with one u other obtain x where x: "x < N" "w = [x]" "asleep Nreaders_word s x" by blast
    moreover have "u \<noteq> x" using other [OF u(2)] x by auto
    ultimately have False
      using own_unique [OF inv x(1) u(1)] other [OF u(2)]
      by (auto simp: asleep_def dest!: waiting_readers_own)
    then show ?thesis ..
  qed
  show "0 \<le> sint v" if "u < N" "waiting (pcs s' u) = Some (Nreaders_word, v, r)" for u v r
    using a s' wk that by (auto simp: rw_awake_def split: if_splits)
qed

lemma rw_live_parts:
  assumes "rw_live kw N s" and "halted s = None"
  shows "documented_wake kw" "rw_inv N (mem s) (pcs s)" "int N < 2 ^ 31" "rw_awake N s"
  using assms unfolding rw_live_def rw.safe_def by simp_all

lemma rw_live_safe: "rw_live kw N s \<Longrightarrow> rw.safe N s"
  unfolding rw_live_def by blast

lemma rw_liveI:
  assumes "rw_live kw N s" and "rw.safe N s'" and "halted s' = None \<Longrightarrow> rw_awake N s'"
  shows "rw_live kw N s'"
  using assms unfolding rw_live_def by blast

interpretation rw_wakeups: machine_invariant kw N rw_act rw_word "rw_live kw N" for kw N
proof
  fix s t f m c
  assume l: "rw_live kw N s" "halted s = None" and t: "t < N" and f: "rw_act (pcs s t) = Mem f" "f (mem s) = (m, c)"
  show "rw_live kw N (goto t c (s\<lparr>mem := m\<rparr>))"
    using l(1)
  proof (rule rw_liveI)
    show "rw.safe N (goto t c (s\<lparr>mem := m\<rparr>))"
      using rw_live_safe [OF l(1)] l(2) t f by (rule rw.I_mem)
    show "rw_awake N (goto t c (s\<lparr>mem := m\<rparr>))" if "halted (goto t c (s\<lparr>mem := m\<rparr>)) = None"
      using that rw_live_parts [OF l] t f
      by (cases c) (auto intro: rw_awake_mem [of N s t f m])
  qed
next
  fix s t ps p
  assume l: "rw_live kw N s" "halted s = None" and t: "t < N" and a: "rw_act (pcs s t) = Client ps" "p \<in> set ps"
  have "pcs s t = Idle \<or> pcs s t = Reading \<or> pcs s t = Writing"
    using a(1) by (rule rw_act_Client)
  then have q: "waiting p = None" "\<not> slow (pcs s t)" "\<not> leaving (pcs s t)" "waking (pcs s t) = None"
    using a by auto
  show "rw_live kw N (goto t (Ret p) s)"
    using l(1)
  proof (rule rw_liveI)
    show "rw.safe N (goto t (Ret p) s)"
      using rw_live_safe [OF l(1)] l(2) t a by (rule rw.I_call)
    show "rw_awake N (goto t (Ret p) s)"
      using q by (intro rw_awake_move [OF rw_live_parts(4) [OF l] t, of p]) auto
  qed
next
  fix s t c' v k
  assume l: "rw_live kw N s" "halted s = None" and t: "t < N" and a: "rw_act (pcs s t) = Wait c' v k"
    and v: "rw_word c' (mem s) = v"
  show "rw_live kw N (s\<lparr>stat := (stat s)(t := Sleeping)\<rparr>)"
    using l(1)
  proof (rule rw_liveI)
    show "rw.safe N (s\<lparr>stat := (stat s)(t := Sleeping)\<rparr>)"
      unfolding rw.safe_rouse using l(1) by (rule rw_live_safe)
    show "rw_awake N (s\<lparr>stat := (stat s)(t := Sleeping)\<rparr>)"
      using a rw_awake_block [OF rw_live_parts(4) [OF l] t] v by (auto elim: rw_act_Wait)
  qed
next
  fix s t c' v k rv e
  assume l: "rw_live kw N s" "halted s = None"
  show "rw_live kw N (s\<lparr>stat := (stat s)(t := Returned rv e)\<rparr>)"
    by (rule rw_liveI [OF l(1)])
      (unfold rw.safe_rouse, rule rw_live_safe [OF l(1)], rule rw_awake_kern [OF rw_live_parts(4) [OF l]])
next
  fix s t c' v k rv e
  assume l: "rw_live kw N s" "halted s = None" and t: "t < N" and a: "rw_act (pcs s t) = Wait c' v k"
    and st: "stat s t = Returned rv e"
  obtain q where w: "waiting (pcs s t) = Some (c', v, q)"
    and k: "\<And>rv e p'. k rv e = Ret p' \<longleftrightarrow> p' = q \<and> (rv = 0 \<or> e = EINTR \<or> e = EAGAIN)"
    using a by (rule rw_act_Wait) blast
  show "rw_live kw N (goto t (k rv e) s)"
    using l(1)
  proof (rule rw_liveI)
    show "rw.safe N (goto t (k rv e) s)"
      using rw_live_safe [OF l(1)] l(2) t a st by (rule rw.I_return)
    show "rw_awake N (goto t (k rv e) s)" if h: "halted (goto t (k rv e) s) = None"
    proof -
      from h obtain p' where p': "k rv e = Ret p'" by (cases "k rv e") auto
      with k have "p' = q" by blast
      moreover have "slow (pcs s t) \<or> leaving (pcs s t) \<Longrightarrow> slow q"
        using w by (cases "pcs s t" rule: waiting.cases) auto
      ultimately show ?thesis
        using p' waiting_quiet [OF w] by (intro rw_awake_move [OF rw_live_parts(4) [OF l] t, of q]) auto
    qed
  qed
next
  fix s t c' n k' w w'
  assume l: "rw_live kw N s" "halted s = None" and t: "t < N" and a: "rw_act (pcs s t) = Wake c' n k'"
    and w: "kw n (sleepers rw_act N s c') w" and w': "w' = filter (\<lambda>u. u \<in> set (sleepers rw_act N s c')) w"
  obtain q where wk: "waking (pcs s t) = Some (c', q)" "n = 1" and k: "\<And>rv p'. k' rv = Ret p' \<longleftrightarrow> p' = q \<and> 0 \<le> rv"
    using a by (rule rw_act_Wake) blast
  note p = rw_live_parts [OF l]
  have ww: "w' = w" using documented_wake_one(2) [OF p(1)] w w' wk(2) by simp
  show "rw_live kw N (goto t (k' (int (length w'))) (rouse w' s))"
    using l(1)
  proof (rule rw_liveI)
    show "rw.safe N (goto t (k' (int (length w'))) (rouse w' s))"
      using rw_live_safe [OF l(1)] l(2) t a w w' by (rule rw.I_wake)
    have "k' (int (length w)) = Ret q" using k by simp
    then show "rw_awake N (goto t (k' (int (length w'))) (rouse w' s))"
      using w wk by (intro rw_awake_wake [OF p(2,4) t p(1) _ wk(1), of w]) (auto simp: ww rouse_def)
  qed
next
  fix s t c' n k' and rv :: int
  assume l: "rw_live kw N s" "halted s = None" and t: "t < N" and a: "rw_act (pcs s t) = Wake c' n k'" and rv: "rv < 0"
  have "\<exists>x. k' rv = Stop x"
    using a rv by (cases "k' rv") (auto elim: rw_act_Wake)
  then show "rw_live kw N (goto t (k' rv) s)"
    using rw.I_wake_error [OF rw_live_safe [OF l(1)] l(2) t a rv] by (auto intro: rw_liveI [OF l(1)])
qed

section \<open>No lost wake-up, no deadlock\<close>

lemma rw_reach_live:
  assumes "reach rw_start (rw_step kw N) s" and "int N < 2 ^ 31" and "documented_wake kw"
  shows "rw_live kw N s"
proof -
  have "rw_awake N rw_start"
    by (simp add: rw_awake_def asleep_def)
  then have "rw_live kw N rw_start"
    unfolding rw_live_def rw.safe_def
    using assms(2,3) rw_inv_init [of N] by (simp add: halt_ok_def start_def)
  with assms(1) show ?thesis
    by (rule rw_wakeups.machine_reach_inv)
qed

text \<open>A thread that can take its next step without any other thread: it is not asleep and not
  waiting for its caller.\<close>

definition can_move :: "kernel_wake \<Rightarrow> nat \<Rightarrow> (futex_rw_control, rw_pc) conf \<Rightarrow> tid \<Rightarrow> bool" where
  "can_move kw N s u \<longleftrightarrow> u < N \<and>
     (exec kw N rw_act rw_word s (Run u) \<noteq> None \<or>
      (\<exists>w. exec kw N rw_act rw_word s (WakeUp u w) \<noteq> None))"

lemma stuck_thread:
  assumes "documented_wake kw" and "halted s = None" and "u < N" and "\<not> can_move kw N s u"
  shows "pcs s u = Idle \<or> pcs s u = Reading \<or> pcs s u = Writing \<or>
    asleep Gate_word s u \<or> asleep Nreaders_word s u"
proof (cases "rw_act (pcs s u)")
  case (Mem f)
  with assms show ?thesis by (auto simp: can_move_def split: prod.splits)
next
  case (Wait c v k)
  with assms have "stat s u = Sleeping"
    by (auto simp: can_move_def split: status.splits)
  with Wait show ?thesis
    by (cases c) (auto simp: asleep_def elim: rw_act_Wait)
next
  case (Wake c n k)
  obtain w where "kw n (sleepers rw_act N s c) w"
    using assms(1) distinct_sleepers [of rw_act N s c] unfolding documented_wake_def by blast
  then have "exec kw N rw_act rw_word s (WakeUp u w) \<noteq> None"
    using Wake assms(2,3) by (simp add: Let_def)
  with assms(3,4) show ?thesis by (auto simp: can_move_def)
next
  case (Client ps)
  then show ?thesis by (auto dest: rw_act_Client)
qed

lemma asleep_counts:
  assumes "asleep c s u"
  shows "rcnt (pcs s u) = 0" "waking (pcs s u) = None" "\<not> leaving (pcs s u)" "stat s u = Sleeping"
    and "c = Gate_word \<Longrightarrow> own (pcs s u) = 0" "c = Nreaders_word \<Longrightarrow> wcnt (pcs s u) = 1"
  using assms unfolding asleep_def by (cases "pcs s u" rule: waiting.cases; force)+

lemma quiet_no_waiting_writer:
  assumes "rw_inv N (mem s) (pcs s)" and "int N < 2 ^ 31" and "rw_awake N s"
    and q: "\<forall>u<N. pcs s u = Idle \<or> asleep Gate_word s u \<or> asleep Nreaders_word s u" and u: "u < N"
  shows "\<not> asleep Nreaders_word s u"
proof
  assume a: "asleep Nreaders_word s u"
  have r: "rcnt (pcs s v) = 0" "waking (pcs s v) = None" if "v < N" for v
    using q that asleep_counts by fastforce+
  have "(\<Sum>v<N. rcnt (pcs s v)) = 0"
    using r by simp
  moreover have "1 \<le> (\<Sum>v<N. wcnt (pcs s v))"
    using sum_zero_one_member [of "\<lambda>v. wcnt (pcs s v)" u N] u asleep_counts(6) [OF a]
    by (fastforce simp: dual_order.trans [OF cnt_bounds(5) cnt_bounds(4)])
  ultimately have "sint (nreaders (mem s)) < 0"
    using rw_count(1) [OF assms(1) u assms(2)] by simp
  with a u assms(3) r show False
    by (auto simp: rw_awake_def readers_pending_def)
qed

text \<open>
  C9: No lost wake-up. Given that the kernel's \<^verbatim>\<open>FUTEX_WAKE\<close> wakes a sleeper when there
  is one, a thread of a reachable state that sleeps on the gate sleeps while the gate is marked
  contended (so its owner will call \<open>futex_wake\<close>) or while another thread is on its way to
  wake it or to take the gate over; a writer that sleeps on the reader count sleeps while readers
  are left or while the last of them is at its \<open>futex_wake\<close>.
\<close>

theorem rw_no_lost_wakeup:
  assumes "reach rw_start (rw_step kw N) s" and "int N < 2 ^ 31" and "documented_wake kw"
    and "halted s = None" and "u < N"
  shows "(asleep Gate_word s u \<longrightarrow> gate_pending N s) \<and>
    (asleep Nreaders_word s u \<longrightarrow> readers_pending N s)"
  using rw_live_parts(4) [OF rw_reach_live [OF assms(1-3)] assms(4)] assms(5)
  by (auto simp: rw_awake_def)

theorem rw_no_lost_wakeup_witness:
  "\<exists>s. run fifo_wake 2 rw_act rw_word rw_start rw_contended = Some s \<and>
     asleep Gate_word s 1 \<and> gate_pending 2 s"
proof -
  obtain s where r: "run fifo_wake 2 rw_act rw_word rw_start rw_contended = Some s"
    and s: "asleep Gate_word s 1" "halted s = None"
    by (simp add: rw_contended_def rw_eval asleep_def)
  with rw_no_lost_wakeup [OF run_reachable [OF r] _ fifo_wake_documented s(2), of 1] show ?thesis
    by simp
qed

text \<open>
  C8: No deadlock. In every reachable state of a process that has not been aborted, if some
  thread is in the middle of a lock operation then some thread can take its next step now, or
  some caller holds a lock and has not yet asked for its release.
\<close>

theorem rw_no_deadlock:
  assumes "reach rw_start (rw_step kw N) s" and "int N < 2 ^ 31" and "documented_wake kw"
    and "halted s = None" and "t < N" and "pcs s t \<noteq> Idle"
  shows "\<exists>u<N. can_move kw N s u \<or> pcs s u = Reading \<or> pcs s u = Writing"
proof (rule ccontr)
  assume stuck: "\<not> ?thesis"
  note live = rw_live_parts [OF rw_reach_live [OF assms(1-3)] assms(4)]
  have q: "\<forall>u<N. pcs s u = Idle \<or> asleep Gate_word s u \<or> asleep Nreaders_word s u"
    using stuck_thread [OF assms(3,4)] stuck by blast
  then have g: "pcs s u = Idle \<or> asleep Gate_word s u" if "u < N" for u
    using quiet_no_waiting_writer [OF live(2,3,4)] that by blast
  then have "gate_pending N s"
    using assms(5,6) live(4) by (auto simp: rw_awake_def)
  moreover have "own (pcs s u) = 0" "\<not> leaving (pcs s u)" "slow (pcs s u) \<Longrightarrow> stat s u = Sleeping"
    if "u < N" for u
    using g [OF that] asleep_counts by fastforce+
  moreover from this have "gate (mem s) = 0"
    using live(2) by (auto simp: rw_inv_def gt.owners_def split: if_splits)
  ultimately show False
    by (auto simp: gate_pending_def)
qed

theorem rw_no_deadlock_witness:
  "\<exists>s. run fifo_wake 2 rw_act rw_word rw_start rw_last_reader = Some s \<and>
     stat s 1 = Sleeping \<and> (\<exists>u<2. can_move fifo_wake 2 s u \<or> pcs s u = Reading \<or> pcs s u = Writing)"
proof -
  obtain s where r: "run fifo_wake 2 rw_act rw_word rw_start rw_last_reader = Some s"
    and s: "stat s 1 = Sleeping" "pcs s 1 \<noteq> Idle" "halted s = None"
    by (simp add: rw_last_reader_def rw_eval)
  with rw_no_deadlock [OF run_reachable [OF r] _ fifo_wake_documented s(3), of 1] show ?thesis
    by simp
qed

end
