(* ===== verification/RW_Spec.thy ===== *)
theory RW_Spec
  imports RW_Control
begin

text \<open>
  What \<^verbatim>\<open>futex_rw_control\<close> promises, as an abstract machine on sets of threads, and the
  proof that every event of the detailed machine of theory \<open>RW_Control\<close> is a step of the
  abstract one or changes nothing there. A thread claims the exclusive right before it writes; no
  thread becomes a reader and no other thread claims while a claim stands. \<open>try_write_modify\<close>
  claims while the thread still reads, which is why a read-modify-write that uses it sees no other
  write in between; \<open>write_modify\<close> gives its read lock up first.
\<close>

section \<open>The abstract machine\<close>

record rw_view =
  readers :: "tid set"
  claims :: "tid set"
  writers :: "tid set"

inductive rw_spec :: "rw_view \<Rightarrow> rw_view \<Rightarrow> bool" where
  sp_read: "claims a = {} \<Longrightarrow> t \<notin> readers a \<Longrightarrow> rw_spec a (a\<lparr>readers := insert t (readers a)\<rparr>)"
| sp_unread: "t \<in> readers a \<Longrightarrow> rw_spec a (a\<lparr>readers := readers a - {t}\<rparr>)"
| sp_claim: "claims a = {} \<Longrightarrow> rw_spec a (a\<lparr>claims := {t}\<rparr>)"
| sp_write: "claims a = {t} \<Longrightarrow> readers a = {} \<Longrightarrow> writers a = {} \<Longrightarrow> rw_spec a (a\<lparr>writers := {t}\<rparr>)"
| sp_unwrite: "claims a = {t} \<Longrightarrow> writers a = {t} \<Longrightarrow> rw_spec a (a\<lparr>claims := {}, writers := {}\<rparr>)"

inductive_cases rw_spec_cases: "rw_spec a b"

definition spec_ok :: "rw_view \<Rightarrow> bool" where
  "spec_ok a \<longleftrightarrow> writers a \<subseteq> claims a \<and> (\<forall>t\<in>claims a. claims a = {t}) \<and>
     (writers a \<noteq> {} \<longrightarrow> readers a = {})"

section \<open>The view of a configuration\<close>

fun claiming :: "rw_pc \<Rightarrow> bool" where
  "claiming (In_write_lock (WL_enter p)) = False"
| "claiming (In_write_lock p) = True"
| "claiming Writing = True"
| "claiming (In_write_unlock WU_store) = True"
| "claiming (In_try_write_modify TM_try) = False"
| "claiming (In_try_write_modify p) = True"
| "claiming (In_write_modify WM_sub2) = True"
| "claiming (In_write_modify (WM_wait v)) = True"
| "claiming (In_write_modify WM_load) = True"
| "claiming _ = False"

definition view :: "nat \<Rightarrow> (tid \<Rightarrow> rw_pc) \<Rightarrow> rw_view" where
  "view N P = \<lparr>readers = {t. t < N \<and> rcnt (P t) = 1}, claims = {t. t < N \<and> claiming (P t)},
     writers = {t. t < N \<and> wrt (P t) = 1}\<rparr>"

definition simulated :: "nat \<Rightarrow> (tid \<Rightarrow> rw_pc) \<Rightarrow> (tid \<Rightarrow> rw_pc) \<Rightarrow> bool" where
  "simulated N P Q \<longleftrightarrow> view N Q = view N P \<or> rw_spec (view N P) (view N Q)"

section \<open>Lemmas\<close>

lemma spec_ok_step: "spec_ok a \<Longrightarrow> rw_spec a b \<Longrightarrow> spec_ok b"
  by (erule rw_spec_cases) (auto simp: spec_ok_def)

lemma claiming_own: "claiming p \<Longrightarrow> own p = 1"
  by (cases p rule: claiming.cases) auto

lemma wrt_claiming: "wrt p = 1 \<Longrightarrow> claiming p"
  by (cases p rule: wrt.cases) auto

lemma rcnt_cases: "rcnt p = 0 \<or> rcnt p = 1"
  using cnt_bounds(2,3) [of p] by linarith

lemma wrt_cases: "wrt p = 0 \<or> wrt p = 1"
  using cnt_order [of p] by linarith

lemma own_only:
  assumes "rw_inv N m P" and "t < N" and "own (P t) = 1" and "u < N" and "claiming (P u)"
  shows "u = t"
proof (rule ccontr)
  assume "u \<noteq> t"
  then have "own (P t) + own (P u) \<le> (\<Sum>v<N. own (P v))"
    using assms by (intro sum_two_members cnt_bounds) auto
  with assms claiming_own [of "P u"] show False
    by (auto simp: rw_inv_def gt.owners_def split: if_splits)
qed

lemma no_claims:
  assumes "rw_inv N m P" and "t < N" and "own (P t) = 1" and "\<not> claiming (P t)"
  shows "claims (view N P) = {}"
  using own_only [OF assms(1-3)] assms(4) by (auto simp: view_def)

lemma own_claims:
  assumes "rw_inv N m P" and "t < N" and "claiming (P t)"
  shows "claims (view N P) = {t}"
proof -
  have "claims (view N P) \<subseteq> {t}"
    using own_only [OF assms(1,2) claiming_own [OF assms(3)]] unfolding view_def by fastforce
  moreover have "t \<in> claims (view N P)"
    using assms(2,3) by (simp add: view_def)
  ultimately show ?thesis by blast
qed

lemma free_claims:
  assumes "rw_inv N m P" and "gate m = 0"
  shows "claims (view N P) = {}"
proof -
  have z: "own (P u) \<le> 0" if "u < N" for u
    using sum_zero_one_member [of "\<lambda>v. own (P v)" u N] that cnt_bounds(1) assms
    by (auto simp: rw_inv_def gt.owners_def)
  then show ?thesis
    using claiming_own by (fastforce simp: view_def)
qed

lemma no_readers:
  assumes "rw_inv N m P" and "(\<Sum>u<N. rcnt (P u)) = 0"
  shows "readers (view N P) = {}"
proof -
  have "rcnt (P u) \<le> 0" if "u < N" for u
    using sum_zero_one_member [of "\<lambda>v. rcnt (P v)" u N] that cnt_bounds(2) assms(2) by auto
  then show ?thesis by (fastforce simp: view_def)
qed

lemma view_ok:
  assumes "rw_inv N m P"
  shows "spec_ok (view N P)"
  unfolding spec_ok_def
proof (intro conjI ballI impI)
  show "writers (view N P) \<subseteq> claims (view N P)"
    using wrt_claiming by (auto simp: view_def)
  show "claims (view N P) = {t}" if "t \<in> claims (view N P)" for t
    using that by (intro own_claims [OF assms]) (auto simp: view_def)
  assume "writers (view N P) \<noteq> {}"
  then obtain t where "t < N" "wrt (P t) = 1" by (auto simp: view_def)
  then have "(\<Sum>u<N. rcnt (P u)) = 0"
    using sum_zero_one_member [of "\<lambda>v. wrt (P v)" t N] cnt_bounds(4) assms by (auto simp: rw_inv_def)
  then show "readers (view N P) = {}" by (rule no_readers [OF assms])
qed

text \<open>Moving one thread changes the view at that thread only.\<close>

lemma view_upd:
  assumes "t < N"
  shows "view N (P(t := q)) =
    \<lparr>readers = (if rcnt q = 1 then insert t (readers (view N P)) else readers (view N P) - {t}),
     claims = (if claiming q then insert t (claims (view N P)) else claims (view N P) - {t}),
     writers = (if wrt q = 1 then insert t (writers (view N P)) else writers (view N P) - {t})\<rparr>"
  using assms by (auto simp: view_def)

lemma view_same:
  assumes "t < N" and "rcnt q = rcnt (P t)" and "claiming q = claiming (P t)" and "wrt q = wrt (P t)"
  shows "simulated N P (P(t := q))"
  unfolding simulated_def view_upd [OF assms(1)] using assms by (auto simp: view_def)

lemma sim_read:
  assumes "t < N" and "claims (view N P) = {}" and "rcnt (P t) = 0" and "wrt (P t) = 0"
    and "rcnt q = 1" and "\<not> claiming q"
  shows "simulated N P (P(t := q))"
proof -
  have "wrt q \<noteq> 1" and "t \<notin> writers (view N P)" and "t \<notin> readers (view N P)"
    using assms wrt_claiming by (auto simp: view_def)
  then have "view N (P(t := q)) = (view N P)\<lparr>readers := insert t (readers (view N P))\<rparr>"
    using assms by (simp add: view_upd)
  with assms \<open>t \<notin> readers (view N P)\<close> show ?thesis
    by (auto simp: simulated_def intro: sp_read)
qed

lemma sim_unread:
  assumes "t < N" and "rcnt (P t) = 1" and "rcnt q = 0"
    and "claiming q = claiming (P t)" and "wrt q = wrt (P t)"
  shows "simulated N P (P(t := q))"
proof -
  have "view N (P(t := q)) = (view N P)\<lparr>readers := readers (view N P) - {t}\<rparr>"
    unfolding view_upd [OF assms(1)] using assms by (auto simp: view_def)
  moreover have "t \<in> readers (view N P)" using assms by (simp add: view_def)
  ultimately show ?thesis
    by (auto simp: simulated_def intro: sp_unread)
qed

lemma sim_claim:
  assumes "t < N" and "claims (view N P) = {}" and "rcnt q = rcnt (P t)" and "claiming q"
    and "wrt q = 0" and "wrt (P t) = 0"
  shows "simulated N P (P(t := q))"
proof -
  have "view N (P(t := q)) = (view N P)\<lparr>claims := {t}\<rparr>"
    unfolding view_upd [OF assms(1)] using assms by (auto simp: view_def)
  with assms show ?thesis by (auto simp: simulated_def intro: sp_claim)
qed

text \<open>A claiming thread goes on to write when the invariant allows it there.\<close>

lemma sim_writer:
  assumes inv: "rw_inv N m P" and inv': "rw_inv N m' (P(t := q))" and t: "t < N"
    and "claiming (P t)" and "rcnt (P t) = 0" and "wrt (P t) = 0" and "claiming q" and "rcnt q = 0"
  shows "simulated N P (P(t := q))"
proof (cases "wrt q = 1")
  case True
  have c: "claims (view N P) = {t}" using assms by (intro own_claims [OF inv])
  have w: "writers (view N P) = {}"
    using view_ok [OF inv] c assms(6) by (auto simp: spec_ok_def view_def)
  have v: "view N (P(t := q)) = (view N P)\<lparr>writers := {t}\<rparr>"
    unfolding view_upd [OF t] using True assms c w by (auto simp: view_def)
  then have "readers (view N P) = {}"
    using view_ok [OF inv'] by (simp add: spec_ok_def)
  with c w v show ?thesis by (auto simp: simulated_def intro: sp_write)
next
  case False
  then have "wrt q = wrt (P t)" using wrt_cases [of q] assms by simp
  with assms show ?thesis by (intro view_same) auto
qed

lemma sim_unwrite:
  assumes inv: "rw_inv N m P" and t: "t < N" and "wrt (P t) = 1" and "rcnt q = 0" and "\<not> claiming q"
  shows "simulated N P (P(t := q))"
proof -
  have c: "claims (view N P) = {t}" using assms wrt_claiming by (intro own_claims [OF inv]) auto
  have w: "writers (view N P) = {t}"
    using view_ok [OF inv] c assms(2,3) by (auto simp: spec_ok_def view_def)
  have r: "readers (view N P) = {}"
    using view_ok [OF inv] w by (simp add: spec_ok_def)
  have "wrt q \<noteq> 1" using assms(5) wrt_claiming by blast
  then have "view N (P(t := q)) = (view N P)\<lparr>claims := {}, writers := {}\<rparr>"
    unfolding view_upd [OF t] using assms c w r by simp
  with c w show ?thesis by (auto simp: simulated_def intro: sp_unwrite)
qed

section \<open>Every event is simulated\<close>


lemma sim_claim_after:
  assumes inv: "rw_inv N m P" and inv': "rw_inv N m' (P(t := q))" and t: "t < N"
    and "own (P t) = 0" and "rcnt q = rcnt (P t)" and "claiming q" and "wrt q = 0"
  shows "simulated N P (P(t := q))"
proof -
  have "wrt (P t) = 0" using assms(4) cnt_bounds [of "P t"] by linarith
  moreover have "claims (view N P) \<subseteq> {t}"
    using own_claims [OF inv' t] assms(6) view_upd [OF t, of P q] by auto
  moreover have "t \<notin> claims (view N P)"
    using assms(4) claiming_own [of "P t"] by (auto simp: view_def)
  ultimately show ?thesis
    using assms by (intro sim_claim) auto
qed

lemma sim_read_lock:
  assumes inv: "rw_inv N m P" and t: "t < N" and P: "P t = In_read_lock p"
    and f: "read_lock p = Mem f" "f m = (m', Ret n)"
  shows "simulated N P (P(t := after In_read_lock (\<lambda>_. Reading) n))"
proof (cases p)
  case (RL_enter e)
  with P f t show ?thesis by (auto dest!: on_gate_result intro!: view_same)
next
  case RL_add
  with P have "claims (view N P) = {}" by (intro no_claims [OF inv t]) auto
  with RL_add P f t show ?thesis by (auto intro!: sim_read)
next
  case (RL_leave l)
  with P f t show ?thesis by (auto dest!: on_gate_result intro!: view_same)
qed

lemma sim_read_unlock:
  assumes t: "t < N" and P: "P t = In_read_unlock p" and f: "read_unlock p = Mem f" "f m = (m', Ret n)"
  shows "simulated N P (P(t := after In_read_unlock (\<lambda>_. Idle) n))"
  using assms by (cases p) (auto simp: Let_def ctl_rules split: if_splits intro!: sim_unread)

lemma sim_write_lock:
  assumes inv: "rw_inv N m P" and t: "t < N" and P: "P t = In_write_lock p"
    and f: "write_lock p = Mem f" "f m = (m', Ret n)"
    and inv': "rw_inv N m' (P(t := after In_write_lock (\<lambda>_. Writing) n))"
  shows "simulated N P (P(t := after In_write_lock (\<lambda>_. Writing) n))"
proof (cases p)
  case (WL_enter e)
  with f on_gate_result consider "n = Goto WL_sub" | e' where "n = Goto (WL_enter e')"
    by fastforce
  then show ?thesis
  proof cases
    case 1
    with inv' WL_enter P show ?thesis by (auto intro!: sim_claim_after [OF inv _ t])
  next
    case 2
    with WL_enter P t show ?thesis by (auto intro!: view_same)
  qed
next
  case WL_sub
  with P f inv' show ?thesis by (auto simp: Let_def split: if_splits intro!: sim_writer [OF inv _ t])
next
  case WL_load
  with P f inv' show ?thesis by (auto simp: Let_def split: if_splits intro!: sim_writer [OF inv _ t])
qed (use f in auto)

lemma sim_write_unlock:
  assumes inv: "rw_inv N m P" and t: "t < N" and P: "P t = In_write_unlock p"
    and f: "write_unlock p = Mem f" "f m = (m', Ret n)"
  shows "simulated N P (P(t := after In_write_unlock (\<lambda>_. Idle) n))"
proof (cases p)
  case WU_store
  with P f show ?thesis by (auto intro!: sim_unwrite [OF inv t])
next
  case (WU_leave l)
  with P f t show ?thesis by (auto dest!: on_gate_result intro!: view_same)
qed

lemma sim_try_write_modify:
  assumes inv: "rw_inv N m P" and t: "t < N" and P: "P t = In_try_write_modify p"
    and f: "try_write_modify p = Mem f" "f m = (m', Ret n)"
    and inv': "rw_inv N m' (P(t := after In_try_write_modify (\<lambda>ok. if ok then Writing else Reading) n))"
  shows "simulated N P (P(t := after In_try_write_modify (\<lambda>ok. if ok then Writing else Reading) n))"
proof (cases p)
  case TM_try
  with f consider "n = Goto TM_sub1" | "n = Done False"
    by (auto simp: try_enter_gate_def atomics split: if_splits)
  then show ?thesis
  proof cases
    case 1
    with inv' TM_try P show ?thesis by (auto intro!: sim_claim_after [OF inv _ t])
  next
    case 2
    with TM_try P t show ?thesis by (auto intro!: view_same)
  qed
next
  case TM_sub1
  with P f t show ?thesis by (auto intro!: sim_unread)
next
  case TM_sub2
  with P f inv' show ?thesis by (auto simp: Let_def split: if_splits intro!: sim_writer [OF inv _ t])
next
  case TM_load
  with P f inv' show ?thesis by (auto simp: Let_def split: if_splits intro!: sim_writer [OF inv _ t])
qed (use f in auto)

lemma sim_write_modify:
  assumes inv: "rw_inv N m P" and t: "t < N" and P: "P t = In_write_modify p"
    and f: "write_modify p = Mem f" "f m = (m', Ret n)"
    and inv': "rw_inv N m' (P(t := after In_write_modify (\<lambda>_. Writing) n))"
  shows "simulated N P (P(t := after In_write_modify (\<lambda>_. Writing) n))"
proof (cases p)
  case WM_sub
  with P f t show ?thesis by (auto simp: Let_def split: if_splits intro!: sim_unread)
next
  case (WM_enter e)
  with f on_gate_result consider "n = Goto WM_sub2" | e' where "n = Goto (WM_enter e')"
    by fastforce
  then show ?thesis
  proof cases
    case 1
    with inv' WM_enter P show ?thesis by (auto intro!: sim_claim_after [OF inv _ t])
  next
    case 2
    with WM_enter P t show ?thesis by (auto intro!: view_same)
  qed
next
  case WM_sub2
  with P f inv' show ?thesis by (auto simp: Let_def split: if_splits intro!: sim_writer [OF inv _ t])
next
  case WM_load
  with P f inv' show ?thesis by (auto simp: Let_def split: if_splits intro!: sim_writer [OF inv _ t])
qed (use f in auto)

lemma sim_mem:
  assumes inv: "rw_inv N m P" and t: "t < N" and N: "int N < 2 ^ 31"
    and F: "rw_act (P t) = Mem F" "F m = (m', Ret p')"
  shows "simulated N P (P(t := p'))"
proof -
  have inv': "rw_inv N m' (P(t := p'))"
    using rw_mem_step [OF inv N t F(1)] F(2) by auto
  show ?thesis
  proof (cases "P t")
    case (In_read_lock p) with F show ?thesis
      by (auto elim!: calls_Mem_Ret intro: sim_read_lock [OF inv t])
  next
    case (In_read_unlock p) with F show ?thesis
      by (auto elim!: calls_Mem_Ret intro: sim_read_unlock [OF t])
  next
    case (In_write_lock p) with F inv' show ?thesis
      by (auto elim!: calls_Mem_Ret intro: sim_write_lock [OF inv t])
  next
    case (In_write_unlock p) with F show ?thesis
      by (auto elim!: calls_Mem_Ret intro: sim_write_unlock [OF inv t])
  next
    case (In_try_write_modify p) with F inv' show ?thesis
      by (auto elim!: calls_Mem_Ret intro: sim_try_write_modify [OF inv t])
  next
    case (In_write_modify p) with F inv' show ?thesis
      by (auto elim!: calls_Mem_Ret intro: sim_write_modify [OF inv t])
  qed (use F in auto)
qed

lemma sim_quiet:
  assumes "t < N"
  shows "waiting (P t) = Some (c, v, q) \<Longrightarrow> simulated N P (P(t := q))"
    and "waking (P t) = Some (d, r) \<Longrightarrow> simulated N P (P(t := r))"
proof -
  show "simulated N P (P(t := q))" if "waiting (P t) = Some (c, v, q)"
    using assms that by (cases "P t" rule: waiting.cases) (auto intro!: view_same)
  show "simulated N P (P(t := r))" if "waking (P t) = Some (d, r)"
    using assms that by (cases "P t" rule: waking.cases) (auto intro!: view_same)
qed

lemma sim_call:
  assumes "t < N" and "rw_act (P t) = Client ps" and "p \<in> set ps"
  shows "simulated N P (P(t := p))"
  using assms rw_act_Client [OF assms(2)] by (intro view_same) auto


lemma exec_simulated:
  assumes "rw_inv N (mem s) (pcs s)" and "int N < 2 ^ 31" and "exec kw N rw_act rw_word s ev = Some s'"
  shows "simulated N (pcs s) (pcs s')"
  using assms(3)
proof (cases rule: exec_pcs)
  case 3
  then show ?thesis using sim_mem [OF assms(1) _ assms(2)] by metis
next
  case 4
  then show ?thesis using sim_call by metis
next
  case (5 t c v k rv e p)
  then show ?thesis by (auto elim!: rw_act_Wait intro: sim_quiet)
next
  case (6 t c n k rv p)
  then show ?thesis by (auto elim!: rw_act_Wake intro: sim_quiet)
qed (simp_all add: simulated_def)

abbreviation no_one :: rw_view where
  "no_one \<equiv> \<lparr>readers = {}, claims = {}, writers = {}\<rparr>"

interpretation rw_spec_machine: invariant_system no_one rw_spec spec_ok
  by unfold_locales (auto simp: spec_ok_def [of no_one] intro: spec_ok_step)

section \<open>The lock implements the abstract machine\<close>

text \<open>
  C4: Refinement. Every event of every thread, in every reachable state, is a step of the abstract
  read/write lock or leaves its state unchanged, so every reachable state of the implementation
  shows the clients a reachable state of the abstract lock.
\<close>

theorem rw_refines_spec:
  assumes "reach rw_start (rw_step kw N) s" and "int N < 2 ^ 31"
  shows "reach no_one rw_spec (view N (pcs s)) \<and>
    (\<forall>s'. rw_step kw N s s' \<longrightarrow>
       view N (pcs s') = view N (pcs s) \<or> rw_spec (view N (pcs s)) (view N (pcs s')))"
proof (rule conjI)
  show "reach no_one rw_spec (view N (pcs s))"
    using assms(1)
  proof (induction rule: reach.induct)
    case reach_init
    then show ?case by (simp add: view_def reach.reach_init)
  next
    case (reach_step s s')
    then have "simulated N (pcs s) (pcs s')"
      using exec_simulated rw_reach_safe(1) assms(2) unfolding mstep_def by blast
    with reach_step.IH show ?case
      by (auto simp: simulated_def intro: reach.reach_step)
  qed
  show "\<forall>s'. rw_step kw N s s' \<longrightarrow>
       view N (pcs s') = view N (pcs s) \<or> rw_spec (view N (pcs s)) (view N (pcs s'))"
    using exec_simulated [OF rw_reach_safe(1) [OF assms] assms(2)]
    unfolding mstep_def simulated_def by blast
qed

theorem rw_refines_spec_witness:
  "\<exists>s. run fifo_wake 2 rw_act rw_word rw_start rw_two_readers = Some s \<and>
     view 2 (pcs s) = \<lparr>readers = {0, 1}, claims = {}, writers = {}\<rparr> \<and>
     reach no_one rw_spec (view 2 (pcs s))"
proof -
  obtain s where r: "run fifo_wake 2 rw_act rw_word rw_start rw_two_readers = Some s"
    and s: "pcs s 0 = Reading" "pcs s 1 = Reading"
    by (simp add: rw_two_readers_def rw_eval)
  have "view 2 (pcs s) = \<lparr>readers = {0, 1}, claims = {}, writers = {}\<rparr>"
    using s by (auto simp: view_def) (metis One_nat_def claiming.simps less_2_cases wrt.simps zero_neq_one)+
  with r rw_refines_spec [OF run_reachable [OF r]] show ?thesis by simp
qed

text \<open>
  C24: Read, modify, write. From the moment a thread holds its read lock, through a call of
  \<open>try_write_modify\<close> that gets the gate, to the write lock it returns with, no other thread is
  writing; so what the thread read is still current when it writes.
\<close>

theorem try_write_modify_no_writer_between:
  assumes "reach rw_start (rw_step kw N) s" and "int N < 2 ^ 31" and "t < N" and "u < N" and "u \<noteq> t"
    and "pcs s t = Reading \<or> (\<exists>p. pcs s t = In_try_write_modify p) \<or> pcs s t = Writing"
  shows "pcs s u \<noteq> Writing \<and> wrt (pcs s u) = 0"
proof -
  have ok: "spec_ok (view N (pcs s))"
    using view_ok rw_reach_safe(1) [OF assms(1,2)] by blast
  have t: "t \<in> readers (view N (pcs s)) \<or> t \<in> claims (view N (pcs s))"
    using assms(3,6) by (auto simp: view_def elim: rcnt.elims claiming.elims)
  have "u \<notin> writers (view N (pcs s))"
    using ok t assms(5) unfolding spec_ok_def by blast
  then have "wrt (pcs s u) \<noteq> 1"
    using assms(4) by (simp add: view_def)
  with wrt_cases [of "pcs s u"] show ?thesis by auto
qed

definition rw_upgrade :: "event list" where
  "rw_upgrade = [Call 0 0, Run 0, Run 0, Run 0, Call 0 1, Run 0, Run 0, Run 0, Call 1 1, Run 1, Run 1, Run 1]"

theorem try_write_modify_no_writer_between_witness:
  "\<exists>s. run fifo_wake 2 rw_act rw_word rw_start rw_upgrade = Some s \<and>
     pcs s 0 = Writing \<and> stat s 1 = Sleeping \<and> wrt (pcs s 1) = 0"
proof -
  obtain s where r: "run fifo_wake 2 rw_act rw_word rw_start rw_upgrade = Some s"
    and s: "pcs s 0 = Writing" "stat s 1 = Sleeping"
    by (simp add: rw_upgrade_def rw_eval)
  with try_write_modify_no_writer_between [OF run_reachable [OF r], of 0 1] show ?thesis by simp
qed

end
