(* ===== verification/RW_Rules.thy ===== *)
theory RW_Rules
  imports RW_Control
begin

text \<open>
  The usage rules at the head of \<^verbatim>\<open>src/src/bdrwlock.h\<close>: what happens to a thread that takes the lock
  a second time while it holds it. The machine \<open>re_act\<close> lets every thread do so. A thread inside its
  second lock operation counts as two threads of the machine without rules, one that holds the lock
  and one that asks for it, so the invariant of theory \<open>RW_Control\<close> carries over.
\<close>

section \<open>Threads that lock twice\<close>

text \<open>\<open>Again h p\<close>: the thread holds the lock as \<open>h\<close> says and is at \<open>p\<close> with its second one.\<close>

datatype re_pc = Once rw_pc | Again rw_pc rw_pc

fun outer :: "re_pc \<Rightarrow> rw_pc" where
  "outer (Once p) = p"
| "outer (Again h p) = h"

fun inner :: "re_pc \<Rightarrow> rw_pc" where
  "inner (Once p) = Idle"
| "inner (Again h p) = p"

definition second_lock :: "rw_pc \<Rightarrow> re_pc list" where
  "second_lock p = (if p = Reading \<or> p = Writing
     then [Again p (In_read_lock (RL_enter EG_first)), Again p (In_write_lock (WL_enter EG_first))] else [])"

fun re_act :: "re_pc \<Rightarrow> (futex_rw_control, re_pc, rw_cell) action" where
  "re_act (Once p) = (case rw_act p of
       Client ps \<Rightarrow> Client (map Once ps @ second_lock p)
     | a \<Rightarrow> embed id (\<lambda>s _. s) id Once a)"
| "re_act (Again h p) = (if p = Idle then Client [Once h] else embed id (\<lambda>s _. s) id (Again h) (rw_act p))"

abbreviation re_start :: "(futex_rw_control, re_pc) conf" where
  "re_start \<equiv> start futex_rw_control_init (Once Idle)"

abbreviation re_step :: "kernel_wake \<Rightarrow> nat \<Rightarrow> (futex_rw_control, re_pc) conf \<Rightarrow> (futex_rw_control, re_pc) conf \<Rightarrow> bool" where
  "re_step kw N \<equiv> mstep kw N re_act rw_word"

section \<open>Two threads for one\<close>

definition flat :: "nat \<Rightarrow> (tid \<Rightarrow> re_pc) \<Rightarrow> tid \<Rightarrow> rw_pc" where
  "flat N P u = (if u < N then outer (P u) else inner (P (u - N)))"

text \<open>The thread of the machine without rules that is at \<open>p\<close>, and how \<open>p\<close> is wrapped.\<close>

definition at_point :: "nat \<Rightarrow> re_pc \<Rightarrow> tid \<Rightarrow> (rw_pc \<Rightarrow> re_pc) \<Rightarrow> rw_pc \<Rightarrow> tid \<Rightarrow> bool" where
  "at_point N q t k p u \<longleftrightarrow> q = k p \<and> (k = Once \<and> u = t \<or> (\<exists>h. k = Again h) \<and> u = N + t)"

lemma flat_at:
  assumes "at_point N (P t) t k p u" and "t < N"
  shows "flat N P u = p" and "u < 2 * N" and "flat N (P(t := k p')) = (flat N P)(u := p')"
  using assms by (auto simp: at_point_def flat_def fun_eq_iff)

lemma re_calls:
  assumes "\<And>ps. re_act q \<noteq> Client ps"
  shows "\<exists>k p u. at_point N q t k p u \<and> re_act q = embed id (\<lambda>s _. s) id k (rw_act p)"
proof (cases q)
  case (Once p)
  with assms show ?thesis by (intro exI [of _ Once] exI [of _ p] exI [of _ t], cases "rw_act p") (auto simp: at_point_def)
next
  case (Again h p)
  with assms [of "[Once h]"] show ?thesis
    by (intro exI [of _ "Again h"] exI [of _ p] exI [of _ "N + t"]) (auto simp: at_point_def split: if_splits)
qed

definition re_inv :: "nat \<Rightarrow> futex_rw_control \<Rightarrow> (tid \<Rightarrow> re_pc) \<Rightarrow> bool" where
  "re_inv N m P \<longleftrightarrow> int (2 * N) < 2 ^ 31 \<and> rw_inv (2 * N) m (flat N P)"

lemma re_inv_call:
  assumes inv: "re_inv N m P" and t: "t < N" and a: "re_act (P t) = Client ps" and q: "q \<in> set ps"
  shows "re_inv N m (P(t := q))"
proof -
  have move: "re_inv N m (P(t := k p'))" if "at_point N (P t) t k p u" "rw_act p = Client qs" "p' \<in> set qs" for k p u qs p'
    using rw.J_call [of "2 * N" m "flat N P" u qs p'] inv that flat_at [where P = P and t = t, OF that(1) t] by (simp add: re_inv_def)
  have idle: "p' \<in> set [In_read_lock (RL_enter EG_first), In_write_lock (WL_enter EG_first)] \<Longrightarrow>
      re_inv N m (P(t := Again p p'))" if "P t = Once p" for p p'
  proof -
    assume p': "p' \<in> set [In_read_lock (RL_enter EG_first), In_write_lock (WL_enter EG_first)]"
    have "flat N P (N + t) = Idle" "flat N (P(t := Again p p')) = (flat N P)(N + t := p')"
      using that t by (auto simp: flat_def fun_eq_iff)
    with rw.J_call [of "2 * N" m "flat N P" "N + t" _ p'] inv t p' show ?thesis by (simp add: re_inv_def)
  qed
  show ?thesis
  proof (cases "P t")
    case (Once p)
    with a obtain qs where qs: "rw_act p = Client qs" "ps = map Once qs @ second_lock p" by (cases "rw_act p") auto
    from q qs consider p' where "q = Once p'" "p' \<in> set qs"
      | p' where "q = Again p p'" "p' \<in> set [In_read_lock (RL_enter EG_first), In_write_lock (WL_enter EG_first)]"
      by (auto simp: second_lock_def split: if_splits)
    then show ?thesis
    proof cases
      case 1
      with move [of Once p t qs p'] Once qs show ?thesis by (simp add: at_point_def)
    next
      case 2
      with idle [OF Once 2(2)] show ?thesis by simp
    qed
  next
    case (Again h p)
    show ?thesis
    proof (cases "p = Idle")
      case True
      with Again a q have "flat N (P(t := q)) = flat N P" by (auto simp: flat_def fun_eq_iff)
      with inv show ?thesis by (simp add: re_inv_def)
    next
      case False
      with Again a q obtain qs p' where "rw_act p = Client qs" "p' \<in> set qs" "q = Again h p'" by (auto simp: embed_iffs)
      with move [of "Again h" p "N + t" qs p'] Again show ?thesis by (auto simp: at_point_def)
    qed
  qed
qed

lemma re_inv_return:
  assumes inv: "re_inv N m P" and t: "t < N"
  shows "re_act (P t) = Mem f \<Longrightarrow> \<exists>m' q. f m = (m', Ret q) \<and> re_inv N m' (P(t := q))"
    and "re_act (P t) = Wait c v k \<Longrightarrow> k rv e = Ret q \<Longrightarrow> re_inv N m (P(t := q))"
    and "re_act (P t) = Wake c n k' \<Longrightarrow> k' rv = Ret q \<Longrightarrow> re_inv N m (P(t := q))"
proof -
  have J: "int (2 * N) < 2 ^ 31 \<and> rw_inv (2 * N) m (flat N P)" using inv by (simp add: re_inv_def)
  note at = flat_at [where P = P and t = t, OF _ t]
  show "\<exists>m' q. f m = (m', Ret q) \<and> re_inv N m' (P(t := q))" if r: "re_act (P t) = Mem f"
  proof -
    obtain j p u where a: "at_point N (P t) t j p u" "re_act (P t) = embed id (\<lambda>s _. s) id j (rw_act p)"
      using re_calls [of "P t" N t] r by auto
    with r obtain g where g: "rw_act p = Mem g" "f = (\<lambda>m. let (s, n) = g m in (s, bnd n (\<lambda>x. Ret (j x))))"
      by (auto simp: embed_iffs)
    with rw.J_mem [OF J at(2) [OF a(1)], of g] at(1) [OF a(1)] obtain m' p' where
      "g m = (m', Ret p')" "rw_inv (2 * N) m' ((flat N P)(u := p'))" by auto
    with g J at(3) [OF a(1)] show ?thesis by (auto simp: re_inv_def)
  qed
  show "re_inv N m (P(t := q))" if r: "re_act (P t) = Wait c v k" "k rv e = Ret q"
  proof -
    obtain j p u where a: "at_point N (P t) t j p u" "re_act (P t) = embed id (\<lambda>s _. s) id j (rw_act p)"
      using re_calls [of "P t" N t] r(1) by auto
    with r obtain d g p' where g: "rw_act p = Wait d v g" "g rv e = Ret p'" "q = j p'"
      by (auto simp: embed_iffs ctl_rules)
    with rw.J_wait [OF J at(2) [OF a(1)], of d v g rv e p'] at(1) [OF a(1)] at(3) [OF a(1)] show ?thesis
      by (simp add: re_inv_def)
  qed
  show "re_inv N m (P(t := q))" if r: "re_act (P t) = Wake c n k'" "k' rv = Ret q"
  proof -
    obtain j p u where a: "at_point N (P t) t j p u" "re_act (P t) = embed id (\<lambda>s _. s) id j (rw_act p)"
      using re_calls [of "P t" N t] r(1) by auto
    with r obtain d g p' where g: "rw_act p = Wake d n g" "g rv = Ret p'" "q = j p'"
      by (auto simp: embed_iffs ctl_rules)
    with rw.J_wake [OF J at(2) [OF a(1)], of d n g rv p'] at(1) [OF a(1)] at(3) [OF a(1)] show ?thesis
      by (simp add: re_inv_def)
  qed
qed

lemma re_stops:
  "re_act q = Wait c v k \<Longrightarrow> k rv e = Stop x \<Longrightarrow> \<exists>msg. x = Critical_error msg"
  "re_act q = Wake c n k' \<Longrightarrow> k' rv = Stop x \<Longrightarrow> \<exists>msg. x = Critical_error msg"
proof -
  show "\<exists>msg. x = Critical_error msg" if "re_act q = Wait c v k" "k rv e = Stop x"
    using that rw.wait_stop by (cases q) (auto simp: embed_iffs ctl_rules split: action.splits if_splits)
  show "\<exists>msg. x = Critical_error msg" if "re_act q = Wake c n k'" "k' rv = Stop x"
    using that rw.wake_stop by (cases q) (auto simp: embed_iffs ctl_rules split: action.splits if_splits)
qed

interpretation re: safety_invariant kw N re_act rw_word "re_inv N" for kw N
  by unfold_locales (blast intro: re_inv_call re_inv_return re_stops)+


section \<open>The rules\<close>

lemma re_reach_safe:
  assumes "reach re_start (re_step kw N) s" and "int (2 * N) < 2 ^ 31"
  shows "re.safe N s"
proof (rule re.machine_reach_inv [OF assms(1)])
  have "flat N (\<lambda>_. Once Idle) = (\<lambda>_. Idle)" by (simp add: flat_def fun_eq_iff)
  then show "re.safe N re_start"
    unfolding re.safe_def using assms(2) rw_inv_init [of "2 * N"] by (simp add: re_inv_def halt_ok_def start_def)
qed

lemma re_writer_alone:
  assumes "re_inv N m P" and "t < N" and "P t = Again h p" and "h = Writing \<or> p = Writing"
  shows "h \<noteq> Reading \<and> p \<noteq> Reading \<and> \<not> (h = Writing \<and> p = Writing)"
  using rw_writer_alone [of "2 * N" m "flat N P" t "N + t"] rw_writer_alone [of "2 * N" m "flat N P" "N + t" t] assms
  by (auto simp: re_inv_def flat_def)

lemma re_two_owners:
  assumes "re_inv N m P" and "x < 2 * N" and "y < 2 * N" and "x \<noteq> y"
  shows "own (flat N P x) + own (flat N P y) \<le> 1"
proof -
  have "own (flat N P x) + own (flat N P y) \<le> (\<Sum>v<2 * N. own (flat N P v))"
    using assms by (intro sum_two_members cnt_bounds)
  also have "\<dots> \<le> 1" using assms(1) by (simp add: re_inv_def rw_inv_def gt.owners_def)
  finally show ?thesis .
qed

text \<open>
  Rule 3: thread \<open>t\<close> holds a read lock and waits at the gate for a second one, and thread
  \<open>u\<close> has passed the gate in its write lock and waits for the readers.
\<close>

definition between :: "nat \<Rightarrow> tid \<Rightarrow> tid \<Rightarrow> (tid \<Rightarrow> re_pc) \<Rightarrow> bool" where
  "between N t u P \<longleftrightarrow> t < N \<and> u < N \<and> t \<noteq> u \<and> (\<exists>p. P t = Again Reading (In_read_lock (RL_enter p))) \<and>
     (\<exists>q. P u = Once (In_write_lock q) \<and> own (In_write_lock q) = 1)"

text \<open>Where the two threads can go next.\<close>

lemma reader_next:
  assumes "P t = Again Reading (In_read_lock (RL_enter p))"
  shows "re_act (P t) = Mem f \<Longrightarrow> f m = (m', Ret q) \<Longrightarrow> (\<exists>p'. q = Again Reading (In_read_lock p') \<and> (p' = RL_add \<or> (\<exists>r. p' = RL_enter r)))"
    and "re_act (P t) = Wait c v k \<Longrightarrow> k rv e = Ret q \<Longrightarrow> \<exists>r. q = Again Reading (In_read_lock (RL_enter r))"
    and "re_act (P t) \<noteq> Wake c n k'" and "re_act (P t) \<noteq> Client ps"
  using assms by (cases p; auto simp: calls_def on_gate_def then_at_def ctl_rules Let_def split: prod.splits if_splits)+

lemma writer_next:
  assumes "P u = Once (In_write_lock q)" and "own (In_write_lock q) = 1"
  shows "re_act (P u) = Mem f \<Longrightarrow> f m = (m', Ret r) \<Longrightarrow> r = Once Writing \<or> (\<exists>q'. r = Once (In_write_lock q') \<and> own (In_write_lock q') = 1)"
    and "re_act (P u) = Wait c v k \<Longrightarrow> k rv e = Ret r \<Longrightarrow> \<exists>q'. r = Once (In_write_lock q') \<and> own (In_write_lock q') = 1"
    and "re_act (P u) \<noteq> Wake c n k'" and "re_act (P u) \<noteq> Client ps"
  using assms by (cases q; auto simp: calls_def ctl_rules Let_def split: prod.splits if_splits)+

lemma between_step:
  assumes inv: "re_inv N m' (P(x := q))" and b: "between N t u P"
    and rd: "x = t \<Longrightarrow> \<exists>p'. q = Again Reading (In_read_lock p') \<and> (p' = RL_add \<or> (\<exists>r. p' = RL_enter r))"
    and wr: "x = u \<Longrightarrow> q = Once Writing \<or> (\<exists>q'. q = Once (In_write_lock q') \<and> own (In_write_lock q') = 1)"
  shows "between N t u (P(x := q))"
proof -
  have tu: "t < N" "u < N" "t \<noteq> u" using b by (auto simp: between_def)
  note own = re_two_owners [OF inv, of "N + t" u] 
  note alone = rw_writer_alone [of "2 * N" m' "flat N (P(x := q))" u t]
  show ?thesis
  proof (cases "x = t")
    case True
    with rd obtain p' where p': "q = Again Reading (In_read_lock p')" "p' = RL_add \<or> (\<exists>r. p' = RL_enter r)" by blast
    have "p' \<noteq> RL_add" using own b tu True p' by (auto simp: between_def flat_def)
    with p' b True show ?thesis by (auto simp: between_def)
  next
    case False
    show ?thesis
    proof (cases "x = u")
      case True
      have "q \<noteq> Once Writing" using alone inv b tu True by (auto simp: between_def flat_def re_inv_def)
      with wr [OF True] b True tu show ?thesis by (auto simp: between_def)
    next
      case False
      with b \<open>x \<noteq> t\<close> show ?thesis by (simp add: between_def)
    qed
  qed
qed

interpretation stuck: safety_invariant kw N re_act rw_word "\<lambda>m P. re_inv N m P \<and> between N t u P" for kw N t u
proof
  fix m P x f
  assume a: "re_inv N m P \<and> between N t u P" "x < N" "re_act (P x) = Mem f"
  obtain m' q where q: "f m = (m', Ret q)" "re_inv N m' (P(x := q))" using re_inv_return(1) a by blast
  have "between N t u (P(x := q))"
    using a q by (intro between_step [OF q(2)]) (auto simp: between_def intro: reader_next(1) dest: writer_next(1))
  with q show "\<exists>m' q. f m = (m', Ret q) \<and> re_inv N m' (P(x := q)) \<and> between N t u (P(x := q))" by blast
next
  fix m P x ps q
  assume a: "re_inv N m P \<and> between N t u P" "x < N" "re_act (P x) = Client ps" "q \<in> set ps"
  have i: "re_inv N m (P(x := q))" using re_inv_call a by blast
  have "x \<noteq> t" "x \<noteq> u" using a reader_next(4) writer_next(4) unfolding between_def by metis+
  with i a between_step [OF i] show "re_inv N m (P(x := q)) \<and> between N t u (P(x := q))" by blast
next
  fix m P x c v k rv e q
  assume a: "re_inv N m P \<and> between N t u P" "x < N" "re_act (P x) = Wait c v k" "k rv e = Ret q"
  have i: "re_inv N m (P(x := q))" using re_inv_return(2) a by blast
  have "between N t u (P(x := q))"
    using a i by (intro between_step [OF i]) (auto simp: between_def dest: reader_next(2) writer_next(2))
  with i show "re_inv N m (P(x := q)) \<and> between N t u (P(x := q))" by blast
next
  fix m P x c n k' rv q
  assume a: "re_inv N m P \<and> between N t u P" "x < N" "re_act (P x) = Wake c n k'" "k' rv = Ret q"
  have i: "re_inv N m (P(x := q))" using re_inv_return(3) a by blast
  have "x \<noteq> t" "x \<noteq> u" using a reader_next(3) writer_next(3) unfolding between_def by metis+
  with i a between_step [OF i] show "re_inv N m (P(x := q)) \<and> between N t u (P(x := q))" by blast
qed (blast intro: re_stops)+

text \<open>
  C25: The rules in the header of the read/write lock, in every interleaving of any number of threads. Rules 2,
  4 and 5: a thread that holds a read lock never gets the write lock from \<open>write_lock\<close>, and a thread that
  holds the write lock never gets a second lock of either kind. Rule 3: when a writer has passed the
  gate between two read locks of one thread, neither the second read lock nor the write lock ever returns.
\<close>

theorem rw_rules:
  assumes "reach re_start (re_step kw N) s" and "int (2 * N) < 2 ^ 31" and "t < N"
  shows "pcs s t \<noteq> Again Reading Writing \<and> pcs s t \<noteq> Again Writing Reading \<and> pcs s t \<noteq> Again Writing Writing \<and>
    (\<forall>u s'. between N t u (pcs s) \<and> reach s (re_step kw N) s' \<longrightarrow> between N t u (pcs s'))"
proof (intro conjI allI impI)
  note safe = re_reach_safe [OF assms(1,2)]
  show "pcs s t \<noteq> Again Reading Writing" "pcs s t \<noteq> Again Writing Reading" "pcs s t \<noteq> Again Writing Writing"
    using re_writer_alone [OF re.J_of_safe [OF safe] assms(3)] by blast+
  fix u s'
  assume b: "between N t u (pcs s) \<and> reach s (re_step kw N) s'"
  with safe have "stuck.safe N t u s" by (simp add: stuck.safe_def re.safe_def)
  with b have "stuck.safe N t u s'" using stuck.machine_reach_inv by blast
  then show "between N t u (pcs s')" by (simp add: stuck.safe_def)
qed


text \<open>Thread 0 holds a read lock, thread 1 starts a write lock, thread 0 asks for a second read lock.\<close>

definition writer_between :: "event list" where
  "writer_between = [Call 0 0, Run 0, Run 0, Run 0, Call 1 1, Run 1, Run 1, Call 0 3, Run 0, Run 0]"

text \<open>From there on thread 1 and thread 0 go to sleep.\<close>

definition both_asleep :: "event list" where
  "both_asleep = [Run 1, Run 0]"

definition nobody_between :: "event list" where
  "nobody_between = [Call 0 0, Run 0, Run 0, Run 0, Call 0 3, Run 0, Run 0, Run 0]"

lemmas re_eval = rw_eval second_lock_def between_def

theorem rw_rules_witness:
  "(\<exists>s s'. run fifo_wake 2 re_act rw_word re_start writer_between = Some s \<and> between 2 0 1 (pcs s) \<and>
      run fifo_wake 2 re_act rw_word s both_asleep = Some s' \<and> between 2 0 1 (pcs s') \<and> stat s' 0 = Sleeping \<and> stat s' 1 = Sleeping) \<and>
   (\<exists>s. run fifo_wake 2 re_act rw_word re_start nobody_between = Some s \<and> pcs s 0 = Again Reading Reading)"
proof
  obtain s where r: "run fifo_wake 2 re_act rw_word re_start writer_between = Some s" and b: "between 2 0 1 (pcs s)"
    and n: "\<exists>s'. run fifo_wake 2 re_act rw_word s both_asleep = Some s' \<and> stat s' 0 = Sleeping \<and> stat s' 1 = Sleeping"
    by (simp add: writer_between_def both_asleep_def re_eval)
  from n obtain s' where s': "run fifo_wake 2 re_act rw_word s both_asleep = Some s'" "stat s' 0 = Sleeping" "stat s' 1 = Sleeping" by blast
  have "between 2 0 1 (pcs s')"
    using rw_rules [OF run_reachable [OF r], of 0] b run_reachable [OF s'(1)] by simp
  with r b s' show "\<exists>s s'. run fifo_wake 2 re_act rw_word re_start writer_between = Some s \<and> between 2 0 1 (pcs s) \<and>
      run fifo_wake 2 re_act rw_word s both_asleep = Some s' \<and> between 2 0 1 (pcs s') \<and> stat s' 0 = Sleeping \<and> stat s' 1 = Sleeping"
    by blast
  show "\<exists>s. run fifo_wake 2 re_act rw_word re_start nobody_between = Some s \<and> pcs s 0 = Again Reading Reading"
    by (simp add: nobody_between_def re_eval)
qed

end
