(* ===== verification/RW_Locks.thy ===== *)
theory RW_Locks
  imports RW_Control
begin

text \<open>
  The lock classes of \<^verbatim>\<open>src/src/bdrwlock.h\<close> over one \<^verbatim>\<open>futex_rw_control\<close>:
  \<^verbatim>\<open>fu_write_lock\<close>, \<^verbatim>\<open>fu_read_lock\<close>, \<^verbatim>\<open>fu_read_modifiable_lock\<close>
  and \<^verbatim>\<open>fu_rw_lock\<close>, which owns the control object and hands the others out. Threads use
  any of the three; a \<^verbatim>\<open>fu_read_modifiable_lock\<close> keeps a flag that says whether the read
  lock has become a write lock. The map \<open>control_point\<close> says at which point of the control
  object's functions a thread is, and every run of the classes is a run of the control object,
  as long as a modifiable lock is used for one lock and unlock.
\<close>

section \<open>The classes\<close>

record fu_read_modifiable_lock =
  write_modified :: bool

record fu_rw_lock =
  control :: futex_rw_control

definition fu_rw_lock_init :: fu_rw_lock where
  "fu_rw_lock_init = \<lparr>control = futex_rw_control_init\<rparr>"

definition make_modifiable_lock :: fu_read_modifiable_lock where
  "make_modifiable_lock = \<lparr>write_modified = False\<rparr>"

definition is_write_lock :: "fu_read_modifiable_lock \<Rightarrow> bool" where
  "is_write_lock lk = write_modified lk"

text \<open>
  Where a thread is: outside, holding one of the three kinds of lock, or inside the member
  function of the control object that the class calls. The points of the modifiable lock carry
  the lock object.
\<close>

datatype fu_pc =
    Outside
  | Read_held | Read_lock_at read_lock_pc | Read_unlock_at read_unlock_pc
  | Write_held | Write_lock_at write_lock_pc | Write_unlock_at write_unlock_pc
  | Mod_held fu_read_modifiable_lock
  | Mod_lock_at fu_read_modifiable_lock read_lock_pc
  | Mod_read_unlock_at fu_read_modifiable_lock read_unlock_pc
  | Mod_write_unlock_at fu_read_modifiable_lock write_unlock_pc
  | Mod_try_at fu_read_modifiable_lock try_modify_pc
  | Mod_modify_at fu_read_modifiable_lock write_modify_pc
  | Mod_free fu_read_modifiable_lock

definition fu_write_lock_lock :: "write_lock_pc \<Rightarrow> (futex_rw_control, fu_pc, rw_cell) action" where
  "fu_write_lock_lock p = calls Write_lock_at (\<lambda>_. Write_held) (write_lock p)"

definition fu_write_lock_unlock :: "write_unlock_pc \<Rightarrow> (futex_rw_control, fu_pc, rw_cell) action" where
  "fu_write_lock_unlock p = calls Write_unlock_at (\<lambda>_. Outside) (write_unlock p)"

definition fu_read_lock_lock :: "read_lock_pc \<Rightarrow> (futex_rw_control, fu_pc, rw_cell) action" where
  "fu_read_lock_lock p = calls Read_lock_at (\<lambda>_. Read_held) (read_lock p)"

definition fu_read_lock_unlock :: "read_unlock_pc \<Rightarrow> (futex_rw_control, fu_pc, rw_cell) action" where
  "fu_read_lock_unlock p = calls Read_unlock_at (\<lambda>_. Outside) (read_unlock p)"

text \<open>
  The modifiable lock. \<open>modifiable_unlock\<close> and \<open>modifiable_try_start\<close> are the tests of the
  flag at the start of \<^verbatim>\<open>unlock\<close> and \<^verbatim>\<open>try_write_modify\<close>; the call that follows, if
  any, continues at the point they give.
\<close>

definition modifiable_lock :: "fu_read_modifiable_lock \<Rightarrow> read_lock_pc \<Rightarrow> (futex_rw_control, fu_pc, rw_cell) action" where
  "modifiable_lock lk p = calls (Mod_lock_at lk) (\<lambda>_. Mod_held lk) (read_lock p)"

definition modifiable_unlock :: "fu_read_modifiable_lock \<Rightarrow> fu_pc" where
  "modifiable_unlock lk =
     (if write_modified lk then Mod_write_unlock_at lk WU_store else Mod_read_unlock_at lk RU_sub)"

definition modifiable_try_start :: "fu_read_modifiable_lock \<Rightarrow> fu_pc" where
  "modifiable_try_start lk = (if \<not> write_modified lk then Mod_try_at lk TM_try else Mod_held lk)"

definition modifiable_try_write_modify :: "fu_read_modifiable_lock \<Rightarrow> try_modify_pc \<Rightarrow> (futex_rw_control, fu_pc, rw_cell) action" where
  "modifiable_try_write_modify lk p =
     calls (Mod_try_at lk) (\<lambda>r. Mod_held (lk\<lparr>write_modified := r\<rparr>)) (try_write_modify p)"

definition modifiable_write_modify :: "fu_read_modifiable_lock \<Rightarrow> write_modify_pc \<Rightarrow> (futex_rw_control, fu_pc, rw_cell) action" where
  "modifiable_write_modify lk p =
     calls (Mod_modify_at lk) (\<lambda>_. Mod_held (lk\<lparr>write_modified := True\<rparr>)) (write_modify p)"

text \<open>
  What callers do. With \<open>reuse\<close> false a modifiable lock object is made for each critical
  section and goes out of scope after its unlock, as \<^verbatim>\<open>make_modifiable_lock\<close> and
  \<^verbatim>\<open>std::lock_guard\<close> suggest; with \<open>reuse\<close> true the caller may lock the same object
  again. \<open>write_modify\<close> is called only on a lock that is not a write lock yet: unlike \<^verbatim>\<open>try_write_modify\<close>
  the code does not test the flag, and such a call would wait for ever for the gate that its own thread owns. This is the
  protocol of the callers, not a translation of code.
\<close>

fun fu_act :: "bool \<Rightarrow> fu_pc \<Rightarrow> (futex_rw_control, fu_pc, rw_cell) action" where
  "fu_act reuse Outside = Client [Read_lock_at (RL_enter EG_first), Write_lock_at (WL_enter EG_first),
     Mod_lock_at make_modifiable_lock (RL_enter EG_first)]"
| "fu_act reuse Read_held = Client [Read_unlock_at RU_sub]"
| "fu_act reuse (Read_lock_at p) = fu_read_lock_lock p"
| "fu_act reuse (Read_unlock_at p) = fu_read_lock_unlock p"
| "fu_act reuse Write_held = Client [Write_unlock_at WU_store]"
| "fu_act reuse (Write_lock_at p) = fu_write_lock_lock p"
| "fu_act reuse (Write_unlock_at p) = fu_write_lock_unlock p"
| "fu_act reuse (Mod_held lk) = Client ([modifiable_unlock lk, modifiable_try_start lk] @
     (if is_write_lock lk then [] else [Mod_modify_at lk WM_sub]))"
| "fu_act reuse (Mod_lock_at lk p) = modifiable_lock lk p"
| "fu_act reuse (Mod_read_unlock_at lk p) = calls (Mod_read_unlock_at lk) (\<lambda>_. Mod_free lk) (read_unlock p)"
| "fu_act reuse (Mod_write_unlock_at lk p) = calls (Mod_write_unlock_at lk) (\<lambda>_. Mod_free lk) (write_unlock p)"
| "fu_act reuse (Mod_try_at lk p) = modifiable_try_write_modify lk p"
| "fu_act reuse (Mod_modify_at lk p) = modifiable_write_modify lk p"
| "fu_act reuse (Mod_free lk) =
     Client (Outside # (if reuse then [Mod_lock_at lk (RL_enter EG_first)] else []))"

abbreviation fu_start :: "(futex_rw_control, fu_pc) conf" where
  "fu_start \<equiv> start (control fu_rw_lock_init) Outside"

section \<open>The classes run the control object\<close>

fun control_point :: "fu_pc \<Rightarrow> rw_pc" where
  "control_point Outside = Idle"
| "control_point Read_held = Reading"
| "control_point (Read_lock_at p) = In_read_lock p"
| "control_point (Read_unlock_at p) = In_read_unlock p"
| "control_point Write_held = Writing"
| "control_point (Write_lock_at p) = In_write_lock p"
| "control_point (Write_unlock_at p) = In_write_unlock p"
| "control_point (Mod_held lk) = (if is_write_lock lk then Writing else Reading)"
| "control_point (Mod_lock_at lk p) = In_read_lock p"
| "control_point (Mod_read_unlock_at lk p) = In_read_unlock p"
| "control_point (Mod_write_unlock_at lk p) = In_write_unlock p"
| "control_point (Mod_try_at lk p) = In_try_write_modify p"
| "control_point (Mod_modify_at lk p) = In_write_modify p"
| "control_point (Mod_free lk) = Idle"

fun flag_clear :: "fu_pc \<Rightarrow> bool" where
  "flag_clear (Mod_lock_at lk p) = (\<not> write_modified lk)"
| "flag_clear _ = True"

lemmas fu_ops = fu_write_lock_lock_def fu_write_lock_unlock_def fu_read_lock_lock_def
  fu_read_lock_unlock_def modifiable_lock_def modifiable_unlock_def modifiable_try_start_def
  modifiable_try_write_modify_def modifiable_write_modify_def is_write_lock_def make_modifiable_lock_def

definition in_call :: "fu_pc \<Rightarrow> bool" where
  "in_call p \<longleftrightarrow> (\<exists>q. p = Read_lock_at q) \<or> (\<exists>q. p = Read_unlock_at q) \<or> (\<exists>q. p = Write_lock_at q) \<or>
     (\<exists>q. p = Write_unlock_at q) \<or> (\<exists>lk q. p = Mod_lock_at lk q) \<or> (\<exists>lk q. p = Mod_read_unlock_at lk q) \<or>
     (\<exists>lk q. p = Mod_write_unlock_at lk q) \<or> (\<exists>lk q. p = Mod_try_at lk q) \<or> (\<exists>lk q. p = Mod_modify_at lk q)"

lemma in_call_same:
  assumes "in_call p" and "flag_clear p"
  shows "rw_act (control_point p) = embed id (\<lambda>s _. s) id control_point (fu_act reuse p)"
  using assms unfolding in_call_def
  by (auto simp: fu_ops embed_calls)

lemma in_call_good:
  assumes "in_call p" and "flag_clear p"
  shows "fu_act reuse p = Mem F \<Longrightarrow> F m = (m', Ret q) \<Longrightarrow> flag_clear q"
    and "fu_act reuse p = Wait c v k \<Longrightarrow> k rv e = Ret q \<Longrightarrow> flag_clear q"
    and "fu_act reuse p = Wake c n k' \<Longrightarrow> k' rv = Ret q \<Longrightarrow> flag_clear q"
    and "fu_act reuse p = Client ps \<Longrightarrow> q \<in> set ps \<Longrightarrow> flag_clear q"
  using assms unfolding in_call_def
  by (auto simp: fu_ops elim!: calls_result [where G = flag_clear, rotated 2])

lemma not_in_call:
  assumes "\<not> in_call p"
  shows "\<exists>ps ps'. fu_act False p = Client ps \<and> rw_act (control_point p) = Client ps' \<and>
    (\<forall>q\<in>set ps. (control_point q = control_point p \<or> control_point q \<in> set ps') \<and> flag_clear q)"
  using assms by (cases p) (auto simp: in_call_def fu_ops)

interpretation fu: machine_map kw N "fu_act False" rw_act rw_word control_point flag_clear for kw N
proof
  show "rw_act (control_point p) = embed id (\<lambda>s _. s) id control_point (fu_act False p)"
    if "flag_clear p" "\<And>ps. fu_act False p \<noteq> Client ps" for p
    using that in_call_same not_in_call by blast
  show "\<exists>ps'. rw_act (control_point p) = Client ps' \<and>
      (\<forall>q\<in>set ps. control_point q = control_point p \<or> control_point q \<in> set ps')"
    if "flag_clear p" "fu_act False p = Client ps" for p ps
  proof (cases "in_call p")
    case True
    from in_call_same [OF True that(1), of False] that(2) show ?thesis by simp
  next
    case False
    with that not_in_call [OF False] show ?thesis by auto
  qed
  show "flag_clear q" if "flag_clear p" "fu_act False p = Client ps" "q \<in> set ps" for p ps q
    using that in_call_good(4) not_in_call [of p] by (cases "in_call p") auto
  show "flag_clear q" if "flag_clear p" "fu_act False p = Mem f" "f m = (m', Ret q)" for p f m m' q
    using that in_call_good(1) not_in_call [of p] by (cases "in_call p") auto
  show "flag_clear q" if "flag_clear p" "fu_act False p = Wait c v k" "k rv e = Ret q" for p c v k rv e q
    using that in_call_good(2) not_in_call [of p] by (cases "in_call p") auto
  show "flag_clear q" if "flag_clear p" "fu_act False p = Wake c n k'" "k' rv = Ret q" for p c n k' rv q
    using that in_call_good(3) not_in_call [of p] by (cases "in_call p") auto
qed

lemma fu_reach_rw:
  assumes "reach fu_start (mstep kw N (fu_act False) rw_word) s"
  shows "reach rw_start (rw_step kw N) (fu.below s)"
proof -
  have "fu.settled fu_start" by (simp add: fu.settled_def)
  then have "reach (fu.below fu_start) (rw_step kw N) (fu.below s)"
    using assms by (rule_tac fu.reach_below)
  moreover have "fu.below fu_start = rw_start"
    by (simp add: fu.below_def start_def fu_rw_lock_init_def)
  ultimately show ?thesis by simp
qed

section \<open>What the classes guarantee\<close>

fun writes_through :: "fu_pc \<Rightarrow> bool" where
  "writes_through Write_held = True"
| "writes_through (Mod_held lk) = is_write_lock lk"
| "writes_through _ = False"

fun holds :: "fu_pc \<Rightarrow> bool" where
  "holds Read_held = True"
| "holds Write_held = True"
| "holds (Mod_held lk) = True"
| "holds _ = False"

text \<open>
  C21: The lock classes. For threads that use \<^verbatim>\<open>fu_read_lock\<close>, \<^verbatim>\<open>fu_write_lock\<close> and
  a fresh \<^verbatim>\<open>fu_read_modifiable_lock\<close> per critical section in any mix: while one of them has
  a write lock, or a modifiable lock whose \<^verbatim>\<open>is_write_lock()\<close> is true, no other thread holds
  any lock; and no assertion of the library fails.
\<close>

theorem fu_locks_exclusion:
  assumes "reach fu_start (mstep kw N (fu_act False) rw_word) s" and "int N < 2 ^ 31"
    and "t < N" and "u < N" and "t \<noteq> u" and "writes_through (pcs s t)"
  shows "\<not> holds (pcs s u) \<and> (halted s = None \<or> (\<exists>msg. halted s = Some (Critical_error msg)))"
proof -
  note r = fu_reach_rw [OF assms(1)]
  note inv = rw_reach_safe [OF r assms(2)]
  have w: "control_point (pcs s t) = Writing"
    using assms(6) by (cases "pcs s t") auto
  have "control_point (pcs s u) \<noteq> Writing \<and> control_point (pcs s u) \<noteq> Reading"
    using rw_writer_alone [OF inv(1) assms(3-5)] w by simp
  then have "\<not> holds (pcs s u)"
    by (cases "pcs s u") (auto split: if_splits)
  with inv(2) show ?thesis
    by (auto simp: halt_ok_def split: option.splits fault.splits)
qed

definition fu_mod_run :: "event list" where
  "fu_mod_run = [Call 0 2, Run 0, Run 0, Run 0, Call 0 1, Run 0, Run 0, Run 0, Call 1 0, Run 1, Run 1, Run 1]"

lemmas fu_eval = rw_eval fu_rw_lock_init_def fu_ops

theorem fu_locks_exclusion_witness:
  "\<exists>s. run fifo_wake 2 (fu_act False) rw_word fu_start fu_mod_run = Some s \<and>
     writes_through (pcs s 0) \<and> stat s 1 = Sleeping \<and> \<not> holds (pcs s 1)"
proof -
  obtain s where r: "run fifo_wake 2 (fu_act False) rw_word fu_start fu_mod_run = Some s"
    and s: "writes_through (pcs s 0)" "stat s 1 = Sleeping"
    by (simp add: fu_mod_run_def fu_eval)
  with fu_locks_exclusion [OF run_reachable [OF r], of 0 1] show ?thesis by simp
qed


definition fu_reuse_run :: "event list" where
  "fu_reuse_run = [Call 0 2, Run 0, Run 0, Run 0, Call 0 1, Run 0, Run 0, Run 0, Call 0 0, Run 0, Run 0,
     Call 1 0, Run 1, Run 1, Run 1]"


end
