(* ===== verification/Fu_Lock.thy ===== *)
theory Fu_Lock
  imports Futex
begin

unbundle bit_operations_syntax

text \<open>
  \<^verbatim>\<open>fu_lock\<close> (\<^verbatim>\<open>src/src/bdlock.h\<close>, \<^verbatim>\<open>bdlock.cpp\<close>): a lock in one word that holds the
  thread id of its owner, on the priority-inheritance futex operations. First the two member
  functions as the code has them, over the system call of theory \<open>Futex\<close>; then a machine of
  interleaved threads, made of the same definitions, in which the system call is three kinds of step: the kernel
  marks the word when it blocks a caller, the kernel ends the operation, and the call
  returns. What the kernel does when it ends an operation is a pair of relations
  with the laws the manual page gives (\<open>pi_kernel\<close>).
\<close>

section \<open>The member functions\<close>

record fu_lock =
  gate_addr :: nat  \<comment> \<open>the address of the member \<^verbatim>\<open>gate\<close>, whose word starts as 0\<close>

definition lock_text :: "string option" where "lock_text = Some ''benedias::fu_lock::lock()''"
definition unlock_text :: "string option" where "unlock_text = Some ''benedias::fu_lock::unlock()''"

definition fu_lock_lock :: "'k futex_syscall \<Rightarrow> critical_error \<Rightarrow> i32 \<Rightarrow> fu_lock \<Rightarrow> 'k world \<Rightarrow> 'k world ctl" where
  "fu_lock_lock sys crit tid lk w =
     bnd (futex_lock_pi sys crit tid (gate_addr lk) lock_text w) (\<lambda>(rv, w'). Ret w')"

text \<open>The \<^verbatim>\<open>switch\<close> of \<^verbatim>\<open>unlock\<close> on the result of \<^verbatim>\<open>futex_unlock_pi\<close>.\<close>

definition unlock_switch :: "int \<Rightarrow> unit ctl" where
  "unlock_switch rv =
     (if rv = futex_op_success then Ret ()
      else if rv = futex_op_failed then check True ''true''
      else if rv = futex_op_invalid
      then Stop (Uncaught ''unlock attempted without prior locking'')
      else Ret ())"

definition fu_lock_unlock :: "'k futex_syscall \<Rightarrow> critical_error \<Rightarrow> i32 \<Rightarrow> fu_lock \<Rightarrow> 'k world \<Rightarrow> 'k world ctl" where
  "fu_lock_unlock sys crit tid lk w =
     bnd (futex_unlock_pi sys crit tid (gate_addr lk) unlock_text w)
       (\<lambda>(rv, w'). bnd (unlock_switch rv) (\<lambda>_. Ret w'))"

section \<open>Interleaved threads\<close>

text \<open>
  A thread, named by its kernel thread id, is outside, in \<^verbatim>\<open>FUTEX_LOCK_PI\<close> (before or after the
  kernel has ended the operation), inside the critical section, or in \<^verbatim>\<open>FUTEX_UNLOCK_PI\<close>
  (before or after).
\<close>

datatype pi_pc = Unlocked | Locking | Lock_done int errno | Locked | Unlocking | Unlock_done int errno

record pi_conf =
  word :: i32
  at :: "i32 \<Rightarrow> pi_pc"
  halt :: "fault option"

definition pi_goto :: "i32 \<Rightarrow> i32 \<Rightarrow> pi_pc ctl \<Rightarrow> pi_conf \<Rightarrow> pi_conf" where
  "pi_goto t g c s = (case c of
       Ret p \<Rightarrow> s\<lparr>word := g, at := (at s)(t := p)\<rparr>
     | Stop x \<Rightarrow> s\<lparr>word := g, halt := Some x\<rparr>)"

datatype pi_event = Lock i32 | Block i32 | Lock_kernel i32 int errno i32 | Unlock i32 | Unlock_kernel i32 int errno i32 | Return i32

text \<open>
  The kernel: when it blocks a caller of \<^verbatim>\<open>FUTEX_LOCK_PI\<close> it sets \<^verbatim>\<open>FUTEX_WAITERS\<close> in the word of the owner
  (event \<open>Block\<close>). \<open>kl t g rv e g'\<close> says that it may end \<^verbatim>\<open>FUTEX_LOCK_PI\<close> of thread \<open>t\<close> with
  the result \<open>rv\<close> and \<^verbatim>\<open>errno\<close> \<open>e\<close>, changing the word from \<open>g\<close> to \<open>g'\<close>;
  \<open>ku\<close> is the same for \<^verbatim>\<open>FUTEX_UNLOCK_PI\<close> and also sees which threads are blocked.
\<close>

type_synonym lock_kernel = "i32 \<Rightarrow> i32 \<Rightarrow> int \<Rightarrow> errno \<Rightarrow> i32 \<Rightarrow> bool"
type_synonym unlock_kernel = "i32 \<Rightarrow> (i32 \<Rightarrow> bool) \<Rightarrow> i32 \<Rightarrow> int \<Rightarrow> errno \<Rightarrow> i32 \<Rightarrow> bool"

definition owner :: "i32 \<Rightarrow> i32" where
  "owner g = g AND MASK_OUT_FUTEX_WAITERS"

fun pi_exec :: "lock_kernel \<Rightarrow> unlock_kernel \<Rightarrow> pi_conf \<Rightarrow> pi_event \<Rightarrow> pi_conf option" where
  "pi_exec kl ku s (Lock t) =
     (if halt s = None \<and> valid_tid t \<and> at s t = Unlocked
      then let (ok, g) = futex_lock_pi_start t (word s) in Some (pi_goto t g (Ret (if ok then Locked else Locking)) s)
      else None)"
| "pi_exec kl ku s (Block t) =
     (if halt s = None \<and> at s t = Locking \<and> owner (word s) \<noteq> 0
      then Some (s\<lparr>word := word s OR FUTEX_WAITERS\<rparr>) else None)"
| "pi_exec kl ku s (Lock_kernel t rv e g) =
     (if halt s = None \<and> at s t = Locking \<and> kl t (word s) rv e g
      then Some (pi_goto t g (Ret (Lock_done rv e)) s) else None)"
| "pi_exec kl ku s (Unlock t) =
     (if halt s = None \<and> at s t = Locked
      then let (r, g) = futex_unlock_pi_start t (word s)
           in Some (pi_goto t g (case r of
                Some rv \<Rightarrow> bnd (unlock_switch rv) (\<lambda>_. Ret Unlocked) | None \<Rightarrow> Ret Unlocking) s)
      else None)"
| "pi_exec kl ku s (Unlock_kernel t rv e g) =
     (if halt s = None \<and> at s t = Unlocking \<and> ku t (\<lambda>u. at s u = Locking) (word s) rv e g
      then Some (pi_goto t g (Ret (Unlock_done rv e)) s) else None)"
| "pi_exec kl ku s (Return t) =
     (if halt s = None
      then (case at s t of
          Lock_done rv e \<Rightarrow> Some (pi_goto t (word s)
            (bnd (futex_pi_ret futex_critical_error lock_text rv e) (\<lambda>_. Ret Locked)) s)
        | Unlock_done rv e \<Rightarrow> Some (pi_goto t (word s)
            (bnd (futex_pi_ret futex_critical_error unlock_text rv e)
              (\<lambda>rv. bnd (unlock_switch rv) (\<lambda>_. Ret Unlocked))) s)
        | _ \<Rightarrow> None)
      else None)"

definition pi_step :: "lock_kernel \<Rightarrow> unlock_kernel \<Rightarrow> pi_conf \<Rightarrow> pi_conf \<Rightarrow> bool" where
  "pi_step kl ku s s' \<longleftrightarrow> (\<exists>ev. pi_exec kl ku s ev = Some s')"

definition pi_start :: pi_conf where
  "pi_start = \<lparr>word = 0, at = (\<lambda>_. Unlocked), halt = None\<rparr>"

fun pi_run :: "lock_kernel \<Rightarrow> unlock_kernel \<Rightarrow> pi_conf \<Rightarrow> pi_event list \<Rightarrow> pi_conf option" where
  "pi_run kl ku s [] = Some s"
| "pi_run kl ku s (ev # evs) =
     (case pi_exec kl ku s ev of None \<Rightarrow> None | Some s' \<Rightarrow> pi_run kl ku s' evs)"

text \<open>
  What the manual page promises: \<^verbatim>\<open>FUTEX_LOCK_PI\<close> ends with 0 only when the caller became
  the owner of a free word (or was handed the word by the previous owner's unlock) and otherwise
  leaves the owner alone; \<^verbatim>\<open>FUTEX_UNLOCK_PI\<close> frees the caller's word or hands it to a blocked
  thread. Apart from the owner the kernel sets only \<^verbatim>\<open>FUTEX_WAITERS\<close> (no owner dies).
\<close>

definition pi_kernel :: "lock_kernel \<Rightarrow> unlock_kernel \<Rightarrow> bool" where
  "pi_kernel kl ku \<longleftrightarrow>
     (\<forall>t g rv e g'. kl t g rv e g' \<longrightarrow>
        (if rv = 0 then (owner g = 0 \<or> owner g = t) \<and> owner g' = t else owner g' = owner g)) \<and>
     (\<forall>t b g rv e g'. ku t b g rv e g' \<longrightarrow>
        (if rv = 0 then owner g = t \<and> (g' = 0 \<or> b (owner g')) else owner g' = owner g))"

text \<open>
  The manual page also says that \<^verbatim>\<open>FUTEX_LOCK_PI\<close> can end with \<^verbatim>\<open>EAGAIN\<close>, and that the caller must try again
  then. \<open>retry\<close> marks the events in which it ends so, or with \<^verbatim>\<open>EINTR\<close>; \<open>pi_quiet\<close> is a
  step without such an event.
\<close>

fun retry :: "pi_event \<Rightarrow> bool" where
  "retry (Lock_kernel t rv e g) = (rv \<noteq> 0 \<and> (e = EINTR \<or> e = EAGAIN))"
| "retry _ = False"

definition pi_quiet :: "lock_kernel \<Rightarrow> unlock_kernel \<Rightarrow> pi_conf \<Rightarrow> pi_conf \<Rightarrow> bool" where
  "pi_quiet kl ku s s' \<longleftrightarrow> (\<exists>ev. \<not> retry ev \<and> pi_exec kl ku s ev = Some s')"

text \<open>The points at which the word belongs to a thread.\<close>

fun owning :: "pi_pc \<Rightarrow> bool" where
  "owning (Lock_done rv e) = (rv = 0)"
| "owning Locked = True"
| "owning Unlocking = True"
| "owning _ = False"

fun no_retry :: "pi_pc \<Rightarrow> bool" where
  "no_retry (Lock_done rv e) = (rv = 0 \<or> e \<noteq> EINTR \<and> e \<noteq> EAGAIN)"
| "no_retry _ = True"

definition pi_inv :: "pi_conf \<Rightarrow> bool" where
  "pi_inv s \<longleftrightarrow>
     (\<forall>t. at s t \<noteq> Unlocked \<longrightarrow> valid_tid t) \<and>
     (\<forall>t. owning (at s t) \<longrightarrow> owner (word s) = t) \<and> (\<forall>t. no_retry (at s t)) \<and>
     (case halt s of None \<Rightarrow> True | Some (Critical_error _) \<Rightarrow> True | _ \<Rightarrow> False)"

section \<open>Lemmas\<close>

lemma owner_tid: "valid_tid t \<Longrightarrow> owner t = t"
  unfolding owner_def by (rule valid_tid_waiters(2))

lemma owner_zero [simp]: "owner 0 = 0"
  by (simp add: owner_def)

lemma owner_waiters [simp]: "owner (g OR FUTEX_WAITERS) = owner g"
  unfolding owner_def by (rule bit_word_eqI) (auto simp: bit_and_iff bit_or_iff waiters_mask_bit flag_bits)

lemma valid_tid_nonzero: "valid_tid t \<Longrightarrow> t \<noteq> 0"
  by (simp add: valid_tid_def)

lemma pi_goto_simps [simp]:
  "pi_goto t g (Ret p) s = s\<lparr>word := g, at := (at s)(t := p)\<rparr>"
  "pi_goto t g (Stop x) s = s\<lparr>word := g, halt := Some x\<rparr>"
  by (simp_all add: pi_goto_def)

lemma unlock_switch_ok [simp]: "unlock_switch 0 = Ret ()" "unlock_switch (-1) = Ret ()"
  "unlock_switch futex_op_invalid = Stop (Uncaught ''unlock attempted without prior locking'')"
  by (simp_all add: unlock_switch_def futex_op_success_def futex_op_failed_def futex_op_invalid_def check_def)

lemma unlock_start_owner:
  assumes "owner g = t"
  shows "futex_unlock_pi_start t g = (if g = t then (Some 0, 0) else (None, g))"
  using assms by (auto simp: futex_unlock_pi_start_def atomics owner_def)

lemma unlock_start_other:
  assumes "owner g \<noteq> t" and "valid_tid t"
  shows "futex_unlock_pi_start t g = (Some futex_op_invalid, g)"
  using assms owner_tid [of t] by (auto simp: futex_unlock_pi_start_def atomics owner_def)

lemma pi_inv_init: "pi_inv pi_start"
  by (simp add: pi_inv_def pi_start_def)

lemma pi_inv_alone:
  assumes "pi_inv s" and "owner (word s) = t \<or> owner (word s) = 0" and "u \<noteq> t"
  shows "\<not> owning (at s u)"
proof
  assume "owning (at s u)"
  then have "owner (word s) = u" "valid_tid u" using assms(1) unfolding pi_inv_def by (metis owning.simps(4))+
  then show False using assms(2,3) by (auto simp: valid_tid_def)
qed

text \<open>Thread \<open>t\<close>, which owns the word or finds it free, moves to \<open>p\<close> and leaves \<open>g\<close> in the word.\<close>

lemma pi_inv_move:
  assumes "pi_inv s" and "valid_tid t" and "owner (word s) = t \<or> owner (word s) = 0"
    and "owning p \<Longrightarrow> owner g = t" and "no_retry p"
  shows "pi_inv (pi_goto t g (Ret p) s)"
  using assms pi_inv_alone [OF assms(1,3)] by (auto simp: pi_inv_def)

text \<open>Any thread moves to a point at which it does not own the word, or stays what it was.\<close>

lemma pi_inv_same_owner:
  assumes "pi_inv s" and "valid_tid t" and "owner g = owner (word s)" and "owning p \<longrightarrow> owning (at s t)" and "no_retry p"
  shows "pi_inv (pi_goto t g (Ret p) s)"
  using assms by (auto simp: pi_inv_def)

lemma pi_inv_stop:
  assumes "pi_inv s"
  shows "pi_inv (pi_goto t (word s) (Stop (Critical_error m)) s)"
  using assms by (auto simp: pi_inv_def)

lemma pi_ret_cases:
  obtains "futex_pi_ret futex_critical_error txt rv e = Ret 0" "rv = 0 \<or> e = EINTR \<or> e = EAGAIN"
  | m where "futex_pi_ret futex_critical_error txt rv e = Stop (Critical_error m)" "rv \<noteq> 0"
proof (cases "rv = 0 \<or> e = EINTR \<or> e = EAGAIN")
  case True
  then have "futex_pi_ret futex_critical_error txt rv e = Ret 0" by (auto simp: futex_pi_ret_def)
  with True that(1) show ?thesis by blast
next
  case False
  then obtain m where "futex_pi_ret futex_critical_error txt rv e = Stop (Critical_error m)"
    by (auto simp: futex_pi_ret_def futex_critical_error_def default_futex_critical_error_def)
  with False that(2) show ?thesis by blast
qed

lemma pi_exec_inv:
  assumes k: "pi_kernel kl ku" and inv: "pi_inv s" and nr: "\<not> retry ev" and ex: "pi_exec kl ku s ev = Some s'"
  shows "pi_inv s'"
proof (cases ev)
  case (Lock t)
  with ex have t: "valid_tid t" "at s t = Unlocked"
    and s': "s' = (let (ok, g) = futex_lock_pi_start t (word s) in pi_goto t g (Ret (if ok then Locked else Locking)) s)"
    by (auto split: if_splits prod.splits)
  show ?thesis
  proof (cases "word s = 0")
    case True
    with s' have "s' = pi_goto t t (Ret Locked) s" by (simp add: futex_lock_pi_start_def atomics)
    moreover have "pi_inv (pi_goto t t (Ret Locked) s)" by (rule pi_inv_move) (use True t inv in \<open>simp_all add: owner_tid\<close>)
    ultimately show ?thesis by simp
  next
    case False
    with s' have "s' = pi_goto t (word s) (Ret Locking) s" by (simp add: futex_lock_pi_start_def atomics)
    moreover have "pi_inv (pi_goto t (word s) (Ret Locking) s)" by (rule pi_inv_same_owner) (use t inv in simp_all)
    ultimately show ?thesis by simp
  qed
next
  case (Block t)
  with ex inv show ?thesis by (auto simp: pi_inv_def split: if_splits)
next
  case (Lock_kernel t rv e g)
  with ex have t: "at s t = Locking" "kl t (word s) rv e g" and s': "s' = pi_goto t g (Ret (Lock_done rv e)) s"
    by (auto split: if_splits)
  have v: "valid_tid t" using inv t(1) unfolding pi_inv_def by (metis pi_pc.distinct(1))
  have nr': "no_retry (Lock_done rv e)" using nr Lock_kernel by auto
  show ?thesis unfolding s'
  proof (cases "rv = 0")
    case True
    with t k have "owner (word s) = t \<or> owner (word s) = 0" "owner g = t" unfolding pi_kernel_def by metis+
    then show "pi_inv (pi_goto t g (Ret (Lock_done rv e)) s)" by (intro pi_inv_move [OF inv v]) (use nr' in simp_all)
  next
    case False
    with t k have "owner g = owner (word s)" unfolding pi_kernel_def by metis
    then show "pi_inv (pi_goto t g (Ret (Lock_done rv e)) s)" by (rule pi_inv_same_owner [OF inv v]) (use False nr' in simp_all)
  qed
next
  case (Unlock t)
  then have t: "at s t = Locked" using ex by (auto split: if_splits)
  then have v: "valid_tid t" and o: "owner (word s) = t" using inv unfolding pi_inv_def by (metis pi_pc.distinct(5), metis owning.simps(2))
  have "s' = (if word s = t then pi_goto t 0 (Ret Unlocked) s else pi_goto t (word s) (Ret Unlocking) s)"
    using ex Unlock o by (auto simp: unlock_start_owner split: if_splits)
  moreover have "pi_inv (pi_goto t 0 (Ret Unlocked) s)" "pi_inv (pi_goto t (word s) (Ret Unlocking) s)"
    by (rule pi_inv_move [OF inv v]; use o in simp)+
  ultimately show ?thesis by presburger
next
  case (Unlock_kernel t rv e g)
  with ex have t: "at s t = Unlocking" "ku t (\<lambda>u. at s u = Locking) (word s) rv e g" and s': "s' = pi_goto t g (Ret (Unlock_done rv e)) s"
    by (auto split: if_splits)
  have v: "valid_tid t" and o: "owner (word s) = t" using inv t(1) unfolding pi_inv_def by (metis pi_pc.distinct(7), metis owning.simps(3))
  then show ?thesis unfolding s' by (intro pi_inv_move [OF inv v]) simp_all
next
  case (Return t)
  then consider (lock) rv e where "at s t = Lock_done rv e"
      "s' = pi_goto t (word s) (bnd (futex_pi_ret futex_critical_error lock_text rv e) (\<lambda>_. Ret Locked)) s"
    | (unlock) rv e where "at s t = Unlock_done rv e"
      "s' = pi_goto t (word s) (bnd (futex_pi_ret futex_critical_error unlock_text rv e) (\<lambda>rv. bnd (unlock_switch rv) (\<lambda>_. Ret Unlocked))) s"
    using ex by (auto split: if_splits pi_pc.splits)
  then show ?thesis
  proof cases
    case lock
    then have v: "valid_tid t" and n: "no_retry (Lock_done rv e)" using inv unfolding pi_inv_def by (metis pi_pc.distinct(3), metis)
    show ?thesis
    proof (cases rule: pi_ret_cases [of lock_text rv e])
      case 1
      then have "rv = 0" using n by auto
      then have "pi_inv (pi_goto t (word s) (Ret Locked) s)" by (intro pi_inv_same_owner [OF inv v]) (use lock in simp_all)
      with lock 1 show ?thesis by simp
    next
      case (2 m)
      with lock pi_inv_stop [OF inv] show ?thesis by simp
    qed
  next
    case unlock
    then have v: "valid_tid t" using inv unfolding pi_inv_def by (metis pi_pc.distinct(9))
    have u: "pi_inv (pi_goto t (word s) (Ret Unlocked) s)" by (rule pi_inv_same_owner [OF inv v]) simp_all
    show ?thesis
      by (cases rule: pi_ret_cases [of unlock_text rv e]) (use unlock u pi_inv_stop [OF inv] in simp_all)
  qed
qed

interpretation pi_machine: invariant_system pi_start "pi_quiet kl ku" "\<lambda>s. pi_kernel kl ku \<longrightarrow> pi_inv s" for kl ku
  by unfold_locales (auto simp: pi_inv_init pi_quiet_def intro: pi_exec_inv)

lemma pi_reach_inv:
  assumes "reach pi_start (pi_quiet kl ku) s" and "pi_kernel kl ku"
  shows "pi_inv s"
  using pi_machine.reach_inv [OF assms(1)] assms(2) by blast

lemma pi_run_quiet:
  assumes "reach pi_start (pi_quiet kl ku) s" and "pi_run kl ku s evs = Some s'" and "\<forall>ev\<in>set evs. \<not> retry ev"
  shows "reach pi_start (pi_quiet kl ku) s'"
  using assms
proof (induction evs arbitrary: s)
  case (Cons ev evs)
  then obtain s1 where "pi_exec kl ku s ev = Some s1" "pi_run kl ku s1 evs = Some s'"
    by (auto split: option.splits)
  with Cons show ?case by (metis list.set_intros(1,2) pi_quiet_def reach_step)
qed simp

text \<open>The kernel that does all that the laws allow; \<open>again\<close> lets \<^verbatim>\<open>FUTEX_LOCK_PI\<close> end with \<^verbatim>\<open>EAGAIN\<close>.\<close>

definition plain_lock_kernel :: "bool \<Rightarrow> lock_kernel" where
  "plain_lock_kernel again t g rv e g' \<longleftrightarrow>
     rv = 0 \<and> (owner g = 0 \<or> owner g = t) \<and> owner g' = t \<or> again \<and> rv = -1 \<and> e = EAGAIN \<and> g' = g"

definition plain_unlock_kernel :: unlock_kernel where
  "plain_unlock_kernel t b g rv e g' \<longleftrightarrow> rv = 0 \<and> owner g = t \<and> (g' = 0 \<or> b (owner g'))"

lemma plain_kernel_ok: "pi_kernel (plain_lock_kernel again) plain_unlock_kernel"
  by (auto simp: pi_kernel_def plain_lock_kernel_def plain_unlock_kernel_def)

lemma small_tids: "valid_tid 7" "valid_tid 9" "owner 7 = 7" "owner 9 = 9" "(7 :: i32) OR FUTEX_WAITERS \<noteq> 7"
proof -
  show "valid_tid 7" "valid_tid 9"
    by (simp_all add: valid_tid_def FUTEX_TID_MASK_def)
  then show "owner 7 = 7" "owner 9 = 9" by (simp_all add: owner_tid)
  show "(7 :: i32) OR FUTEX_WAITERS \<noteq> 7" by (simp add: FUTEX_WAITERS_def)
qed

lemmas pi_eval = pi_start_def futex_lock_pi_start_def atomics unlock_start_owner unlock_start_other small_tids
  plain_lock_kernel_def plain_unlock_kernel_def futex_pi_ret_def

section \<open>What fu_lock guarantees\<close>

text \<open>
  C17: Mutual exclusion of \<^verbatim>\<open>fu_lock\<close>. With a kernel that follows the documented rules, in
  every interleaving in which no \<^verbatim>\<open>FUTEX_LOCK_PI\<close> has asked for a retry so far, at most one thread is inside the critical
  section, the word names it, and the thread that locked can unlock, through the system call if others wait: no call throws.
\<close>

theorem fu_lock_exclusion:
  assumes "reach pi_start (pi_quiet kl ku) s" and "pi_kernel kl ku"
  shows "(at s t = Locked \<longrightarrow> owner (word s) = t \<and> (\<forall>u. at s u = Locked \<longrightarrow> u = t)) \<and>
    (\<forall>msg. halt s \<noteq> Some (Uncaught msg))"
proof -
  have o: "owning (at s u) \<Longrightarrow> owner (word s) = u" for u using pi_reach_inv [OF assms] by (simp add: pi_inv_def)
  have "halt s \<noteq> Some (Uncaught msg)" for msg using pi_reach_inv [OF assms] by (auto simp: pi_inv_def)
  moreover have "u = t" if "at s t = Locked" "at s u = Locked" for u using o [of t] o [of u] that by simp
  ultimately show ?thesis using o [of t] by simp
qed

definition pi_two_threads :: "pi_event list" where
  "pi_two_threads = [Lock 7, Lock 9, Block 9, Unlock 7, Unlock_kernel 7 0 (Errno 0) 9, Return 7, Lock_kernel 9 0 (Errno 0) 9, Return 9]"

theorem fu_lock_exclusion_witness:
  "\<exists>s. pi_run (plain_lock_kernel True) plain_unlock_kernel pi_start pi_two_threads = Some s \<and>
     at s 9 = Locked \<and> owner (word s) = 9 \<and> (\<forall>u. at s u = Locked \<longrightarrow> u = 9)"
proof -
  obtain s where r: "pi_run (plain_lock_kernel True) plain_unlock_kernel pi_start pi_two_threads = Some s"
    and s: "at s 9 = Locked"
    by (simp add: pi_two_threads_def pi_eval)
  have "\<forall>ev\<in>set pi_two_threads. \<not> retry ev" by (simp add: pi_two_threads_def)
  with fu_lock_exclusion [OF pi_run_quiet [OF reach_init r] plain_kernel_ok, of 9] r s show ?thesis
    by blast
qed

text \<open>
  C36: A return of \<^verbatim>\<open>EAGAIN\<close> breaks the lock. \<open>futex_lock_pi\<close> reports success when the
  kernel asks for a retry and \<^verbatim>\<open>fu_lock::lock\<close> does not look at the result: with a kernel
  that follows the documented rules, two threads are in the critical section at once, and the
  unlock of the one that does not own the word throws.
\<close>

definition pi_retry_run :: "pi_event list" where
  "pi_retry_run = [Lock 7, Lock 9, Lock_kernel 9 (-1) EAGAIN 7, Return 9]"

theorem fu_lock_retry_unsafe:
  "pi_kernel (plain_lock_kernel True) plain_unlock_kernel \<and>
   (\<exists>s s'. pi_run (plain_lock_kernel True) plain_unlock_kernel pi_start pi_retry_run = Some s \<and>
      at s 7 = Locked \<and> at s 9 = Locked \<and>
      pi_exec (plain_lock_kernel True) plain_unlock_kernel s (Unlock 9) = Some s' \<and>
      halt s' = Some (Uncaught ''unlock attempted without prior locking''))"
proof
  show "pi_kernel (plain_lock_kernel True) plain_unlock_kernel" by (rule plain_kernel_ok)
  show "\<exists>s s'. pi_run (plain_lock_kernel True) plain_unlock_kernel pi_start pi_retry_run = Some s \<and>
      at s 7 = Locked \<and> at s 9 = Locked \<and>
      pi_exec (plain_lock_kernel True) plain_unlock_kernel s (Unlock 9) = Some s' \<and>
      halt s' = Some (Uncaught ''unlock attempted without prior locking'')"
    by (simp add: pi_retry_run_def pi_eval)
qed

section \<open>Single calls\<close>

text \<open>
  Uncontended round trip. From a free word, \<^verbatim>\<open>lock\<close> followed by \<^verbatim>\<open>unlock\<close> on the same
  thread makes no system call and leaves the memory as it was.
\<close>

theorem fu_lock_roundtrip:
  assumes "words w (gate_addr lk) = 0"
  shows "bnd (fu_lock_lock sys crit tid lk w) (fu_lock_unlock sys crit tid lk) = Ret w"
  using assms by (simp add: fu_lock_lock_def fu_lock_unlock_def futex_lock_pi_def futex_unlock_pi_def futex_lock_pi_start_def
      futex_unlock_pi_start_def atomics fun_upd_idem)

theorem fu_lock_roundtrip_witness:
  "bnd (fu_lock_lock (\<lambda>_ _ _ _ _ _ w. (-1, EFAULT, w)) futex_critical_error 7 \<lparr>gate_addr = 4\<rparr>
      \<lparr>words = (\<lambda>_. 0), kernel = ()\<rparr>)
     (fu_lock_unlock (\<lambda>_ _ _ _ _ _ w. (-1, EFAULT, w)) futex_critical_error 7 \<lparr>gate_addr = 4\<rparr>) =
   Ret \<lparr>words = (\<lambda>_. 0), kernel = ()\<rparr>"
  by (rule fu_lock_roundtrip) simp

text \<open>
  C18: Unlocking without the lock. Whatever the kernel does, \<^verbatim>\<open>unlock\<close> throws exactly when the
  word, without the \<^verbatim>\<open>FUTEX_WAITERS\<close> bit, is not the caller's thread id. Only that bit is
  masked out: when the kernel has set \<^verbatim>\<open>FUTEX_OWNER_DIED\<close>, the rightful owner's unlock throws too.
\<close>

theorem fu_lock_unlock_throws:
  assumes "valid_tid tid"
  shows "((\<exists>msg. fu_lock_unlock sys futex_critical_error tid lk w = Stop (Uncaught msg)) \<longleftrightarrow>
      owner (words w (gate_addr lk)) \<noteq> tid) \<and>
    (words w (gate_addr lk) = tid OR FUTEX_OWNER_DIED \<longrightarrow>
      fu_lock_unlock sys futex_critical_error tid lk w =
        Stop (Uncaught ''unlock attempted without prior locking''))"
proof -
  let ?g = "words w (gate_addr lk)"
  have throws: "fu_lock_unlock sys futex_critical_error tid lk w = Stop (Uncaught ''unlock attempted without prior locking'')"
    if "owner ?g \<noteq> tid"
    using that assms by (simp add: fu_lock_unlock_def futex_unlock_pi_def unlock_start_other)
  have "fu_lock_unlock sys futex_critical_error tid lk w \<noteq> Stop (Uncaught msg)" if "owner ?g = tid" for msg
  proof (cases "?g = tid")
    case True
    with that show ?thesis by (simp add: fu_lock_unlock_def futex_unlock_pi_def unlock_start_owner)
  next
    case False
    obtain rv e w2 where "futex sys (gate_addr lk) (FUTEX_UNLOCK_PI OR FUTEX_PRIVATE_FLAG) 0 None None 0 w = (rv, e, w2)"
      by (metis prod_cases3)
    then have "fu_lock_unlock sys futex_critical_error tid lk w =
        bnd (futex_pi_ret futex_critical_error unlock_text rv e) (\<lambda>r. bnd (unlock_switch r) (\<lambda>_. Ret w2))"
      using False that by (simp add: fu_lock_unlock_def futex_unlock_pi_def unlock_start_owner bnd_assoc fun_upd_idem)
    then show ?thesis by (cases rule: pi_ret_cases [of unlock_text rv e]) simp_all
  qed
  moreover have "owner ?g \<noteq> tid" if "?g = tid OR FUTEX_OWNER_DIED"
    using that valid_tid_waiters [OF assms] by (simp add: owner_def)
  ultimately show ?thesis using throws by blast
qed

theorem fu_lock_unlock_throws_witness:
  "fu_lock_unlock (\<lambda>_ _ _ _ _ _ w. (0, Errno 0, w)) futex_critical_error 7 \<lparr>gate_addr = 4\<rparr>
      \<lparr>words = (\<lambda>_. 7 OR FUTEX_OWNER_DIED), kernel = ()\<rparr> =
     Stop (Uncaught ''unlock attempted without prior locking'')"
  using fu_lock_unlock_throws [OF small_tids(1), of "\<lambda>_ _ _ _ _ _ w. (0, Errno 0, w)" "\<lparr>gate_addr = 4\<rparr>"
      "\<lparr>words = (\<lambda>_. 7 OR FUTEX_OWNER_DIED), kernel = ()\<rparr>"] by simp

end
