(* ===== verification/Semaphores.thy ===== *)
theory Semaphores
  imports Threads
begin

text \<open>
  The semaphores of \<^verbatim>\<open>src/src/semaphore.hpp\<close> and \<^verbatim>\<open>semaphore.cpp\<close>.
  \<^verbatim>\<open>binary_semaphore\<close> is one word, 0 or 1, with futex waits; posts to a semaphore that is
  already up have no effect. Its functions are actions of the thread machine; the theorems are the
  value of the word, the balance between posts and waits over any run, and the absence of lost
  wake-ups. \<^verbatim>\<open>semaphore\<close> wraps the POSIX functions, which are a parameter here.
\<close>

section \<open>binary\_semaphore\<close>

record binary_semaphore =
  gate :: i32

definition binary_semaphore_init :: binary_semaphore where
  "binary_semaphore_init = \<lparr>gate = 0\<rparr>"

definition binary_semaphore_init_state :: "bool \<Rightarrow> binary_semaphore" where
  "binary_semaphore_init_state initial_state =
     (let m = \<lparr>gate = 0\<rparr> in if initial_state then m\<lparr>gate := 1\<rparr> else m)"

definition INT_MAX :: nat where "INT_MAX = 2147483647"

datatype post_pc = PS_cas | PS_wake

fun post :: "post_pc \<Rightarrow> (binary_semaphore, (post_pc, unit) cont, unit) action" where
  "post PS_cas = Mem (\<lambda>m.
     let (ok, expected, g) = cas (gate m) 0 1
     in (m\<lparr>gate := g\<rparr>, Ret (if ok then Goto PS_wake else Done ())))"
| "post PS_wake = Wake () 1 (\<lambda>rv.
     bnd (futex_wake_ret futex_critical_error (Some '' benedias::binary_semaphore::post'') rv)
       (\<lambda>_. Ret (Done ())))"

datatype wait_pc = WT_cas | WT_wait

fun wait :: "wait_pc \<Rightarrow> (binary_semaphore, (wait_pc, unit) cont, unit) action" where
  "wait WT_cas = Mem (\<lambda>m.
     let (ok, expected, g) = cas (gate m) 1 0
     in (m\<lparr>gate := g\<rparr>, Ret (if \<not> ok then Goto WT_wait else Done ())))"
| "wait WT_wait = Wait () 0 (\<lambda>rv e.
     bnd (futex_wait_ret futex_critical_error (Some '' binary_semaphore::wait'') rv e)
       (\<lambda>_. Ret (Goto WT_cas)))"

definition try_wait :: "(binary_semaphore, bool, unit) action" where
  "try_wait = Mem (\<lambda>m.
     let (ok, expected, g) = cas (gate m) 1 0
     in (m\<lparr>gate := g\<rparr>, Ret (if \<not> ok then False else True)))"

definition get_value :: "binary_semaphore \<Rightarrow> int" where
  "get_value m = sint (gate m)"

definition binary_semaphore_dtor :: "(binary_semaphore, unit, unit) action" where
  "binary_semaphore_dtor = Wake () INT_MAX (\<lambda>rv.
     bnd (futex_wake_ret futex_critical_error
        (Some '' benedias::binary_semaphore::~binary_semaphore'') rv) (\<lambda>_. Ret ()))"

text \<open>
  Threads that use one semaphore. After a call a thread is at \<open>Rest\<close>, or at \<open>Passed\<close> when
  it has taken the semaphore; from both it may call any of the three functions. \<open>In_dtor\<close> is
  the point of the thread that destroys the object; no call leads there.
\<close>

datatype sem_pc = Rest | Passed | In_post post_pc | In_wait wait_pc | In_try_wait | In_dtor | Destroyed

definition sem_calls :: "sem_pc list" where
  "sem_calls = [In_post PS_cas, In_wait WT_cas, In_try_wait]"

fun sem_act :: "sem_pc \<Rightarrow> (binary_semaphore, sem_pc, unit) action" where
  "sem_act Rest = Client sem_calls"
| "sem_act Passed = Client sem_calls"
| "sem_act (In_post p) =
     embed id (\<lambda>s _. s) id (\<lambda>n. case n of Goto q \<Rightarrow> In_post q | Done _ \<Rightarrow> Rest) (post p)"
| "sem_act (In_wait p) =
     embed id (\<lambda>s _. s) id (\<lambda>n. case n of Goto q \<Rightarrow> In_wait q | Done _ \<Rightarrow> Passed) (wait p)"
| "sem_act In_try_wait = embed id (\<lambda>s _. s) id (\<lambda>b. if b then Passed else Rest) try_wait"
| "sem_act In_dtor = embed id (\<lambda>s _. s) id (\<lambda>_. Destroyed) binary_semaphore_dtor"
| "sem_act Destroyed = Client []"

definition sem_word :: "unit \<Rightarrow> binary_semaphore \<Rightarrow> i32" where
  "sem_word u m = gate m"

abbreviation sem_start :: "bool \<Rightarrow> (binary_semaphore, sem_pc) conf" where
  "sem_start b \<equiv> start (binary_semaphore_init_state b) Rest"

abbreviation sem_step :: "kernel_wake \<Rightarrow> nat \<Rightarrow> (binary_semaphore, sem_pc) conf
    \<Rightarrow> (binary_semaphore, sem_pc) conf \<Rightarrow> bool" where
  "sem_step kw N \<equiv> mstep kw N sem_act sem_word"

section \<open>Safety\<close>

definition sem_ok :: "binary_semaphore \<Rightarrow> (tid \<Rightarrow> sem_pc) \<Rightarrow> bool" where
  "sem_ok m P \<longleftrightarrow> gate m = 0 \<or> gate m = 1"

lemma sem_act_Mem:
  assumes "sem_act p = Mem f"
  shows "p = In_post PS_cas \<and> f m = (if gate m = 0 then (m\<lparr>gate := 1\<rparr>, Ret (In_post PS_wake)) else (m, Ret Rest)) \<or>
    p = In_wait WT_cas \<and> f m = (if gate m = 1 then (m\<lparr>gate := 0\<rparr>, Ret Passed) else (m, Ret (In_wait WT_wait))) \<or>
    p = In_try_wait \<and> f m = (if gate m = 1 then (m\<lparr>gate := 0\<rparr>, Ret Passed) else (m, Ret Rest))"
proof (cases p)
  case (In_post q) with assms show ?thesis by (cases q) (auto simp: atomics)
next
  case (In_wait q) with assms show ?thesis by (cases q) (auto simp: atomics)
next
  case In_try_wait with assms show ?thesis by (auto simp: try_wait_def atomics)
qed (use assms in \<open>auto simp: binary_semaphore_dtor_def\<close>)

lemma sem_act_Wait:
  assumes "sem_act p = Wait c v k"
  shows "p = In_wait WT_wait \<and> v = 0"
    and "k rv e = Ret q \<longleftrightarrow> q = In_wait WT_cas \<and> (rv = 0 \<or> e = EINTR \<or> e = EAGAIN)"
    and "k rv e = Stop x \<Longrightarrow> \<exists>msg. x = Critical_error msg"
proof -
  show p: "p = In_wait WT_wait \<and> v = 0"
  proof (cases p)
    case (In_post q) with assms show ?thesis by (cases q) auto
  next
    case (In_wait q) with assms show ?thesis by (cases q) auto
  qed (use assms in \<open>auto simp: try_wait_def binary_semaphore_dtor_def\<close>)
  then have k: "k = (\<lambda>rv e. bnd (futex_wait_ret futex_critical_error (Some '' binary_semaphore::wait'') rv e)
      (\<lambda>_. Ret (In_wait WT_cas)))"
    using assms by (auto simp: bnd_assoc)
  show "k rv e = Ret q \<longleftrightarrow> q = In_wait WT_cas \<and> (rv = 0 \<or> e = EINTR \<or> e = EAGAIN)"
    by (auto simp: k ctl_rules dest: futex_wait_ret_Ret)
  show "\<exists>msg. x = Critical_error msg" if "k rv e = Stop x"
    using that by (auto simp: k ctl_rules dest: futex_wait_ret_Stop)
qed

lemma sem_act_Wake:
  assumes "sem_act p = Wake c n k"
  shows "p = In_post PS_wake \<and> n = 1 \<or> p = In_dtor"
    and "k rv = Ret q \<longleftrightarrow> q = (if p = In_dtor then Destroyed else Rest) \<and> 0 \<le> rv"
    and "k rv = Stop x \<Longrightarrow> \<exists>msg. x = Critical_error msg"
proof -
  show p: "p = In_post PS_wake \<and> n = 1 \<or> p = In_dtor"
  proof (cases p)
    case (In_post q) with assms show ?thesis by (cases q) auto
  next
    case (In_wait q) with assms show ?thesis by (cases q) auto
  qed (use assms in \<open>auto simp: try_wait_def\<close>)
  then have "\<exists>nm. k = (\<lambda>rv. bnd (futex_wake_ret futex_critical_error nm rv)
      (\<lambda>_. Ret (if p = In_dtor then Destroyed else Rest)))"
    using assms by (auto simp: bnd_assoc binary_semaphore_dtor_def)
  then obtain nm where k: "k = (\<lambda>rv. bnd (futex_wake_ret futex_critical_error nm rv)
      (\<lambda>_. Ret (if p = In_dtor then Destroyed else Rest)))" ..
  show "k rv = Ret q \<longleftrightarrow> q = (if p = In_dtor then Destroyed else Rest) \<and> 0 \<le> rv"
    by (auto simp: k ctl_rules futex_wake_ret_def)
  show "\<exists>msg. x = Critical_error msg" if "k rv = Stop x"
    using that by (auto simp: k ctl_rules dest: futex_wake_ret_Stop)
qed

lemma sem_act_Client: "sem_act p = Client ps \<Longrightarrow> p = Rest \<or> p = Passed \<or> p = Destroyed"
proof (cases p)
  case (In_post q) then show "sem_act p = Client ps \<Longrightarrow> ?thesis" by (cases q) auto
next
  case (In_wait q) then show "sem_act p = Client ps \<Longrightarrow> ?thesis" by (cases q) auto
qed (auto simp: try_wait_def binary_semaphore_dtor_def)

interpretation sem: safety_invariant kw N sem_act sem_word sem_ok for kw N
proof
  show "\<exists>m' p. f m = (m', Ret p) \<and> sem_ok m' (P(t := p))" if "sem_ok m P" "sem_act (P t) = Mem f" for m P t f
    using sem_act_Mem [OF that(2), of m] that(1) by (auto simp: sem_ok_def split: if_splits)
  show "\<exists>msg. x = Critical_error msg" if "sem_act q = Wait c v k" "k rv e = Stop x" for q c v k rv e x
    using that by (rule sem_act_Wait)
  show "\<exists>msg. x = Critical_error msg" if "sem_act q = Wake c n k'" "k' rv = Stop x" for q c n k' rv x
    using that by (rule sem_act_Wake)
qed (simp_all add: sem_ok_def)

lemma sem_start_ok: "sem.safe (sem_start b)"
  unfolding sem.safe_def by (simp add: sem_ok_def halt_ok_def binary_semaphore_init_state_def Let_def)

lemma sem_reach_safe:
  assumes "reach (sem_start b) (sem_step kw N) s"
  shows "gate (mem s) = 0 \<or> gate (mem s) = 1" and "halt_ok s"
  using sem.machine_reach_inv [OF assms sem_start_ok] unfolding sem.safe_def sem_ok_def by blast+

section \<open>Posts and waits balance\<close>

text \<open>The number of steps of a run that have a property.\<close>

fun count_steps :: "(('m, 'p) conf \<Rightarrow> ('m, 'p) conf \<Rightarrow> bool) \<Rightarrow> kernel_wake \<Rightarrow> nat
    \<Rightarrow> ('p \<Rightarrow> ('m, 'p, 'c) action) \<Rightarrow> ('c \<Rightarrow> 'm \<Rightarrow> i32) \<Rightarrow> ('m, 'p) conf \<Rightarrow> event list \<Rightarrow> int" where
  "count_steps Q kw N act rd s [] = 0"
| "count_steps Q kw N act rd s (ev # evs) =
     (case exec kw N act rd s ev of
        None \<Rightarrow> 0
      | Some s' \<Rightarrow> (if Q s s' then 1 else 0) + count_steps Q kw N act rd s' evs)"

definition took :: "nat \<Rightarrow> (binary_semaphore, sem_pc) conf \<Rightarrow> (binary_semaphore, sem_pc) conf \<Rightarrow> bool" where
  "took N s s' \<longleftrightarrow> (\<exists>t<N. (pcs s t = In_wait WT_cas \<or> pcs s t = In_try_wait) \<and> pcs s' t = Passed)"

definition posted :: "nat \<Rightarrow> (binary_semaphore, sem_pc) conf \<Rightarrow> (binary_semaphore, sem_pc) conf \<Rightarrow> bool" where
  "posted N s s' \<longleftrightarrow> (\<exists>t<N. pcs s t = In_post PS_cas \<and> pcs s' t = In_post PS_wake)"

lemma moved:
  assumes "pcs s' = (pcs s)(t := p)" and "t < N"
  shows "posted N s s' \<longleftrightarrow> pcs s t = In_post PS_cas \<and> p = In_post PS_wake"
    and "took N s s' \<longleftrightarrow> (pcs s t = In_wait WT_cas \<or> pcs s t = In_try_wait) \<and> p = Passed"
proof -
  have o: "u \<noteq> t \<Longrightarrow> pcs s' u = pcs s u" "pcs s' t = p" for u
    using assms(1) by simp_all
  show "posted N s s' \<longleftrightarrow> pcs s t = In_post PS_cas \<and> p = In_post PS_wake"
    using o assms(2) unfolding posted_def by (metis post_pc.distinct(1) sem_pc.inject(1))
  show "took N s s' \<longleftrightarrow> (pcs s t = In_wait WT_cas \<or> pcs s t = In_try_wait) \<and> p = Passed"
    using o assms(2) unfolding took_def by (metis sem_pc.distinct)
qed

lemma mem_balance:
  assumes "gate m = 0 \<or> gate m = 1" and "sem_act q = Mem F" and "F m = (m', Ret p)"
  shows "get_value m' - get_value m =
    (if q = In_post PS_cas \<and> p = In_post PS_wake then 1 else 0) -
    (if (q = In_wait WT_cas \<or> q = In_try_wait) \<and> p = Passed then 1 else 0)"
proof -
  have m': "m' = fst (F m)" and p: "p = (case snd (F m) of Ret p \<Rightarrow> p | _ \<Rightarrow> Rest)"
    using assms(3) by simp_all
  show ?thesis
    unfolding m' p using sem_act_Mem [OF assms(2), of m] assms(1)
    by (elim disjE conjE) (simp_all add: get_value_def)
qed

lemma step_balance:
  assumes ok: "gate (mem s) = 0 \<or> gate (mem s) = 1" and ex: "exec kw N sem_act sem_word s ev = Some s'"
  shows "get_value (mem s') - get_value (mem s) =
    (if posted N s s' then 1 else 0) - (if took N s s' then 1 else 0)"
  using ex
proof (cases rule: exec_pcs)
  case 1
  then show ?thesis by (auto simp: posted_def took_def)
next
  case (2 t F x)
  then show ?thesis using sem_act_Mem [OF 2(2), of "mem s"] by (auto split: if_splits)
next
  case (3 t F p)
  show ?thesis
    unfolding moved [OF 3(4,1)] using ok 3(2,3) by (rule mem_balance)
next
  case (4 t ps p)
  then show ?thesis using sem_act_Client [OF 4(2)] by (auto simp: moved)
next
  case (5 t c v k rv e p)
  then show ?thesis using sem_act_Wait(1) [OF 5(2)] by (auto simp: moved)
next
  case (6 t c n k rv p)
  then show ?thesis using sem_act_Wake(1) [OF 6(2)] by (auto simp: moved)
qed

lemma run_balance:
  assumes "gate (mem s) = 0 \<or> gate (mem s) = 1" and "run kw N sem_act sem_word s evs = Some s'"
  shows "get_value (mem s) + count_steps (posted N) kw N sem_act sem_word s evs =
    get_value (mem s') + count_steps (took N) kw N sem_act sem_word s evs"
  using assms
proof (induction evs arbitrary: s)
  case (Cons ev evs)
  then obtain s1 where e: "exec kw N sem_act sem_word s ev = Some s1"
    and r: "run kw N sem_act sem_word s1 evs = Some s'"
    by (auto split: option.splits)
  have b: "get_value (mem s1) - get_value (mem s) = (if posted N s s1 then 1 else 0) - (if took N s s1 then 1 else 0)"
    using Cons.prems(1) e by (rule step_balance)
  have "gate (mem s1) = 0 \<or> gate (mem s1) = 1"
  proof -
    have "sem_ok (mem s) (pcs s)" using Cons.prems(1) by (simp add: sem_ok_def)
    moreover have "halted s = None" using e by (cases ev) (auto split: if_splits)
    ultimately have "sem.safe s" unfolding sem.safe_def by (simp add: halt_ok_def)
    with e have "sem.safe s1" by (rule sem.exec_inv)
    then show ?thesis unfolding sem.safe_def sem_ok_def by blast
  qed
  from Cons.IH [OF this r] b e show ?case by simp
qed simp

section \<open>Wake-ups\<close>

definition sem_asleep :: "(binary_semaphore, sem_pc) conf \<Rightarrow> tid \<Rightarrow> bool" where
  "sem_asleep s u \<longleftrightarrow> stat s u = Sleeping \<and> pcs s u = In_wait WT_wait"

definition wake_pending :: "nat \<Rightarrow> (binary_semaphore, sem_pc) conf \<Rightarrow> bool" where
  "wake_pending N s \<longleftrightarrow>
     (\<exists>v<N. pcs s v = In_post PS_wake \<or> (\<exists>p. pcs s v = In_wait p) \<and> \<not> sem_asleep s v)"

definition sem_live :: "kernel_wake \<Rightarrow> nat \<Rightarrow> (binary_semaphore, sem_pc) conf \<Rightarrow> bool" where
  "sem_live kw N s \<longleftrightarrow> documented_wake kw \<and> sem.safe s \<and> (\<forall>u<N. pcs s u \<noteq> In_dtor) \<and>
     (halted s = None \<longrightarrow> gate (mem s) = 1 \<longrightarrow> (\<exists>u<N. sem_asleep s u) \<longrightarrow> wake_pending N s)"

lemma sem_live_safe: "sem_live kw N s \<Longrightarrow> sem.safe s"
  unfolding sem_live_def by blast

lemma sem_live_no_dtor: "sem_live kw N s \<Longrightarrow> u < N \<Longrightarrow> pcs s u \<noteq> In_dtor"
  unfolding sem_live_def by blast

lemma sem_liveI:
  assumes "sem_live kw N s" and "sem.safe s'" and "\<And>u. u < N \<Longrightarrow> pcs s' u \<noteq> In_dtor"
    and "\<lbrakk>halted s' = None; gate (mem s') = 1; \<exists>u<N. sem_asleep s' u\<rbrakk> \<Longrightarrow> wake_pending N s'"
  shows "sem_live kw N s'"
  using assms unfolding sem_live_def by blast

text \<open>A thread other than a waiter or a waker moves, or a thread joins these.\<close>

lemma sem_live_move:
  assumes l: "sem_live kw N s" "halted s = None" and t: "t < N" and safe: "sem.safe s'" and q: "q \<noteq> In_dtor"
    and pend: "gate (mem s') = 1 \<Longrightarrow> q = In_post PS_wake \<or> (\<exists>p. q = In_wait p) \<or>
      gate (mem s) = 1 \<and> (\<forall>p. pcs s t \<noteq> In_wait p) \<and> pcs s t \<noteq> In_post PS_wake"
    and s': "pcs s' = (pcs s)(t := q)" "stat s' = (stat s)(t := Running)"
  shows "sem_live kw N s'"
  using l(1) safe
proof (rule sem_liveI)
  show "pcs s' u \<noteq> In_dtor" if "u < N" for u
    using that q s' sem_live_no_dtor [OF l(1) that] by simp
  assume g: "gate (mem s') = 1" and "\<exists>u<N. sem_asleep s' u"
  then obtain u where u: "u < N" "sem_asleep s' u" by blast
  from pend [OF g] show "wake_pending N s'"
  proof (elim disjE conjE)
    assume m: "gate (mem s) = 1" "\<forall>p. pcs s t \<noteq> In_wait p" "pcs s t \<noteq> In_post PS_wake"
    have "sem_asleep s u" using u s' by (auto simp: sem_asleep_def split: if_splits)
    then have "wake_pending N s" using l m u unfolding sem_live_def by blast
    then obtain v where v: "v < N" "pcs s v = In_post PS_wake \<or> (\<exists>p. pcs s v = In_wait p) \<and> \<not> sem_asleep s v"
      by (auto simp: wake_pending_def)
    with m have "v \<noteq> t" by auto
    with v s' show ?thesis by (auto simp: wake_pending_def sem_asleep_def)
  qed (use t s' in \<open>auto simp: wake_pending_def sem_asleep_def\<close>)
qed

lemma sem_mem_pending:
  assumes "sem_act p = Mem f" and "f m = (m', c)"
  obtains q where "c = Ret q" "q \<noteq> In_dtor"
    and "gate m' = 1 \<Longrightarrow> q = In_post PS_wake \<or> (\<exists>r. q = In_wait r) \<or>
      gate m = 1 \<and> (\<forall>r. p \<noteq> In_wait r) \<and> p \<noteq> In_post PS_wake"
proof -
  have "\<exists>q. snd (f m) = Ret q \<and> q \<noteq> In_dtor \<and> (gate (fst (f m)) = 1 \<longrightarrow>
      q = In_post PS_wake \<or> (\<exists>r. q = In_wait r) \<or>
      gate m = 1 \<and> (\<forall>r. p \<noteq> In_wait r) \<and> p \<noteq> In_post PS_wake)"
    using sem_act_Mem [OF assms(1), of m] by (elim disjE conjE) simp_all
  with assms(2) that show ?thesis by auto
qed

lemma sem_live_mem:
  assumes l: "sem_live kw N s" "halted s = None" and t: "t < N" and f: "sem_act (pcs s t) = Mem f" "f (mem s) = (m, c)"
  shows "sem_live kw N (goto t c (s\<lparr>mem := m\<rparr>))"
proof -
  have s: "sem.safe (goto t c (s\<lparr>mem := m\<rparr>))"
    using sem_live_safe [OF l(1)] l(2) t f by (rule sem.I_mem)
  obtain q where q: "c = Ret q" "q \<noteq> In_dtor"
    and p: "gate m = 1 \<Longrightarrow> q = In_post PS_wake \<or> (\<exists>r. q = In_wait r) \<or>
      gate (mem s) = 1 \<and> (\<forall>r. pcs s t \<noteq> In_wait r) \<and> pcs s t \<noteq> In_post PS_wake"
    using f by (rule sem_mem_pending) blast
  show ?thesis
    using l t s q(2)
  proof (rule sem_live_move)
    show "gate (mem (goto t c (s\<lparr>mem := m\<rparr>))) = 1 \<Longrightarrow> q = In_post PS_wake \<or> (\<exists>p. q = In_wait p) \<or>
      gate (mem s) = 1 \<and> (\<forall>p. pcs s t \<noteq> In_wait p) \<and> pcs s t \<noteq> In_post PS_wake"
      using p by simp
  qed (simp_all add: q(1))
qed

lemma sem_waits_on: "waits_on sem_act c p \<longleftrightarrow> p = In_wait WT_wait"
proof
  assume "waits_on sem_act c p"
  then obtain v k where "sem_act p = Wait c v k" by (auto simp: waits_on_def split: action.splits)
  then show "p = In_wait WT_wait" using sem_act_Wait(1) by blast
qed (simp add: waits_on_def)

lemma sem_live_wake:
  assumes l: "sem_live kw N s" "halted s = None" and t: "t < N" and a: "sem_act (pcs s t) = Wake c n k"
    and w: "kw n (sleepers sem_act N s c) w" and w': "w' = filter (\<lambda>u. u \<in> set (sleepers sem_act N s c)) w"
  shows "sem_live kw N (goto t (k (int (length w'))) (rouse w' s))"
proof -
  have p: "pcs s t = In_post PS_wake" "n = 1"
    using sem_act_Wake(1) [OF a] sem_live_no_dtor [OF l(1) t] by auto
  have k: "k (int (length w')) = Ret Rest"
    using sem_act_Wake(2) [OF a, of "int (length w')" Rest] p by simp
  have kw: "documented_wake kw" using l(1) by (simp add: sem_live_def)
  have sl: "u \<in> set (sleepers sem_act N s c) \<longleftrightarrow> u < N \<and> sem_asleep s u" for u
    by (auto simp: sem_waits_on sem_asleep_def)
  let ?s = "goto t (k (int (length w'))) (rouse w' s)"
  have "sem.safe ?s"
    using sem_live_safe [OF l(1)] l(2) t a w w' by (rule sem.I_wake)
  with l(1) show ?thesis
  proof (rule sem_liveI)
    show "pcs ?s u \<noteq> In_dtor" if "u < N" for u
      using sem_live_no_dtor [OF l(1) that] by (simp add: k)
    assume "\<exists>u<N. sem_asleep ?s u"
    then obtain u where u: "u < N" "sem_asleep s u"
      using p by (auto simp: k sem_asleep_def split: if_splits)
    then have "set (sleepers sem_act N s c) \<noteq> {}" using sl [of u] by (metis empty_iff)
    then obtain x where x: "w = [x]" "x \<in> set (sleepers sem_act N s c)"
      using documented_wake_one [OF kw w [unfolded p(2)]] by (metis list.set_intros(1) subsetD)
    then have "x < N" "pcs s x = In_wait WT_wait" "x \<noteq> t" "w' = [x]"
      using sl [of x] p w' by (auto simp: sem_asleep_def)
    then show "wake_pending N ?s"
      unfolding k by (auto simp: wake_pending_def sem_asleep_def intro!: exI [of _ x])
  qed
qed

interpretation sem_wakeups: machine_invariant kw N sem_act sem_word "sem_live kw N" for kw N
proof
  fix s t f m c assume "sem_live kw N s" "halted s = None" "t < N" "sem_act (pcs s t) = Mem f" "f (mem s) = (m, c)"
  then show "sem_live kw N (goto t c (s\<lparr>mem := m\<rparr>))" by (rule sem_live_mem)
next
  fix s t ps p assume l: "sem_live kw N s" "halted s = None" and t: "t < N" and a: "sem_act (pcs s t) = Client ps" "p \<in> set ps"
  have s: "sem.safe (goto t (Ret p) s)"
    using sem_live_safe [OF l(1)] l(2) t a by (rule sem.I_call)
  have c: "pcs s t = Rest \<or> pcs s t = Passed \<or> pcs s t = Destroyed"
    using a(1) by (rule sem_act_Client)
  with a s show "sem_live kw N (goto t (Ret p) s)"
    by (intro sem_live_move [OF l t, where q = p]) (auto simp: sem_calls_def)
next
  fix s t c' v k assume l: "sem_live kw N s" and a: "sem_act (pcs s t) = Wait c' v k" and v: "sem_word c' (mem s) = v"
  have g: "gate (mem s) = 0" using sem_act_Wait(1) [OF a] v by (simp add: sem_word_def)
  have "sem.safe (s\<lparr>stat := (stat s)(t := Sleeping)\<rparr>)"
    unfolding sem.safe_rouse using l by (rule sem_live_safe)
  then show "sem_live kw N (s\<lparr>stat := (stat s)(t := Sleeping)\<rparr>)"
    by (rule sem_liveI [OF l]) (use sem_live_no_dtor [OF l] g in auto)
next
  fix s t c' v k rv e assume l: "sem_live kw N s" and t: "t < N" and a: "sem_act (pcs s t) = Wait c' v k"
  have p: "pcs s t = In_wait WT_wait" using sem_act_Wait(1) [OF a] by blast
  have "sem.safe (s\<lparr>stat := (stat s)(t := Returned rv e)\<rparr>)"
    unfolding sem.safe_rouse using l by (rule sem_live_safe)
  then show "sem_live kw N (s\<lparr>stat := (stat s)(t := Returned rv e)\<rparr>)"
    by (rule sem_liveI [OF l])
      (use sem_live_no_dtor [OF l] t p in \<open>auto simp: wake_pending_def sem_asleep_def intro!: exI [of _ t]\<close>)
next
  fix s t c' v k rv e assume l: "sem_live kw N s" "halted s = None" and t: "t < N"
    and a: "sem_act (pcs s t) = Wait c' v k" and st: "stat s t = Returned rv e"
  have s: "sem.safe (goto t (k rv e) s)"
    using sem_live_safe [OF l(1)] l(2) t a st by (rule sem.I_return)
  show "sem_live kw N (goto t (k rv e) s)"
  proof (cases "k rv e")
    case (Ret q)
    then have "q = In_wait WT_cas" using sem_act_Wait(2) [OF a] by blast
    with s Ret show ?thesis by (intro sem_live_move [OF l t, where q = q]) auto
  next
    case (Stop x)
    with s show ?thesis by (intro sem_liveI [OF l(1)]) (use sem_live_no_dtor [OF l(1)] in auto)
  qed
next
  fix s t c' n k' w w' assume "sem_live kw N s" "halted s = None" "t < N" "sem_act (pcs s t) = Wake c' n k'"
    "kw n (sleepers sem_act N s c') w" "w' = filter (\<lambda>u. u \<in> set (sleepers sem_act N s c')) w"
  then show "sem_live kw N (goto t (k' (int (length w'))) (rouse w' s))" by (rule sem_live_wake)
next
  fix s t c' n k' and rv :: int
  assume l: "sem_live kw N s" "halted s = None" and t: "t < N" and a: "sem_act (pcs s t) = Wake c' n k'" and rv: "rv < 0"
  have s: "sem.safe (goto t (k' rv) s)"
    using sem_live_safe [OF l(1)] l(2) t a rv by (rule sem.I_wake_error)
  have "\<exists>x. k' rv = Stop x"
    using sem_act_Wake(2) [OF a, of rv] rv by (cases "k' rv") auto
  with s show "sem_live kw N (goto t (k' rv) s)"
    by (auto intro!: sem_liveI [OF l(1)] dest: sem_live_no_dtor [OF l(1)])
qed

lemma sem_reach_live:
  assumes "reach (sem_start b) (sem_step kw N) s" and "documented_wake kw"
  shows "sem_live kw N s"
proof -
  have "sem_live kw N (sem_start b)"
    unfolding sem_live_def using assms(2) sem_start_ok by (simp add: sem_asleep_def)
  with assms(1) show ?thesis by (rule sem_wakeups.machine_reach_inv)
qed

section \<open>What binary\_semaphore guarantees\<close>

lemmas sem_eval = start_def binary_semaphore_init_state_def try_wait_def atomics goto_def rouse_def
  sleepers_def waits_on_def fifo_wake_def upt_rec sem_calls_def sem_word_def

text \<open>
  The word. In every interleaving, whatever the kernel does, \<^verbatim>\<open>get_value\<close> is 0 or 1, and
  only a futex error that the wrappers treat as critical stops the process.
\<close>

theorem sem_binary:
  assumes "reach (sem_start b) (sem_step kw N) s"
  shows "get_value (mem s) \<in> {0, 1} \<and>
    (halted s = None \<or> (\<exists>msg. halted s = Some (Critical_error msg)))"
  using sem_reach_safe [OF assms]
  by (auto simp: get_value_def halt_ok_def split: option.splits fault.splits)

definition sem_handover :: "event list" where
  "sem_handover = [Call 0 1, Run 0, Run 0, Call 1 0, Run 1, Call 2 0, Run 2, WakeUp 1 [0], Run 0, Run 0]"

theorem sem_binary_witness:
  "\<exists>s. run fifo_wake 3 sem_act sem_word (sem_start False) sem_handover = Some s \<and>
     pcs s 0 = Passed \<and> get_value (mem s) \<in> {0, 1}"
proof -
  obtain s where r: "run fifo_wake 3 sem_act sem_word (sem_start False) sem_handover = Some s"
    and "pcs s 0 = Passed"
    by (simp add: sem_handover_def sem_eval)
  with sem_binary [OF run_reachable [OF r]] show ?thesis by blast
qed

text \<open>
  C19: Balance. Over any run from the initial state, the initial value plus the number of posts
  that found the semaphore down equals the final value plus the number of waits and successful
  try-waits: every return from \<^verbatim>\<open>wait\<close> uses up one post, and posts that found it up are
  absorbed.
\<close>

theorem sem_balance:
  assumes "run kw N sem_act sem_word (sem_start b) evs = Some s"
  shows "(if b then 1 else 0) + count_steps (posted N) kw N sem_act sem_word (sem_start b) evs =
    get_value (mem s) + count_steps (took N) kw N sem_act sem_word (sem_start b) evs"
proof -
  have v: "get_value (mem (sem_start b)) = (if b then 1 else 0)"
    by (simp add: get_value_def binary_semaphore_init_state_def)
  have g: "gate (mem (sem_start b)) = 0 \<or> gate (mem (sem_start b)) = 1"
    by (simp add: binary_semaphore_init_state_def Let_def)
  show ?thesis using run_balance [OF g assms] unfolding v .
qed

theorem sem_balance_witness:
  "\<exists>s. run fifo_wake 3 sem_act sem_word (sem_start False) sem_handover = Some s \<and>
     count_steps (posted 3) fifo_wake 3 sem_act sem_word (sem_start False) sem_handover =
     get_value (mem s) + count_steps (took 3) fifo_wake 3 sem_act sem_word (sem_start False) sem_handover \<and>
     get_value (mem s) = 0"
proof -
  obtain s where r: "run fifo_wake 3 sem_act sem_word (sem_start False) sem_handover = Some s"
    and "get_value (mem s) = 0"
    by (simp add: sem_handover_def sem_eval get_value_def)
  with sem_balance [OF r] show ?thesis by simp
qed

text \<open>
  C20: No lost wake-up. When the semaphore is up and a thread sleeps in \<^verbatim>\<open>wait\<close>, then some
  thread is at the \<open>futex_wake\<close> of its \<^verbatim>\<open>post\<close> or some waiter is awake and about to look
  at the word again; so some thread can run, and the semaphore is taken or the sleeper woken.
\<close>

theorem sem_no_lost_wakeup:
  assumes "reach (sem_start b) (sem_step kw N) s" and "documented_wake kw" and "halted s = None"
    and "get_value (mem s) = 1" and "u < N" and "sem_asleep s u"
  shows "wake_pending N s \<and> (\<exists>s'. \<exists>v<N. exec kw N sem_act sem_word s (Run v) = Some s' \<or>
      (\<exists>w. exec kw N sem_act sem_word s (WakeUp v w) = Some s'))"
proof -
  have "gate (mem s) = 1"
    using sem_reach_safe(1) [OF assms(1)] assms(4) by (auto simp: get_value_def)
  then have p: "wake_pending N s"
    using sem_reach_live [OF assms(1,2)] assms unfolding sem_live_def by blast
  then obtain v where v: "v < N" and or: "pcs s v = In_post PS_wake \<or> (\<exists>q. pcs s v = In_wait q) \<and> \<not> sem_asleep s v"
    by (auto simp: wake_pending_def)
  obtain w where "kw 1 (sleepers sem_act N s ()) w"
    using assms(2) distinct_sleepers [of sem_act N s "()"] unfolding documented_wake_def by blast
  then have "pcs s v = In_post PS_wake \<Longrightarrow> \<exists>s'. exec kw N sem_act sem_word s (WakeUp v w) = Some s'"
    using v assms(3) by (simp add: Let_def)
  moreover have "\<exists>s'. exec kw N sem_act sem_word s (Run v) = Some s'" if "pcs s v = In_wait q" "\<not> sem_asleep s v" for q
    using that v assms(3)
    by (cases q; cases "stat s v") (auto simp: sem_asleep_def Let_def split: prod.splits)
  ultimately show ?thesis using p or v by blast
qed

definition sem_post_window :: "event list" where
  "sem_post_window = [Call 0 1, Run 0, Run 0, Call 1 0, Run 1]"

theorem sem_no_lost_wakeup_witness:
  "\<exists>s. run fifo_wake 2 sem_act sem_word (sem_start False) sem_post_window = Some s \<and>
     sem_asleep s 0 \<and> get_value (mem s) = 1 \<and> wake_pending 2 s"
proof -
  obtain s where r: "run fifo_wake 2 sem_act sem_word (sem_start False) sem_post_window = Some s"
    and s: "sem_asleep s 0" "get_value (mem s) = 1" "halted s = None"
    by (simp add: sem_post_window_def sem_eval get_value_def sem_asleep_def)
  with sem_no_lost_wakeup [OF run_reachable [OF r] fifo_wake_documented s(3,2), of 0] show ?thesis by auto
qed

text \<open>
  C37: The destructor wakes every waiter, but does not let it leave. With a documented kernel no
  thread sleeps on the word after the destructor's \<open>futex_wake\<close>; each waiter is still inside
  \<^verbatim>\<open>wait\<close> and its next step reads the word of the destroyed object (and, finding it 0,
  waits on it again).
\<close>

theorem dtor_wakes_waiters:
  assumes "documented_wake kw" and "N \<le> INT_MAX" and "pcs s t = In_dtor"
    and "exec kw N sem_act sem_word s (WakeUp t w) = Some s'" and "u < N" and "sem_asleep s u"
  shows "\<not> sem_asleep s' u \<and> pcs s' u = In_wait WT_wait \<and> stat s' u = Returned 0 (Errno 0)"
proof -
  let ?q = "sleepers sem_act N s ()"
  have a: "sem_act (pcs s t) = Wake () INT_MAX (\<lambda>rv. bnd (futex_wake_ret futex_critical_error
      (Some '' benedias::binary_semaphore::~binary_semaphore'') rv) (\<lambda>_. Ret Destroyed))"
    using assms(3) by (simp add: binary_semaphore_dtor_def bnd_assoc)
  with assms(4) have w: "kw INT_MAX ?q w"
    and s': "s' = goto t (Ret Destroyed) (rouse (filter (\<lambda>u. u \<in> set ?q) w) s)"
    by (auto simp: Let_def split: if_splits)
  have q: "length ?q \<le> N" unfolding sleepers_def by (rule order_trans [OF length_filter_le]) simp
  have "set w \<subseteq> set ?q" "distinct w" "length w = min INT_MAX (length ?q)"
    using assms(1) w distinct_sleepers [of sem_act N s "()"] unfolding documented_wake_def by blast+
  then have "set w = set ?q"
    using q assms(2) by (metis card_subset_eq List.finite_set distinct_card distinct_sleepers min.absorb2 order_trans)
  moreover have uq: "u \<in> set ?q" using assms(5,6) by (simp add: sem_waits_on sem_asleep_def)
  ultimately have "u \<in> set w" by metis
  with uq have "u \<in> set (filter (\<lambda>u. u \<in> set ?q) w)" by (simp only: set_filter mem_Collect_eq)
  moreover have "u \<noteq> t" using assms(3,6) by (auto simp: sem_asleep_def)
  ultimately show ?thesis
    using assms(6) unfolding s' goto_simps by (simp add: sem_asleep_def)
qed

definition sem_two_waiters :: "(binary_semaphore, sem_pc) conf" where
  "sem_two_waiters = \<lparr>mem = \<lparr>gate = 0\<rparr>, pcs = (\<lambda>u. if u = 0 then In_dtor else In_wait WT_wait),
     stat = (\<lambda>u. if u = 0 then Running else Sleeping), halted = None\<rparr>"

theorem dtor_wakes_waiters_witness:
  "\<exists>s'. exec fifo_wake 3 sem_act sem_word sem_two_waiters (WakeUp 0 [1, 2]) = Some s' \<and>
     \<not> sem_asleep s' 2 \<and> pcs s' 2 = In_wait WT_wait"
proof -
  obtain s' where e: "exec fifo_wake 3 sem_act sem_word sem_two_waiters (WakeUp 0 [1, 2]) = Some s'"
    by (simp add: sem_two_waiters_def binary_semaphore_dtor_def sem_eval INT_MAX_def)
  have "\<not> sem_asleep s' 2 \<and> pcs s' 2 = In_wait WT_wait \<and> stat s' 2 = Returned 0 (Errno 0)"
    by (rule dtor_wakes_waiters [OF fifo_wake_documented _ _ e])
      (simp_all add: INT_MAX_def sem_two_waiters_def sem_asleep_def)
  with e show ?thesis by blast
qed

section \<open>semaphore\<close>

text \<open>
  The wrapper around the POSIX functions, which are the parameter \<open>api\<close>: each takes the
  semaphore and gives the return value and the semaphore after the call (for
  \<^verbatim>\<open>sem_getvalue\<close>, the value it stores). The wrapper drops every return value, so that
  \<^verbatim>\<open>wait\<close> and \<^verbatim>\<open>try_wait\<close> return in the same way whether or not the call took the semaphore.
\<close>

record 's sem_api =
  sem_init :: "int \<Rightarrow> int \<Rightarrow> int \<times> 's"
  sem_destroy :: "'s \<Rightarrow> int \<times> 's"
  sem_post :: "'s \<Rightarrow> int \<times> 's"
  sem_wait :: "'s \<Rightarrow> int \<times> 's"
  sem_trywait :: "'s \<Rightarrow> int \<times> 's"
  sem_getvalue :: "'s \<Rightarrow> int \<times> int"

definition semaphore_init :: "'s sem_api \<Rightarrow> int \<Rightarrow> 's" where
  "semaphore_init api count = (let (rv, sem) = sem_init api 0 count in sem)"

definition semaphore_dtor :: "'s sem_api \<Rightarrow> 's \<Rightarrow> 's" where
  "semaphore_dtor api sem = (let (rv, sem') = sem_destroy api sem in sem')"

definition semaphore_post :: "'s sem_api \<Rightarrow> 's \<Rightarrow> 's" where
  "semaphore_post api sem = (let (rv, sem') = sem_post api sem in sem')"

definition semaphore_wait :: "'s sem_api \<Rightarrow> 's \<Rightarrow> 's" where
  "semaphore_wait api sem = (let (rv, sem') = sem_wait api sem in sem')"

definition semaphore_try_wait :: "'s sem_api \<Rightarrow> 's \<Rightarrow> 's" where
  "semaphore_try_wait api sem = (let (rv, sem') = sem_trywait api sem in sem')"

definition semaphore_get_value :: "'s sem_api \<Rightarrow> 's \<Rightarrow> int" where
  "semaphore_get_value api sem = (let (rv, v) = sem_getvalue api sem in v)"

end
