(* ===== verification/Stacktrace.thy ===== *)
theory Stacktrace
  imports Prelude
begin

text \<open>
  \<^verbatim>\<open>print_stacktrace\<close> of \<^verbatim>\<open>src/src/stacktrace.h\<close>, which \<^verbatim>\<open>default_futex_critical_error\<close> and
  the destructor of \<^verbatim>\<open>futex_rw_control\<close> call before they end the process: it cuts each symbol
  line \<^verbatim>\<open>module(function+offset) [address]\<close> into its parts, in place, and prints it with the
  demangled name.

  A C string is a list of characters that ends with \<open>NUL\<close>; a position in it is a number, and the
  pointers that may be null are \<open>nat option\<close>. What the function takes from the C library is a
  record of arguments: the addresses on the stack, their symbol lines with the block
  that holds them, the result of \<^verbatim>\<open>malloc\<close>, and the demangler. The state is the text printed
  so far and the blocks that \<^verbatim>\<open>free\<close> may be given.
\<close>

section \<open>The function\<close>

definition NUL :: char where "NUL = CHR 0x00"

record st_libc =
  backtrace :: "int \<Rightarrow> nat list"  \<comment> \<open>the addresses on the stack, at most as many as the array holds\<close>
  backtrace_symbols :: "nat list \<Rightarrow> (nat \<times> (nat \<Rightarrow> string)) option"  \<comment> \<open>the block and its lines, or \<^verbatim>\<open>NULL\<close>\<close>
  malloc :: nat  \<comment> \<open>the block for the function name, 0 for \<^verbatim>\<open>NULL\<close>\<close>
  cxa_demangle :: "string \<Rightarrow> nat \<Rightarrow> int \<times> nat \<times> string"
    \<comment> \<open>of a mangled name and the block of the name: the status, the block that is returned and its text\<close>

record st_state =
  out :: string
  live :: "nat set"

definition fprintf :: "string \<Rightarrow> st_state \<Rightarrow> st_state" where
  "fprintf txt s = s\<lparr>out := out s @ txt\<rparr>"

definition free :: "nat \<Rightarrow> st_state \<Rightarrow> st_state ctl" where
  "free p s = (if p = 0 then Ret s
     else if p \<in> live s then Ret (s\<lparr>live := live s - {p}\<rparr>) else Stop (Undefined ''free''))"

text \<open>\<^verbatim>\<open>%s\<close> of a pointer into a buffer.\<close>

definition cstr :: "string \<Rightarrow> nat \<Rightarrow> string" where
  "cstr buf p = takeWhile (\<lambda>c. c \<noteq> NUL) (drop p buf)"

text \<open>
  The loop that looks for the parentheses and the plus sign: the rest of the line, the position of
  \<^verbatim>\<open>p\<close>, \<^verbatim>\<open>begin_name\<close> and \<^verbatim>\<open>begin_offset\<close>; the result has \<^verbatim>\<open>end_offset\<close> as its third part.
\<close>

fun find_marks :: "string \<Rightarrow> nat \<Rightarrow> nat option \<Rightarrow> nat option \<Rightarrow> (nat option \<times> nat option \<times> nat option) ctl" where
  "find_marks [] p begin_name begin_offset = Stop (Bad_deref ''p'')"
| "find_marks (c # cs) p begin_name begin_offset =
     (if c = NUL then Ret (begin_name, begin_offset, None)
      else if c = CHR ''('' then find_marks cs (Suc p) (Some p) begin_offset
      else if c = CHR ''+'' then find_marks cs (Suc p) begin_name (Some p)
      else if c = CHR '')'' \<and> begin_offset \<noteq> None then Ret (begin_name, begin_offset, Some p)
      else find_marks cs (Suc p) begin_name begin_offset)"

text \<open>
  One line. The demangler reuses the block of the name or replaces it: on success the returned block takes
  the place of the one given to it.
\<close>

definition demangled :: "nat \<Rightarrow> nat \<Rightarrow> st_state \<Rightarrow> st_state" where
  "demangled funcname ret s = s\<lparr>live := insert ret (live s - {funcname})\<rparr>"

definition print_line :: "st_libc \<Rightarrow> string \<Rightarrow> nat \<Rightarrow> st_state \<Rightarrow> (nat \<times> st_state) ctl" where
  "print_line L line funcname s =
     bnd (find_marks line 0 None None) (\<lambda>(begin_name, begin_offset, end_offset).
     case (begin_name, begin_offset, end_offset) of
       (Some bn, Some bo, Some eo) \<Rightarrow>
         if bn < bo then
           let buf = ((line[bn := NUL])[bo := NUL])[eo := NUL];
               bn = bn + 1; bo = bo + 1;
               (status, ret, txt') = cxa_demangle L (cstr buf bn) funcname
           in if status = 0
              then Ret (ret, fprintf (''  '' @ cstr buf 0 @ '' : '' @ txt' @ ''+'' @ cstr buf bo @ [CHR 0x0A]) (demangled funcname ret s))
              else Ret (funcname, fprintf (''  '' @ cstr buf 0 @ '' : '' @ cstr buf bn @ ''()+'' @ cstr buf bo @ [CHR 0x0A]) s)
         else Ret (funcname, fprintf (''  '' @ cstr line 0 @ [CHR 0x0A]) s)
     | _ \<Rightarrow> Ret (funcname, fprintf (''  '' @ cstr line 0 @ [CHR 0x0A]) s))"

fun print_lines :: "st_libc \<Rightarrow> string list \<Rightarrow> nat \<Rightarrow> st_state \<Rightarrow> (nat \<times> st_state) ctl" where
  "print_lines L [] funcname s = Ret (funcname, s)"
| "print_lines L (line # lines) funcname s =
     bnd (print_line L (line @ [NUL]) funcname s) (\<lambda>(funcname, s). print_lines L lines funcname s)"

text \<open>
  The array has \<^verbatim>\<open>max_frames + 1\<close> elements, an \<^verbatim>\<open>unsigned int\<close>; an array without elements
  is undefined behaviour. \<^verbatim>\<open>backtrace\<close> takes the number of elements as an \<^verbatim>\<open>int\<close>, which is negative from
  \<open>2 ^ 31\<close> on. Lines are read through \<^verbatim>\<open>symbollist\<close> from the second on.
\<close>

definition print_stacktrace :: "st_libc \<Rightarrow> i32 \<Rightarrow> st_state \<Rightarrow> st_state ctl" where
  "print_stacktrace L max_frames s0 =
     (let s = fprintf (''stack trace:'' @ [CHR 0x0A]) s0;
          size = max_frames + 1;
          addrlist = backtrace L (sint size)
      in if size = 0 then Stop (Undefined ''addrlist'')
         else if addrlist = [] then Ret (fprintf (''  <empty, possibly corrupt>'' @ [CHR 0x0A]) s)
         else
           let symbollist = backtrace_symbols L addrlist;
               block = (case symbollist of None \<Rightarrow> 0 | Some (b, _) \<Rightarrow> b);
               s = s\<lparr>live := live s \<union> (if block = 0 then {} else {block})\<rparr>;
               funcname = malloc L;
               s = s\<lparr>live := live s \<union> (if funcname = 0 then {} else {funcname})\<rparr>
           in bnd (case symbollist of
                 None \<Rightarrow> if length addrlist = 1 then Ret (funcname, s) else Stop (Bad_deref ''symbollist'')
               | Some (_, line) \<Rightarrow> print_lines L (map line [1..<length addrlist]) funcname s) (\<lambda>(funcname, s).
              bnd (free funcname s) (\<lambda>s. free block s)))"

section \<open>The parts of a line\<close>

text \<open>The last position of a character, and whether a closing parenthesis follows a plus sign.\<close>

definition last_pos :: "char \<Rightarrow> string \<Rightarrow> nat option" where
  "last_pos c xs = (if c \<in> set xs then Some (length (dropWhile (\<lambda>x. x \<noteq> c) (rev xs)) - 1) else None)"

definition closes :: "string \<Rightarrow> bool" where
  "closes xs \<longleftrightarrow> (\<exists>ys zs. xs = ys @ CHR '')'' # zs \<and> CHR ''+'' \<in> set ys)"

lemma last_pos_snoc: "last_pos c (xs @ [x]) = (if x = c then Some (length xs) else last_pos c xs)"
  by (auto simp: last_pos_def)

lemma last_pos_Nil [simp]: "last_pos c [] = None"
  by (simp add: last_pos_def)

lemma last_pos_split: "c \<notin> set zs \<Longrightarrow> last_pos c (ys @ c # zs) = Some (length ys)"
proof (induction zs rule: rev_induct)
  case (snoc z zs)
  then show ?case using last_pos_snoc [of c "ys @ c # zs" z] by auto
qed (simp add: last_pos_snoc)

lemma last_pos_None: "last_pos c xs = None \<longleftrightarrow> c \<notin> set xs"
  by (simp add: last_pos_def)

lemma closes_append: "closes xs \<Longrightarrow> closes (xs @ ys)"
  unfolding closes_def by fastforce

lemma closes_snoc: "closes (xs @ [x]) \<longleftrightarrow> closes xs \<or> x = CHR '')'' \<and> CHR ''+'' \<in> set xs"
proof
  assume "closes (xs @ [x])"
  then obtain ys zs where e: "xs @ [x] = ys @ CHR '')'' # zs" and p: "CHR ''+'' \<in> set ys" by (auto simp: closes_def)
  show "closes xs \<or> x = CHR '')'' \<and> CHR ''+'' \<in> set xs"
    using e p by (cases zs rule: rev_cases) (auto simp: closes_def)
next
  assume "closes xs \<or> x = CHR '')'' \<and> CHR ''+'' \<in> set xs"
  then show "closes (xs @ [x])"
  proof
    assume "closes xs"
    then show ?thesis by (rule closes_append)
  qed (auto simp: closes_def)
qed

lemma closes_Nil [simp]: "\<not> closes []"
  by (simp add: closes_def)

lemma closes_first: "closes xs \<Longrightarrow> \<exists>ys zs. xs = ys @ CHR '')'' # zs \<and> CHR ''+'' \<in> set ys \<and> \<not> closes ys"
proof (induction xs rule: rev_induct)
  case (snoc x xs)
  show ?case
  proof (cases "closes xs")
    case True
    with snoc.IH show ?thesis by fastforce
  next
    case False
    with snoc.prems show ?thesis by (auto simp: closes_snoc)
  qed
qed simp

lemma find_marks_end:
  assumes "\<not> closes (pre @ cs)" and "NUL \<notin> set cs"
  shows "find_marks (cs @ [NUL]) (length pre) (last_pos CHR ''('' pre) (last_pos CHR ''+'' pre) =
    Ret (last_pos CHR ''('' (pre @ cs), last_pos CHR ''+'' (pre @ cs), None)"
  using assms
proof (induction cs arbitrary: pre)
  case (Cons c cs)
  have "\<not> closes (pre @ [c])" using Cons.prems(1) unfolding closes_def by (metis append.assoc append_Cons append_Nil)
  then have "\<not> (c = CHR '')'' \<and> last_pos CHR ''+'' pre \<noteq> None)" by (auto simp: closes_snoc last_pos_None)
  then show ?case using Cons.IH [of "pre @ [c]"] Cons.prems by (auto simp: last_pos_snoc)
qed simp

lemma find_marks_found:
  assumes "\<not> closes (pre @ cs)" and "NUL \<notin> set cs" and "CHR ''+'' \<in> set (pre @ cs)"
  shows "find_marks (cs @ CHR '')'' # ds) (length pre) (last_pos CHR ''('' pre) (last_pos CHR ''+'' pre) =
    Ret (last_pos CHR ''('' (pre @ cs), last_pos CHR ''+'' (pre @ cs), Some (length (pre @ cs)))"
  using assms
proof (induction cs arbitrary: pre)
  case Nil
  then show ?case by (simp add: NUL_def last_pos_None)
next
  case (Cons c cs)
  have "\<not> closes (pre @ [c])" using Cons.prems(1) unfolding closes_def by (metis append.assoc append_Cons append_Nil)
  then have "\<not> (c = CHR '')'' \<and> last_pos CHR ''+'' pre \<noteq> None)" by (auto simp: closes_snoc last_pos_None)
  then show ?case using Cons.IH [of "pre @ [c]"] Cons.prems by (auto simp: last_pos_snoc)
qed

lemma find_marks_returns: "\<exists>r. find_marks (cs @ [NUL]) p bn bo = Ret r"
  by (induction cs arbitrary: p bn bo) auto

lemmas find_marks_line = find_marks_end [of "[]", simplified] find_marks_found [of "[]", simplified]

text \<open>
  What the loop accepts: a name that no opening parenthesis interrupts, an offset without plus
  sign, and the first closing parenthesis after a plus sign.
\<close>

definition symbol_parts :: "string \<Rightarrow> string \<Rightarrow> string \<Rightarrow> bool" where
  "symbol_parts m f off \<longleftrightarrow> CHR ''('' \<notin> set f \<and> CHR ''('' \<notin> set off \<and> CHR ''+'' \<notin> set off \<and>
     \<not> closes (m @ CHR ''('' # f @ CHR ''+'' # off)"

lemma cstr_append: "NUL \<notin> set ys \<Longrightarrow> length xs = p \<Longrightarrow> cstr (xs @ ys @ NUL # zs) p = ys"
  by (simp add: cstr_def takeWhile_append2 [of ys] takeWhile_eq_all_conv) (metis (mono_tags, lifting) takeWhile_append1 takeWhile_append2 takeWhile.simps(2) append_Nil2)

lemma print_line_parts:
  assumes l: "line = m @ CHR ''('' # f @ CHR ''+'' # off @ CHR '')'' # r" and nul: "NUL \<notin> set line" and p: "symbol_parts m f off"
  shows "print_line L (line @ [NUL]) fn s =
    (let (status, ret, name) = cxa_demangle L f fn
     in if status = 0 then Ret (ret, fprintf (''  '' @ m @ '' : '' @ name @ ''+'' @ off @ [CHR 0x0A]) (demangled fn ret s))
        else Ret (fn, fprintf (''  '' @ m @ '' : '' @ f @ ''()+'' @ off @ [CHR 0x0A]) s))"
proof -
  let ?a = "m @ CHR ''('' # f @ CHR ''+'' # off"
  let ?buf = "m @ NUL # f @ NUL # off @ NUL # r @ [NUL]"
  have "last_pos CHR ''('' ?a = Some (length m)" "last_pos CHR ''+'' ?a = Some (length m + 1 + length f)"
    using last_pos_split [of "CHR ''(''" "f @ CHR ''+'' # off" m] last_pos_split [of "CHR ''+''" off "m @ CHR ''('' # f"] p
    by (auto simp: symbol_parts_def)
  then have marks: "find_marks (line @ [NUL]) 0 None None = Ret (Some (length m), Some (length m + 1 + length f), Some (length ?a))"
    using find_marks_line(2) [of ?a "r @ [NUL]"] p nul l by (simp add: symbol_parts_def)
  have upd: "(((line @ [NUL])[length m := NUL])[length m + 1 + length f := NUL])[length ?a := NUL] = ?buf"
    using l by (simp add: list_update_append)
  have "cstr ?buf 0 = m" "cstr ?buf (length m + 1) = f" "cstr ?buf (length m + 1 + length f + 1) = off"
    using cstr_append [of m "[]" 0 "f @ NUL # off @ NUL # r @ [NUL]"] cstr_append [of f "m @ [NUL]" "length m + 1" "off @ NUL # r @ [NUL]"]
      cstr_append [of off "m @ NUL # f @ [NUL]" "length m + 1 + length f + 1" "r @ [NUL]"] l nul
    by simp_all
  with marks upd show ?thesis by (simp add: print_line_def Let_def split: prod.split)
qed

lemma print_line_whole:
  assumes nul: "NUL \<notin> set line" and no: "\<nexists>m f off r. line = m @ CHR ''('' # f @ CHR ''+'' # off @ CHR '')'' # r \<and> symbol_parts m f off"
  shows "print_line L (line @ [NUL]) fn s = Ret (fn, fprintf (''  '' @ line @ [CHR 0x0A]) s)"
proof -
  have c: "cstr (line @ [NUL]) 0 = line" using cstr_append [of line "[]" 0 "[]"] nul by simp
  show ?thesis
  proof (cases "closes line")
    case False
    with find_marks_line(1) [OF _ nul] c show ?thesis by (auto simp: print_line_def split: option.splits)
  next
    case True
    then obtain a r where l: "line = a @ CHR '')'' # r" and a: "CHR ''+'' \<in> set a" "\<not> closes a" using closes_first by blast
    then have marks: "find_marks (line @ [NUL]) 0 None None = Ret (last_pos CHR ''('' a, last_pos CHR ''+'' a, Some (length a))"
      using find_marks_line(2) [of a "r @ [NUL]"] nul by simp
    obtain m' off where o: "a = m' @ CHR ''+'' # off" "CHR ''+'' \<notin> set off" using a(1) split_list_last by fastforce
    have "\<not> b < length m'" if b: "last_pos CHR ''('' a = Some b" for b
    proof
      assume lt: "b < length m'"
      have "CHR ''('' \<in> set a" using b last_pos_None by force
      then obtain m n where n: "a = m @ CHR ''('' # n" "CHR ''('' \<notin> set n" using split_list_last by fastforce
      then have "b = length m" using b last_pos_split by simp
      have "m' = take (length m') (m @ CHR ''('' # n)" using o(1) n(1) by (metis append_eq_conv_conj)
      then have "m' = m @ CHR ''('' # take (length m' - length m - 1) n"
        using lt \<open>b = length m\<close> by (simp add: take_Cons')
      moreover from this have "n = take (length m' - length m - 1) n @ CHR ''+'' # off"
        using o(1) n(1) by (metis append.assoc append_Cons same_append_eq list.inject)
      ultimately obtain f where "m' = m @ CHR ''('' # f" "n = f @ CHR ''+'' # off" by blast
      with o n l a no show False by (auto simp: symbol_parts_def)
    qed
    with marks last_pos_split [OF o(2), of m'] o(1) c show ?thesis
      by (auto simp: print_line_def split: option.splits)
  qed
qed

text \<open>
  C34: Every symbol line without a NUL character is printed in one of two ways. A line
  \<^verbatim>\<open>m(f+off)r\<close> whose parts the loop can tell apart is printed as \<^verbatim>\<open>m : name+off\<close> with the
  demangled name, or as \<^verbatim>\<open>m : f()+off\<close> if demangling fails, although the function cuts the
  line in place; every other line is printed as it is. No read leaves the line.
\<close>

theorem stacktrace_line:
  assumes "NUL \<notin> set line"
  shows "(\<forall>m f off r. line = m @ CHR ''('' # f @ CHR ''+'' # off @ CHR '')'' # r \<and> symbol_parts m f off \<longrightarrow>
      print_line L (line @ [NUL]) fn s =
        (let (status, ret, name) = cxa_demangle L f fn
         in if status = 0 then Ret (ret, fprintf (''  '' @ m @ '' : '' @ name @ ''+'' @ off @ [CHR 0x0A]) (demangled fn ret s))
            else Ret (fn, fprintf (''  '' @ m @ '' : '' @ f @ ''()+'' @ off @ [CHR 0x0A]) s))) \<and>
    ((\<nexists>m f off r. line = m @ CHR ''('' # f @ CHR ''+'' # off @ CHR '')'' # r \<and> symbol_parts m f off) \<longrightarrow>
      print_line L (line @ [NUL]) fn s = Ret (fn, fprintf (''  '' @ line @ [CHR 0x0A]) s))"
proof (rule conjI, intro allI impI)
  show "print_line L (line @ [NUL]) fn s = (let (status, ret, name) = cxa_demangle L f fn
       in if status = 0 then Ret (ret, fprintf (''  '' @ m @ '' : '' @ name @ ''+'' @ off @ [CHR 0x0A]) (demangled fn ret s))
          else Ret (fn, fprintf (''  '' @ m @ '' : '' @ f @ ''()+'' @ off @ [CHR 0x0A]) s))"
    if "line = m @ CHR ''('' # f @ CHR ''+'' # off @ CHR '')'' # r \<and> symbol_parts m f off" for m f off r
    using that assms by (intro print_line_parts) auto
qed (use print_line_whole [OF assms] in blast)

definition some_libc :: st_libc where
  "some_libc = \<lparr>backtrace = (\<lambda>n. take (nat n) [10, 11, 12]),
     backtrace_symbols = (\<lambda>xs. Some (7, \<lambda>i. if i = 1 then ''./app(_Z3foov+0x15c) [0x8048a6d]'' else ''./app() [0x80]'')),
     malloc = 8, cxa_demangle = (\<lambda>name fn. if name = ''_Z3foov'' \<and> fn \<noteq> 0 then (0, fn, ''foo()'') else (-2, 0, []))\<rparr>"

theorem stacktrace_line_witness:
  "print_line some_libc (''./app(_Z3foov+0x15c) [0x8048a6d]'' @ [NUL]) 8 \<lparr>out = [], live = {7, 8}\<rparr> =
     Ret (8, fprintf (''  ./app : foo()+0x15c'' @ [CHR 0x0A]) (demangled 8 8 \<lparr>out = [], live = {7, 8}\<rparr>)) \<and>
   symbol_parts ''./app'' ''_Z3foov'' ''0x15c''"
proof -
  have c: "\<not> closes ''./app(_Z3foov+0x15c''"
    by (auto simp: closes_def Cons_eq_append_conv)
  then have p: "symbol_parts ''./app'' ''_Z3foov'' ''0x15c''" by (simp add: symbol_parts_def)
  have n: "NUL \<notin> set ''./app(_Z3foov+0x15c) [0x8048a6d]''" by (simp add: NUL_def)
  have l: "''./app(_Z3foov+0x15c) [0x8048a6d]'' = ''./app'' @ CHR ''('' # ''_Z3foov'' @ CHR ''+'' # ''0x15c'' @ CHR '')'' # '' [0x8048a6d]''"
    by simp
  show ?thesis
    using stacktrace_line [OF n, of some_libc 8 "\<lparr>out = [], live = {7, 8}\<rparr>", THEN conjunct1, rule_format, OF conjI, OF l p] p
    by (simp add: some_libc_def)
qed

section \<open>Memory\<close>

text \<open>
  What the documentation of the C library promises of the blocks, as far as it matters here: the
  blocks of \<^verbatim>\<open>backtrace_symbols\<close>, \<^verbatim>\<open>malloc\<close> and the demangler are not those in use, and the
  demangler returns the block it was given or another one.
\<close>

definition documented_libc :: "st_libc \<Rightarrow> nat \<Rightarrow> nat set \<Rightarrow> bool" where
  "documented_libc L block used \<longleftrightarrow> block \<noteq> 0 \<and> block \<notin> used \<and> malloc L \<notin> used \<and> malloc L \<noteq> block \<and>
     (\<forall>name fn. case cxa_demangle L name fn of (status, ret, t) \<Rightarrow>
        status = 0 \<longrightarrow> ret = fn \<and> fn \<noteq> 0 \<or> ret \<noteq> 0 \<and> ret \<notin> used \<and> ret \<noteq> block)"

text \<open>The blocks while lines are printed: those in use before, the lines, and the name unless it is null.\<close>

definition st_blocks :: "nat set \<Rightarrow> nat \<Rightarrow> nat \<Rightarrow> nat set" where
  "st_blocks used block fn = used \<union> {block} \<union> (if fn = 0 then {} else {fn})"

lemma print_line_blocks:
  assumes d: "documented_libc L block used" and l: "live s = st_blocks used block fn" and f: "fn \<notin> used" "fn \<noteq> block"
  shows "\<exists>fn' s'. print_line L (line @ [NUL]) fn s = Ret (fn', s') \<and> live s' = st_blocks used block fn' \<and> fn' \<notin> used \<and> fn' \<noteq> block"
proof -
  obtain bn bo eo where m: "find_marks (line @ [NUL]) 0 None None = Ret (bn, bo, eo)"
    using find_marks_returns [of line 0 None None] by auto
  have k: "ret \<notin> used \<and> ret \<noteq> block \<and> live (demangled fn ret s) = st_blocks used block ret" if "cxa_demangle L name fn = (0, ret, t)" for name ret t
  proof -
    have "ret = fn \<and> fn \<noteq> 0 \<or> ret \<noteq> 0 \<and> ret \<notin> used \<and> ret \<noteq> block"
      using d that unfolding documented_libc_def by (metis (mono_tags, lifting) case_prod_conv)
    with f l d show ?thesis by (auto simp: demangled_def st_blocks_def documented_libc_def)
  qed
  show ?thesis
    using m l f by (auto simp: print_line_def Let_def fprintf_def split: option.splits prod.splits dest: k)
qed

lemma print_lines_blocks:
  assumes "documented_libc L block used" and "live s = st_blocks used block fn" and "fn \<notin> used" "fn \<noteq> block"
  shows "\<exists>fn' s'. print_lines L lines fn s = Ret (fn', s') \<and> live s' = st_blocks used block fn' \<and> fn' \<notin> used \<and> fn' \<noteq> block"
  using assms(2-)
proof (induction lines arbitrary: fn s)
  case (Cons line lines)
  from print_line_blocks [OF assms(1) Cons.prems, of line] obtain fn1 s1
    where "print_line L (line @ [NUL]) fn s = Ret (fn1, s1)" "live s1 = st_blocks used block fn1" "fn1 \<notin> used" "fn1 \<noteq> block" by blast
  with Cons.IH [of s1 fn1] show ?case by simp
qed simp

text \<open>
  C33: \<^verbatim>\<open>print_stacktrace\<close> returns and has freed what it allocated and nothing else, whatever the
  symbol lines are and whether \<^verbatim>\<open>malloc\<close> succeeds or not. It reads through a null pointer if
  \<^verbatim>\<open>backtrace_symbols\<close> fails, and declares an empty array if \<^verbatim>\<open>max_frames\<close> is \<^verbatim>\<open>UINT_MAX\<close>.
\<close>

theorem stacktrace_memory:
  assumes "max_frames \<noteq> -1"
  shows "(\<forall>block line. backtrace_symbols L (backtrace L (sint (max_frames + 1))) = Some (block, line) \<and>
        documented_libc L block (live s) \<longrightarrow> (\<exists>s'. print_stacktrace L max_frames s = Ret s' \<and> live s' = live s)) \<and>
    (backtrace_symbols L (backtrace L (sint (max_frames + 1))) = None \<and> 2 \<le> length (backtrace L (sint (max_frames + 1))) \<longrightarrow>
      print_stacktrace L max_frames s = Stop (Bad_deref ''symbollist'')) \<and>
    print_stacktrace L (-1) s = Stop (Undefined ''addrlist'')"
proof (intro conjI allI impI)
  have z: "max_frames + 1 \<noteq> 0" using assms by (metis add_eq_0_iff add.commute)
  fix block line
  assume a: "backtrace_symbols L (backtrace L (sint (max_frames + 1))) = Some (block, line) \<and> documented_libc L block (live s)"
  let ?s = "(fprintf (''stack trace:'' @ [CHR 0x0A]) s)\<lparr>live := st_blocks (live s) block (malloc L)\<rparr>"
  let ?n = "length (backtrace L (sint (max_frames + 1)))"
  obtain fn s1 where p: "print_lines L (map line [1..<?n]) (malloc L) ?s = Ret (fn, s1)"
    and l: "live s1 = st_blocks (live s) block fn" and f: "fn \<notin> live s" "fn \<noteq> block"
    using print_lines_blocks [of L block "live s" ?s "malloc L" "map line [1..<?n]"] a by (auto simp: documented_libc_def)
  have "block \<notin> live s" "block \<noteq> 0" using a by (auto simp: documented_libc_def)
  then have fr: "\<exists>s'. bnd (free fn s1) (free block) = Ret s' \<and> live s' = live s"
    using l f by (auto simp: free_def st_blocks_def)
  show "\<exists>s'. print_stacktrace L max_frames s = Ret s' \<and> live s' = live s"
  proof (cases "?n = 0")
    case True
    with z show ?thesis by (simp add: print_stacktrace_def Let_def fprintf_def)
  next
    case False
    with z a p fr \<open>block \<noteq> 0\<close> show ?thesis
      by (simp add: print_stacktrace_def Let_def fprintf_def st_blocks_def)
  qed
next
  have z: "max_frames + 1 \<noteq> 0" using assms by (metis add_eq_0_iff add.commute)
  assume "backtrace_symbols L (backtrace L (sint (max_frames + 1))) = None \<and> 2 \<le> length (backtrace L (sint (max_frames + 1)))"
  with z show "print_stacktrace L max_frames s = Stop (Bad_deref ''symbollist'')"
    by (auto simp: print_stacktrace_def Let_def)
qed (simp add: print_stacktrace_def Let_def)

theorem stacktrace_memory_witness:
  "\<exists>s'. print_stacktrace some_libc 63 \<lparr>out = [], live = {1}\<rparr> = Ret s' \<and> live s' = {1}"
  using stacktrace_memory [of 63 some_libc "\<lparr>out = [], live = {1}\<rparr>", THEN conjunct1]
  by (simp add: documented_libc_def some_libc_def)

end
