(* ===== verification/Solo.thy ===== *)
theory Solo
  imports Threads
begin

text \<open>
  Running one function alone. \<open>solo f p m\<close> executes the function whose program points are
  given by \<open>f\<close> from point \<open>p\<close> on memory \<open>m\<close>, with no other thread in between:
  \<^const>\<open>None\<close> if it never returns or blocks. The lemmas say how a call inside another
  function runs, and that a thread of the machine that is scheduled alone does the same.
\<close>

section \<open>Atomic steps and solo runs\<close>

text \<open>One atomic access that may fault.\<close>

definition atom :: "('s \<Rightarrow> ('n \<times> 's) ctl) \<Rightarrow> ('s, 'n, 'c) action" where
  "atom f = Mem (\<lambda>s. case f s of Ret (n, s') \<Rightarrow> (s', Ret n) | Stop e \<Rightarrow> (s, Stop e))"

partial_function (option) solo :: "('p \<Rightarrow> ('m, ('p, 'r) cont, 'c) action) \<Rightarrow> 'p \<Rightarrow> 'm \<Rightarrow> ('r \<times> 'm) ctl option" where
  "solo f p m = (case f p of
       Mem g \<Rightarrow> (case g m of (m', c) \<Rightarrow> (case c of
           Stop e \<Rightarrow> Some (Stop e)
         | Ret n \<Rightarrow> (case n of Goto q \<Rightarrow> solo f q m' | Done r \<Rightarrow> Some (Ret (r, m')))))
     | _ \<Rightarrow> None)"

declare solo.simps [simp del, code]

definition resume :: "('p \<Rightarrow> ('m, ('p, 'r) cont, 'c) action) \<Rightarrow> ('p, 'r) cont \<Rightarrow> 'm \<Rightarrow> ('r \<times> 'm) ctl option" where
  "resume f n m = (case n of Goto q \<Rightarrow> solo f q m | Done r \<Rightarrow> Some (Ret (r, m)))"

text \<open>A call of \<open>f\<close> from a function with points of its own, which goes on at \<open>k\<close>.\<close>

definition via :: "('q \<Rightarrow> 'p) \<Rightarrow> ('r0 \<Rightarrow> ('p, 'r) cont) \<Rightarrow> ('m, ('q, 'r0) cont, 'c) action
    \<Rightarrow> ('m, ('p, 'r) cont, 'c) action" where
  "via at k a = calls (\<lambda>q. Goto (at q)) k a"

section \<open>Lemmas\<close>

lemma resume_simps [simp]:
  "resume f (Goto q) m = solo f q m" "resume f (Done r) m = Some (Ret (r, m))"
  by (simp_all add: resume_def)

lemma solo_atom:
  assumes "f p = atom g"
  shows "solo f p m = (case g m of Ret (n, m') \<Rightarrow> resume f n m' | Stop e \<Rightarrow> Some (Stop e))"
  using assms by (subst solo.simps) (auto simp: atom_def resume_def split: ctl.splits cont.splits)

text \<open>A solo run goes through a call to the end of the called function.\<close>

lemma solo_via_run:
  assumes "\<And>q. F (at q) = via at k (f q)" and "solo f p m = Some y"
  shows "solo F (at p) m = (case y of Ret (r, m') \<Rightarrow> resume F (k r) m' | Stop e \<Rightarrow> Some (Stop e))"
proof -
  let ?P = "\<lambda>f p m y. (\<forall>q. F (at q) = via at k (f q)) \<longrightarrow>
      solo F (at p) m = (case y of Ret (r, m') \<Rightarrow> resume F (k r) m' | Stop e \<Rightarrow> Some (Stop e))"
  have "?P f p m y"
  proof (rule solo.raw_induct [where P = ?P, OF _ assms(2)], rule impI)
    fix S f p m y
    assume IH: "\<And>f p m y. S f p m = Some y \<Longrightarrow> ?P f p m y" and F: "\<forall>q. F (at q) = via at k (f q)"
      and b: "(case f p of Mem g \<Rightarrow> (case g m of (m', c) \<Rightarrow> (case c of Stop e \<Rightarrow> Some (Stop e)
          | Ret n \<Rightarrow> (case n of Goto q \<Rightarrow> S f q m' | Done r \<Rightarrow> Some (Ret (r, m'))))) | _ \<Rightarrow> None) = Some y"
    from b obtain g m' c where g: "f p = Mem g" "g m = (m', c)"
      and y: "(case c of Stop e \<Rightarrow> Some (Stop e)
          | Ret n \<Rightarrow> (case n of Goto q \<Rightarrow> S f q m' | Done r \<Rightarrow> Some (Ret (r, m')))) = Some y"
      by (auto split: action.splits prod.splits)
    show "solo F (at p) m = (case y of Ret (r, m') \<Rightarrow> resume F (k r) m' | Stop e \<Rightarrow> Some (Stop e))"
    proof (cases c)
      case (Stop e)
      with y F g show ?thesis by (subst solo.simps) (auto simp: via_def calls_def)
    next
      case (Ret n)
      show ?thesis
      proof (cases n)
        case (Goto q)
        with Ret y F IH [of f q m' y] have "solo F (at q) m' = (case y of Ret (r, m') \<Rightarrow> resume F (k r) m' | Stop e \<Rightarrow> Some (Stop e))"
          by simp
        with Ret Goto F g show ?thesis by (subst solo.simps) (simp add: via_def calls_def)
      next
        case (Done r)
        with Ret y F g show ?thesis by (subst solo.simps) (auto simp: via_def calls_def resume_def split: cont.splits)
      qed
    qed
  qed
  with assms(1) show ?thesis by blast
qed

lemmas solo_via = solo_via_run [where y = "Ret (r, m')" for r m', simplified]

text \<open>A thread of the machine that runs undisturbed does what \<open>solo\<close> does.\<close>

lemma solo_run:
  fixes act :: "'p \<Rightarrow> ('m, 'p, 'c) action" and s :: "('m, 'p) conf"
  assumes "\<And>q. act (at q) = calls at ret (f q)" and "solo f p m = Some (Ret (r, m'))"
    and "pcs s t = at p" and "mem s = m" and "halted s = None" and "t < N"
  shows "\<exists>n. run kw N act rd s (replicate n (Run t)) =
    Some (s\<lparr>mem := m', pcs := (pcs s)(t := ret r), stat := (stat s)(t := Running)\<rparr>)"
proof -
  let ?P = "\<lambda>f p m y. \<forall>(s :: ('m, 'p) conf) r m'. y = Ret (r, m') \<longrightarrow> (\<forall>q. act (at q) = calls at ret (f q)) \<longrightarrow> pcs s t = at p \<longrightarrow>
      mem s = m \<longrightarrow> halted s = None \<longrightarrow> (\<exists>n. run kw N act rd s (replicate n (Run t)) =
      Some (s\<lparr>mem := m', pcs := (pcs s)(t := ret r), stat := (stat s)(t := Running)\<rparr>))"
  have "?P f p m (Ret (r, m'))"
  proof (rule solo.raw_induct [where P = ?P, OF _ assms(2)], intro allI impI)
    fix S f p m y r m' and s :: "('m, 'p) conf"
    assume IH: "\<And>f p m y. S f p m = Some y \<Longrightarrow> ?P f p m y" and yr: "y = Ret (r, m')"
      and F: "\<forall>q. act (at q) = calls at ret (f q)"
      and s: "pcs s t = at p" "mem s = m" "halted s = None"
      and b: "(case f p of Mem g \<Rightarrow> (case g m of (m', c) \<Rightarrow> (case c of Stop e \<Rightarrow> Some (Stop e)
          | Ret n \<Rightarrow> (case n of Goto q \<Rightarrow> S f q m' | Done r \<Rightarrow> Some (Ret (r, m'))))) | _ \<Rightarrow> None) = Some y"
    from b obtain g m1 c where g: "f p = Mem g" "g m = (m1, c)"
      and y: "(case c of Stop e \<Rightarrow> Some (Stop e)
          | Ret n \<Rightarrow> (case n of Goto q \<Rightarrow> S f q m1 | Done r \<Rightarrow> Some (Ret (r, m1)))) = Some y"
      by (auto split: action.splits prod.splits)
    with yr obtain n where n: "c = Ret n" by (cases c) auto
    let ?s = "s\<lparr>mem := m1, pcs := (pcs s)(t := after at ret n), stat := (stat s)(t := Running)\<rparr>"
    have e: "exec kw N act rd s (Run t) = Some ?s"
      using s F g n assms(6) by (simp add: calls_def)
    show "\<exists>n. run kw N act rd s (replicate n (Run t)) =
      Some (s\<lparr>mem := m', pcs := (pcs s)(t := ret r), stat := (stat s)(t := Running)\<rparr>)"
    proof (cases n)
      case (Goto q)
      with y n have "S f q m1 = Some y" by simp
      note ih = IH [OF this, rule_format, of r m' ?s, OF yr]
      obtain k where "run kw N act rd ?s (replicate k (Run t)) =
          Some (?s\<lparr>mem := m', pcs := (pcs ?s)(t := ret r), stat := (stat ?s)(t := Running)\<rparr>)"
        using ih F Goto s(3) by auto
      with e have "run kw N act rd s (replicate (Suc k) (Run t)) =
          Some (s\<lparr>mem := m', pcs := (pcs s)(t := ret r), stat := (stat s)(t := Running)\<rparr>)"
        by simp
      then show ?thesis by blast
    next
      case (Done x)
      with y n yr e have "run kw N act rd s (replicate (Suc 0) (Run t)) =
          Some (s\<lparr>mem := m', pcs := (pcs s)(t := ret r), stat := (stat s)(t := Running)\<rparr>)"
        by simp
      then show ?thesis by blast
    qed
  qed
  with assms show ?thesis by blast
qed

text \<open>An atomic access inside calls.\<close>

lemma calls_atom:
  "calls at ret (atom g) = Mem (\<lambda>m. case g m of Ret (n, s) \<Rightarrow> (s, Ret (case n of Goto q \<Rightarrow> at q | Done r \<Rightarrow> ret r)) | Stop e \<Rightarrow> (m, Stop e))"
  by (auto simp: calls_def atom_def fun_eq_iff split: ctl.splits)

lemma via_atom:
  "via at k (atom g) = atom (\<lambda>m. case g m of Ret (n, s) \<Rightarrow> Ret (case n of Goto q \<Rightarrow> Goto (at q) | Done r \<Rightarrow> k r, s) | Stop e \<Rightarrow> Stop e)"
  by (auto simp: via_def calls_def atom_def fun_eq_iff split: ctl.splits)

lemma calls_via: "calls at ret (via at' k a) = calls (\<lambda>q. at (at' q)) (\<lambda>r. after at ret (k r)) a"
  unfolding via_def by (subst calls_def) (simp add: embed_calls)

end
