(* ===== verification/Hazard_Nodes.thy ===== *)
theory Hazard_Nodes
  imports Solo
begin

text \<open>
  The data of \<^verbatim>\<open>src/src/HazardPointer.hpp\<close> and the functions on single nodes and lists of
  nodes: \<^verbatim>\<open>HazardPointerNode\<close>, and \<^verbatim>\<open>Add\<close>, \<^verbatim>\<open>push\<close>, \<^verbatim>\<open>remove\<close>,
  \<^verbatim>\<open>pop\<close>, the enqueue functions, \<^verbatim>\<open>Prime\<close> and \<^verbatim>\<open>AcquireNode\<close> of
  \<^verbatim>\<open>HazardPointerList\<close>. Nodes live in an explicit heap; addresses are numbers and 0 is
  \<^verbatim>\<open>NULL\<close>. Every shared access of a function is a step of its own, so that the same
  definitions serve for a thread that runs alone (\<open>solo\<close>) and for interleavings. A read or
  write through an address that is not allocated is the fault \<open>Bad_deref\<close>; a failed
  \<^verbatim>\<open>CHECK_ASSERT\<close> is \<open>Assert_failed\<close>. Addresses that \<^verbatim>\<open>new\<close> returns are
  arguments. The one exception: in \<open>Add\<close> and \<open>push\<close> the read of the head and the store of its value into the caller's own node
  are one step; the node is not on the list yet, so that no other thread looks at its link between the two.
\<close>

section \<open>Nodes and the list object\<close>

type_synonym addr = nat

abbreviation NULL :: addr where "NULL \<equiv> 0"

text \<open>
  A node; the member \<^verbatim>\<open>owner\<close> is left out because one list is modelled. \<open>next_node\<close> is
  the member \<^verbatim>\<open>next\<close>.
\<close>

record node =
  pointer :: addr
  gc_pointer :: addr
  fixed_link :: addr
  next_node :: addr

text \<open>The constructor leaves \<^verbatim>\<open>fixed_link\<close> uninitialised; \<open>junk\<close> is what it happens to hold.\<close>

definition HazardPointerNode_ctor :: "addr \<Rightarrow> node" where
  "HazardPointerNode_ctor junk = \<lparr>pointer = NULL, gc_pointer = NULL, fixed_link = junk, next_node = NULL\<rparr>"

definition IsUnqueued :: "node \<Rightarrow> bool" where
  "IsUnqueued n \<longleftrightarrow> next_node n = NULL"

definition IsEnqueued :: "node \<Rightarrow> bool" where
  "IsEnqueued n \<longleftrightarrow> next_node n \<noteq> NULL"

text \<open>
  The list object, with the heap of its nodes, the memory cells that \<^verbatim>\<open>Acquire\<close> reads
  object pointers from, the objects deleted so far, the number of \<^verbatim>\<open>Signal\<close> calls made to the
  collector thread, and the recursive mutex (its owner and depth).
\<close>

record hp_list =
  heap :: "addr \<rightharpoonup> node"
  end_node :: addr
  nodes :: addr
  gc_list :: addr
  free_list :: addr
  all_haz_ptrs :: "addr list"
  collector_client_lock :: "(tid \<times> nat) option"
  collector_thread :: bool
  signals :: nat
  cells :: "addr \<rightharpoonup> addr"
  deleted :: "addr list"

datatype list_head = Gc | Free

fun head_of :: "list_head \<Rightarrow> hp_list \<Rightarrow> addr" where
  "head_of Gc s = gc_list s"
| "head_of Free s = free_list s"

fun set_head :: "list_head \<Rightarrow> addr \<Rightarrow> hp_list \<Rightarrow> hp_list" where
  "set_head Gc a s = s\<lparr>gc_list := a\<rparr>"
| "set_head Free a s = s\<lparr>free_list := a\<rparr>"

definition load :: "(node \<Rightarrow> 'a) \<Rightarrow> addr \<Rightarrow> hp_list \<Rightarrow> 'a ctl" where
  "load fld a s = (case heap s a of None \<Rightarrow> Stop (Bad_deref ''node'') | Some n \<Rightarrow> Ret (fld n))"

definition store :: "(node \<Rightarrow> node) \<Rightarrow> addr \<Rightarrow> hp_list \<Rightarrow> hp_list ctl" where
  "store upd a s = (case heap s a of None \<Rightarrow> Stop (Bad_deref ''node'')
     | Some n \<Rightarrow> Ret (s\<lparr>heap := (heap s)(a \<mapsto> upd n)\<rparr>))"

type_synonym ('p, 'r) code = "'p \<Rightarrow> (hp_list, ('p, 'r) cont, unit) action"

section \<open>HazardPointerList: the lists\<close>

definition init :: "addr \<Rightarrow> hp_list \<Rightarrow> hp_list" where
  "init a s = s\<lparr>end_node := a,
     heap := (heap s)(a \<mapsto> (HazardPointerNode_ctor a)\<lparr>fixed_link := a, next_node := a\<rparr>),
     nodes := a, gc_list := a, free_list := a\<rparr>"

definition HazardPointerList_ctor :: "addr \<Rightarrow> (addr \<rightharpoonup> addr) \<Rightarrow> hp_list" where
  "HazardPointerList_ctor a mem_cells = init a \<lparr>heap = Map.empty, end_node = NULL, nodes = NULL, gc_list = NULL,
     free_list = NULL, all_haz_ptrs = [], collector_client_lock = None, collector_thread = False,
     signals = 0, cells = mem_cells, deleted = []\<rparr>"

datatype add_pc = AD_read | AD_cas

fun Add :: "addr \<Rightarrow> (add_pc, unit) code" where
  "Add node AD_read = atom (\<lambda>s.
     bnd (store (\<lambda>n. n\<lparr>fixed_link := nodes s\<rparr>) node s) (\<lambda>s. Ret (Goto AD_cas, s)))"
| "Add node AD_cas = atom (\<lambda>s.
     bnd (load fixed_link node s) (\<lambda>expected.
     let (ok, expected', h) = cas (nodes s) expected node
     in if ok then Ret (Done (), s\<lparr>nodes := h\<rparr>)
        else bnd (store (\<lambda>n. n\<lparr>fixed_link := expected'\<rparr>) node s) (\<lambda>s. Ret (Goto AD_read, s))))"

datatype push_pc = PU_check | PU_read | PU_cas

fun push :: "addr \<Rightarrow> list_head \<Rightarrow> (push_pc, unit) code" where
  "push node lh PU_check = atom (\<lambda>s.
     bnd (load IsUnqueued node s) (\<lambda>b.
     bnd (check b ''node->IsUnqueued()'') (\<lambda>_. Ret (Goto PU_read, s))))"
| "push node lh PU_read = atom (\<lambda>s.
     bnd (store (\<lambda>n. n\<lparr>next_node := head_of lh s\<rparr>) node s) (\<lambda>s. Ret (Goto PU_cas, s)))"
| "push node lh PU_cas = atom (\<lambda>s.
     bnd (load next_node node s) (\<lambda>expected.
     let (ok, expected', h) = cas (head_of lh s) expected node
     in if ok then Ret (Done (), set_head lh h s)
        else bnd (store (\<lambda>n. n\<lparr>next_node := expected'\<rparr>) node s) (\<lambda>s. Ret (Goto PU_read, s))))"

text \<open>\<^verbatim>\<open>ppnode\<close> in \<open>remove\<close> points to the head of the list or to the link of a node.\<close>

datatype link = Head list_head | Next addr

fun rd_link :: "link \<Rightarrow> hp_list \<Rightarrow> addr ctl" where
  "rd_link (Head lh) s = Ret (head_of lh s)"
| "rd_link (Next a) s = load next_node a s"

fun wr_link :: "link \<Rightarrow> addr \<Rightarrow> hp_list \<Rightarrow> hp_list ctl" where
  "wr_link (Head lh) v s = Ret (set_head lh v s)"
| "wr_link (Next a) v s = store (\<lambda>n. n\<lparr>next_node := v\<rparr>) a s"

datatype remove_pc =
    RM_test1 link | RM_test2 link | RM_advance link | RM_end link | RM_expected link
  | RM_desired link addr | RM_cas link addr addr | RM_clear

fun remove :: "addr \<Rightarrow> list_head \<Rightarrow> (remove_pc, unit) code" where
  "remove node lh (RM_test1 ppnode) = atom (\<lambda>s. bnd (rd_link ppnode s) (\<lambda>v.
     Ret (if v \<noteq> node then Goto (RM_test2 ppnode) else Goto (RM_end ppnode), s)))"
| "remove node lh (RM_test2 ppnode) = atom (\<lambda>s. bnd (rd_link ppnode s) (\<lambda>v.
     Ret (if v \<noteq> end_node s then Goto (RM_advance ppnode) else Goto (RM_end ppnode), s)))"
| "remove node lh (RM_advance ppnode) = atom (\<lambda>s. bnd (rd_link ppnode s) (\<lambda>v.
     Ret (Goto (RM_test1 (Next v)), s)))"
| "remove node lh (RM_end ppnode) = atom (\<lambda>s. bnd (rd_link ppnode s) (\<lambda>v.
     if v = end_node s then bnd (check False ''false'') (\<lambda>_. Ret (Done (), s))
     else Ret (Goto (RM_expected ppnode), s)))"
| "remove node lh (RM_expected ppnode) = atom (\<lambda>s. bnd (rd_link ppnode s) (\<lambda>v.
     Ret (Goto (RM_desired ppnode v), s)))"
| "remove node lh (RM_desired ppnode expected) = atom (\<lambda>s. bnd (load next_node expected s) (\<lambda>desired.
     Ret (Goto (RM_cas ppnode expected desired), s)))"
| "remove node lh (RM_cas ppnode expected desired) = atom (\<lambda>s. bnd (rd_link ppnode s) (\<lambda>v.
     let (ok, expected', v') = cas v expected desired
     in if ok then bnd (wr_link ppnode v' s) (\<lambda>s. Ret (Goto RM_clear, s))
        else Ret (Goto (RM_test1 (Head lh)), s)))"
| "remove node lh RM_clear = atom (\<lambda>s.
     bnd (store (\<lambda>n. n\<lparr>next_node := NULL\<rparr>) node s) (\<lambda>s. Ret (Done (), s)))"

datatype pop_pc = PO_head | PO_next addr | PO_cas addr addr | PO_clear addr

fun pop :: "list_head \<Rightarrow> (pop_pc, addr) code" where
  "pop lh PO_head = atom (\<lambda>s. Ret (Goto (PO_next (head_of lh s)), s))"
| "pop lh (PO_next node) = atom (\<lambda>s. bnd (load next_node node s) (\<lambda>desired.
     Ret (Goto (PO_cas node desired), s)))"
| "pop lh (PO_cas node desired) = atom (\<lambda>s.
     let (ok, node', h) = cas (head_of lh s) node desired
     in if ok then Ret (if node \<noteq> end_node s then Goto (PO_clear node) else Done node, set_head lh h s)
        else Ret (Goto PO_head, s))"
| "pop lh (PO_clear node) = atom (\<lambda>s.
     bnd (store (\<lambda>n. n\<lparr>next_node := NULL\<rparr>) node s) (\<lambda>s. Ret (Done node, s)))"

datatype enqueue_free_pc = EF_check | EF_push push_pc

fun EnqueueFreeRecord :: "addr \<Rightarrow> (enqueue_free_pc, unit) code" where
  "EnqueueFreeRecord node EF_check = atom (\<lambda>s. bnd (load id node s) (\<lambda>n.
     bnd (check (IsUnqueued n) ''node->IsUnqueued()'') (\<lambda>_.
     bnd (check (pointer n = NULL) ''node->pointer == NULL'') (\<lambda>_.
     Ret (Goto (EF_push PU_check), s)))))"
| "EnqueueFreeRecord node (EF_push p) = via EF_push (\<lambda>_. Done ()) (push node Free p)"

datatype enqueue_gc_pc = EC_check | EC_push push_pc | EC_signal

fun EnqueueRecordForCollection :: "addr \<Rightarrow> (enqueue_gc_pc, unit) code" where
  "EnqueueRecordForCollection node EC_check = atom (\<lambda>s. bnd (load id node s) (\<lambda>n.
     bnd (check (IsUnqueued n) ''node->IsUnqueued()'') (\<lambda>_.
     bnd (check (pointer n = NULL) ''node->pointer == NULL'') (\<lambda>_.
     bnd (check (gc_pointer n \<noteq> NULL) ''node->gc_pointer != NULL'') (\<lambda>_.
     Ret (Goto (EC_push PU_check), s))))))"
| "EnqueueRecordForCollection node (EC_push p) = via EC_push (\<lambda>_. Goto EC_signal) (push node Gc p)"
| "EnqueueRecordForCollection node EC_signal = atom (\<lambda>s.
     Ret (Done (), if collector_thread s then s\<lparr>signals := signals s + 1\<rparr> else s))"

definition new_node :: "addr \<Rightarrow> addr \<Rightarrow> hp_list \<Rightarrow> hp_list" where
  "new_node a junk s = s\<lparr>heap := (heap s)(a \<mapsto> HazardPointerNode_ctor junk)\<rparr>"

text \<open>\<open>Prime\<close> with the addresses and the initial contents of \<^verbatim>\<open>fixed_link\<close> of the nodes it allocates.\<close>

datatype prime_pc = PR_new "(addr \<times> addr) list" | PR_add addr "(addr \<times> addr) list" add_pc
  | PR_push addr "(addr \<times> addr) list" push_pc

fun Prime :: "(prime_pc, unit) code" where
  "Prime (PR_new []) = atom (\<lambda>s. Ret (Done (), s))"
| "Prime (PR_new ((a, junk) # as)) = atom (\<lambda>s. Ret (Goto (PR_add a as AD_read), new_node a junk s))"
| "Prime (PR_add a as p) = via (PR_add a as) (\<lambda>_. Goto (PR_push a as PU_check)) (Add a p)"
| "Prime (PR_push a as p) = via (PR_push a as) (\<lambda>_. Goto (PR_new as)) (push a Free p)"

datatype acquire_node_pc = AN_pop pop_pc | AN_test addr | AN_add add_pc

fun AcquireNode :: "addr \<Rightarrow> addr \<Rightarrow> (acquire_node_pc, addr) code" where
  "AcquireNode a junk (AN_pop p) = via AN_pop (\<lambda>node. Goto (AN_test node)) (pop Free p)"
| "AcquireNode a junk (AN_test node) = atom (\<lambda>s.
     if node = end_node s then Ret (Goto (AN_add AD_read), new_node a junk s) else Ret (Done node, s))"
| "AcquireNode a junk (AN_add p) = via AN_add (\<lambda>_. Done a) (Add a p)"

section \<open>HazardPointerNode: the public functions\<close>

text \<open>
  \<^verbatim>\<open>Acquire\<close>: \<^verbatim>\<open>__atomic_store(&pointer, ptrptr)\<close> first reads \<^verbatim>\<open>*ptrptr\<close>, then
  stores the value.
\<close>

datatype acquire_pc = AC_check | AC_load | AC_store addr

fun node_Acquire :: "addr \<Rightarrow> addr \<Rightarrow> (acquire_pc, bool) code" where
  "node_Acquire node ptrptr AC_check = atom (\<lambda>s. bnd (load id node s) (\<lambda>n.
     bnd (check (IsUnqueued n) ''IsUnqueued()'') (\<lambda>_.
     bnd (check (gc_pointer n = NULL) ''gc_pointer == NULL'') (\<lambda>_.
     Ret (if gc_pointer n \<noteq> NULL then Done False else Goto AC_load, s)))))"
| "node_Acquire node ptrptr AC_load = atom (\<lambda>s.
     case cells s ptrptr of None \<Rightarrow> Stop (Bad_deref ''ptrptr'') | Some v \<Rightarrow> Ret (Goto (AC_store v), s))"
| "node_Acquire node ptrptr (AC_store v) = atom (\<lambda>s.
     bnd (store (\<lambda>n. n\<lparr>pointer := v\<rparr>) node s) (\<lambda>s. Ret (Done True, s)))"

datatype clear_pc = CL_check | CL_store

fun node_Clear :: "addr \<Rightarrow> (clear_pc, bool) code" where
  "node_Clear node CL_check = atom (\<lambda>s. bnd (load gc_pointer node s) (\<lambda>g.
     bnd (check (g = NULL) ''gc_pointer == NULL'') (\<lambda>_. Ret (Goto CL_store, s))))"
| "node_Clear node CL_store = atom (\<lambda>s.
     bnd (store (\<lambda>n. n\<lparr>pointer := NULL\<rparr>) node s) (\<lambda>s. Ret (Done True, s)))"

datatype release_pc = RE_check | RE_store | RE_enqueue enqueue_free_pc

fun node_Release :: "addr \<Rightarrow> (release_pc, bool) code" where
  "node_Release node RE_check = atom (\<lambda>s. bnd (load id node s) (\<lambda>n.
     bnd (check (gc_pointer n = NULL) ''gc_pointer == NULL'') (\<lambda>_.
     Ret (if NULL = pointer n then Done False else Goto RE_store, s))))"
| "node_Release node RE_store = atom (\<lambda>s.
     bnd (store (\<lambda>n. n\<lparr>pointer := NULL\<rparr>) node s) (\<lambda>s. Ret (Goto (RE_enqueue EF_check), s)))"
| "node_Release node (RE_enqueue p) = via RE_enqueue (\<lambda>_. Done True) (EnqueueFreeRecord node p)"

text \<open>
  \<^verbatim>\<open>Delete\<close>: \<^verbatim>\<open>__atomic_exchange(&gc_pointer, &pointer, &pointer)\<close> reads
  \<^verbatim>\<open>pointer\<close>, exchanges it with \<^verbatim>\<open>gc_pointer\<close>, and stores the old value in
  \<^verbatim>\<open>pointer\<close>.
\<close>

datatype delete_pc = DE_check | DE_load | DE_exchange addr | DE_return addr | DE_enqueue enqueue_gc_pc | DE_check2

fun node_Delete :: "addr \<Rightarrow> (delete_pc, bool) code" where
  "node_Delete node DE_check = atom (\<lambda>s. bnd (load id node s) (\<lambda>n.
     bnd (check (gc_pointer n = NULL) ''gc_pointer == NULL'') (\<lambda>_.
     Ret (if NULL = pointer n then Done False else Goto DE_load, s))))"
| "node_Delete node DE_load = atom (\<lambda>s. bnd (load pointer node s) (\<lambda>v.
     Ret (Goto (DE_exchange v), s)))"
| "node_Delete node (DE_exchange v) = atom (\<lambda>s. bnd (load gc_pointer node s) (\<lambda>old.
     bnd (store (\<lambda>n. n\<lparr>gc_pointer := v\<rparr>) node s) (\<lambda>s. Ret (Goto (DE_return old), s))))"
| "node_Delete node (DE_return old) = atom (\<lambda>s.
     bnd (store (\<lambda>n. n\<lparr>pointer := old\<rparr>) node s) (\<lambda>s. Ret (Goto (DE_enqueue EC_check), s)))"
| "node_Delete node (DE_enqueue p) = via DE_enqueue (\<lambda>_. Goto DE_check2) (EnqueueRecordForCollection node p)"
| "node_Delete node DE_check2 = atom (\<lambda>s. bnd (load pointer node s) (\<lambda>v.
     bnd (check (v = NULL) ''pointer == NULL'') (\<lambda>_. Ret (Done True, s))))"

definition get_pointer :: "addr \<Rightarrow> hp_list \<Rightarrow> addr ctl" where
  "get_pointer node s = load pointer node s"

end
