(* ===== verification/Hazard_Chains.thy ===== *)
theory Hazard_Chains
  imports Hazard_Nodes
begin

text \<open>
  The three linked lists as lists of addresses. \<open>chain\<close> follows one link field through the
  heap to the end node; \<open>hp_lists ns gs fs s\<close> says that \<open>ns\<close>, \<open>gs\<close> and \<open>fs\<close> are
  the complete list, the gc list and the free list of \<open>s\<close> and what holds of their nodes;
  \<open>hp_rep\<close> adds that no collection is going on and is the invariant of the list object
  between two calls. The lemmas give the effect of each function
  that runs alone, and how it changes the three lists.
\<close>

section \<open>Chains and the representation\<close>

fun chain :: "(addr \<rightharpoonup> node) \<Rightarrow> (node \<Rightarrow> addr) \<Rightarrow> addr \<Rightarrow> addr list \<Rightarrow> addr \<Rightarrow> bool" where
  "chain h fld a [] e \<longleftrightarrow> a = e"
| "chain h fld a (x # xs) e \<longleftrightarrow> a = x \<and> x \<noteq> e \<and> (\<exists>n. h x = Some n \<and> chain h fld (fld n) xs e)"

definition ptr :: "(addr \<rightharpoonup> node) \<Rightarrow> addr \<Rightarrow> addr" where
  "ptr h a = (case h a of None \<Rightarrow> NULL | Some n \<Rightarrow> pointer n)"

definition gcp :: "(addr \<rightharpoonup> node) \<Rightarrow> addr \<Rightarrow> addr" where
  "gcp h a = (case h a of None \<Rightarrow> NULL | Some n \<Rightarrow> gc_pointer n)"

definition nxt :: "(addr \<rightharpoonup> node) \<Rightarrow> addr \<Rightarrow> addr" where
  "nxt h a = (case h a of None \<Rightarrow> NULL | Some n \<Rightarrow> next_node n)"

definition hp_lists :: "addr list \<Rightarrow> addr list \<Rightarrow> addr list \<Rightarrow> hp_list \<Rightarrow> bool" where
  "hp_lists ns gs fs s \<longleftrightarrow>
     end_node s \<noteq> NULL \<and>
     heap s (end_node s) = Some \<lparr>pointer = NULL, gc_pointer = NULL, fixed_link = end_node s, next_node = end_node s\<rparr> \<and>
     chain (heap s) fixed_link (nodes s) ns (end_node s) \<and>
     chain (heap s) next_node (gc_list s) gs (end_node s) \<and>
     chain (heap s) next_node (free_list s) fs (end_node s) \<and>
     dom (heap s) = insert (end_node s) (set ns) \<and> NULL \<notin> set ns \<and>
     distinct ns \<and> distinct (gs @ fs) \<and> set gs \<subseteq> set ns \<and> set fs \<subseteq> set ns \<and>
     (\<forall>a\<in>set fs. ptr (heap s) a = NULL \<and> gcp (heap s) a = NULL) \<and>
     (\<forall>a\<in>set gs. ptr (heap s) a = NULL \<and> gcp (heap s) a \<noteq> NULL) \<and>
     (\<forall>a\<in>set ns - set gs - set fs. nxt (heap s) a = NULL \<and> gcp (heap s) a = NULL)"

definition hp_rep :: "addr list \<Rightarrow> addr list \<Rightarrow> addr list \<Rightarrow> hp_list \<Rightarrow> bool" where
  "hp_rep ns gs fs s \<longleftrightarrow> hp_lists ns gs fs s \<and> all_haz_ptrs s = [] \<and> collector_client_lock s = None"

text \<open>Nodes that a client holds: neither free nor waiting for collection.\<close>

definition in_use :: "addr list \<Rightarrow> addr list \<Rightarrow> addr list \<Rightarrow> addr \<Rightarrow> bool" where
  "in_use ns gs fs a \<longleftrightarrow> a \<in> set ns \<and> a \<notin> set gs \<and> a \<notin> set fs"

section \<open>Lemmas on chains\<close>

lemma chain_upd_other:
  "a \<notin> set xs \<Longrightarrow> chain (h(a \<mapsto> n)) fld b xs e \<longleftrightarrow> chain h fld b xs e"
  by (induction xs arbitrary: b) auto

lemma chain_upd_same:
  assumes "h a = Some n" and "fld n' = fld n"
  shows "chain (h(a \<mapsto> n')) fld b xs e \<longleftrightarrow> chain h fld b xs e"
  using assms by (induction xs arbitrary: b) auto

lemma chain_not_end: "chain h fld a xs e \<Longrightarrow> e \<notin> set xs"
  by (induction xs arbitrary: a) auto

lemma chain_dom: "chain h fld a xs e \<Longrightarrow> set xs \<subseteq> dom h"
  by (induction xs arbitrary: a) auto

lemma chain_unique: "chain h fld a xs e \<Longrightarrow> chain h fld a ys e \<Longrightarrow> xs = ys"
proof (induction xs arbitrary: a ys)
  case Nil
  then show ?case by (cases ys) auto
next
  case (Cons x xs)
  then show ?case by (cases ys) auto
qed

section \<open>Effects of the functions\<close>

lemma load_simps [simp]:
  "heap s a = Some n \<Longrightarrow> load fld a s = Ret (fld n)" "heap s a = None \<Longrightarrow> load fld a s = Stop (Bad_deref ''node'')"
  by (simp_all add: load_def)

lemma store_simps [simp]:
  "heap s a = Some n \<Longrightarrow> store upd a s = Ret (s\<lparr>heap := (heap s)(a \<mapsto> upd n)\<rparr>)"
  "heap s a = None \<Longrightarrow> store upd a s = Stop (Bad_deref ''node'')"
  by (simp_all add: store_def)

lemma head_upd [simp]:
  "head_of lh (s\<lparr>heap := h\<rparr>) = head_of lh s" "heap (set_head lh a s) = heap s"
  "end_node (set_head lh a s) = end_node s" "head_of lh (set_head lh a s) = a"
  by (cases lh; simp)+

lemma solo_push:
  assumes "heap s a = Some n" and "next_node n = NULL"
  shows "solo (push a lh) PU_check s =
    Some (Ret ((), set_head lh a (s\<lparr>heap := (heap s)(a \<mapsto> n\<lparr>next_node := head_of lh s\<rparr>)\<rparr>)))"
  using assms by (simp add: solo_atom [of "push a lh", OF push.simps(1)] solo_atom [of "push a lh", OF push.simps(2)]
      solo_atom [of "push a lh", OF push.simps(3)] IsUnqueued_def atomics)

lemma solo_Add:
  assumes "heap s a = Some n"
  shows "solo (Add a) AD_read s =
    Some (Ret ((), s\<lparr>heap := (heap s)(a \<mapsto> n\<lparr>fixed_link := nodes s\<rparr>), nodes := a\<rparr>))"
  using assms by (simp add: solo_atom [of "Add a", OF Add.simps(1)] solo_atom [of "Add a", OF Add.simps(2)] atomics)

lemma solo_pop:
  assumes "heap s (head_of lh s) = Some n"
  shows "solo (pop lh) PO_head s = Some (Ret (head_of lh s,
    if head_of lh s = end_node s then set_head lh (next_node n) s
    else (set_head lh (next_node n) s)\<lparr>heap := (heap s)(head_of lh s \<mapsto> n\<lparr>next_node := NULL\<rparr>)\<rparr>))"
  using assms by (simp add: solo_atom [of "pop lh", OF pop.simps(1)] solo_atom [of "pop lh", OF pop.simps(2)]
      solo_atom [of "pop lh", OF pop.simps(3)] solo_atom [of "pop lh", OF pop.simps(4)] atomics)

text \<open>
  \<open>remove\<close> walks to the link that points to the node and swings it to the node's successor.
\<close>

definition last_link :: "link \<Rightarrow> addr list \<Rightarrow> link" where
  "last_link l ys = (if ys = [] then l else Next (last ys))"

lemmas solo_remove_steps = solo_atom [of "remove a lh" for a lh, OF remove.simps(1)]
  solo_atom [of "remove a lh" for a lh, OF remove.simps(2)] solo_atom [of "remove a lh" for a lh, OF remove.simps(3)]
  solo_atom [of "remove a lh" for a lh, OF remove.simps(4)] solo_atom [of "remove a lh" for a lh, OF remove.simps(5)]
  solo_atom [of "remove a lh" for a lh, OF remove.simps(6)] solo_atom [of "remove a lh" for a lh, OF remove.simps(7)]
  solo_atom [of "remove a lh" for a lh, OF remove.simps(8)]

lemma solo_remove_walk:
  assumes "rd_link l s = Ret b" and "chain (heap s) next_node b (ys @ a # zs) (end_node s)" and "a \<notin> set ys"
  shows "solo (remove a lh) (RM_test1 l) s = solo (remove a lh) (RM_end (last_link l ys)) s \<and>
    rd_link (last_link l ys) s = Ret a"
  using assms
proof (induction ys arbitrary: l b)
  case Nil
  then show ?case by (simp add: solo_remove_steps last_link_def)
next
  case (Cons y ys)
  then obtain n where n: "heap s y = Some n" "b = y" "y \<noteq> end_node s" "y \<noteq> a"
    "chain (heap s) next_node (next_node n) (ys @ a # zs) (end_node s)" by auto
  then have "solo (remove a lh) (RM_test1 l) s = solo (remove a lh) (RM_test1 (Next y)) s"
    using Cons.prems(1) by (simp add: solo_remove_steps(1) [of a lh l] solo_remove_steps(2,3))
  moreover have "last_link (Next y) ys = last_link l (y # ys)" by (simp add: last_link_def)
  moreover have "rd_link (Next y) s = Ret (next_node n)" using n by simp
  ultimately show ?case using Cons.IH [of "Next y" "next_node n"] n Cons.prems(3) by simp
qed

lemma solo_remove:
  assumes ch: "chain (heap s) next_node (head_of lh s) (ys @ a # zs) (end_node s)" and a: "a \<notin> set ys"
    and n: "heap s a = Some n" and w: "wr_link (last_link (Head lh) ys) (next_node n) s = Ret s'"
    and h: "heap s' a = Some n'"
  shows "solo (remove a lh) (RM_test1 (Head lh)) s =
    Some (Ret ((), s'\<lparr>heap := (heap s')(a \<mapsto> n'\<lparr>next_node := NULL\<rparr>)\<rparr>))"
proof -
  have walk: "solo (remove a lh) (RM_test1 (Head lh)) s = solo (remove a lh) (RM_end (last_link (Head lh) ys)) s"
    and r: "rd_link (last_link (Head lh) ys) s = Ret a"
    using solo_remove_walk [of "Head lh" s, OF _ ch a] by auto
  have e: "a \<noteq> end_node s" using chain_not_end [OF ch] by auto
  show ?thesis
    unfolding walk using r n e w h by (simp add: solo_remove_steps atomics)
qed

section \<open>How the lists change\<close>

lemma field_upd [simp]:
  "ptr (h(a \<mapsto> n)) b = (if b = a then pointer n else ptr h b)"
  "gcp (h(a \<mapsto> n)) b = (if b = a then gc_pointer n else gcp h b)"
  "nxt (h(a \<mapsto> n)) b = (if b = a then next_node n else nxt h b)"
  by (simp_all add: ptr_def gcp_def nxt_def)

lemma field_of:
  "h a = Some n \<Longrightarrow> ptr h a = pointer n" "h a = Some n \<Longrightarrow> gcp h a = gc_pointer n"
  "h a = Some n \<Longrightarrow> nxt h a = next_node n"
  by (simp_all add: ptr_def gcp_def nxt_def)

lemma hp_lists_cong:
  assumes "heap s' = heap s" "end_node s' = end_node s" "nodes s' = nodes s" "gc_list s' = gc_list s" "free_list s' = free_list s"
  shows "hp_lists ns gs fs s' = hp_lists ns gs fs s"
  unfolding hp_lists_def assms ..

lemma in_use_node:
  assumes "hp_lists ns gs fs s" and "in_use ns gs fs a"
  obtains n where "heap s a = Some n" "next_node n = NULL" "gc_pointer n = NULL" "a \<noteq> end_node s" "a \<noteq> NULL"
proof -
  from assms have "a \<in> dom (heap s)" and m: "nxt (heap s) a = NULL" "gcp (heap s) a = NULL" and z: "a \<noteq> NULL"
    by (auto simp: hp_lists_def in_use_def)
  then obtain n where n: "heap s a = Some n" by auto
  have "a \<noteq> end_node s"
    using assms chain_not_end by (fastforce simp: hp_lists_def in_use_def)
  with that n m z show ?thesis by (simp add: field_of)
qed

text \<open>Setting the object pointer of a node in use.\<close>

lemma hp_lists_pointer:
  assumes l: "hp_lists ns gs fs s" and u: "in_use ns gs fs a" and n: "heap s a = Some n"
  shows "hp_lists ns gs fs (s\<lparr>heap := (heap s)(a \<mapsto> n\<lparr>pointer := v\<rparr>)\<rparr>)"
proof -
  have e: "a \<noteq> end_node s" using in_use_node [OF l u] by blast
  have "gc_pointer n = NULL" "next_node n = NULL" using in_use_node [OF l u] n by auto
  then show ?thesis
    using l u n e unfolding hp_lists_def in_use_def by (auto simp: chain_upd_same insert_absorb)
qed

text \<open>A node in use goes to the front of the free list or of the gc list.\<close>

lemma hp_lists_free:
  assumes l: "hp_lists ns gs fs s" and u: "in_use ns gs fs a" and n: "heap s a = Some n" and p: "pointer n = NULL"
  shows "hp_lists ns gs (a # fs) (s\<lparr>heap := (heap s)(a \<mapsto> n\<lparr>next_node := free_list s\<rparr>), free_list := a\<rparr>)"
proof -
  have e: "a \<noteq> end_node s" using in_use_node [OF l u] by blast
  have "gc_pointer n = NULL" using in_use_node [OF l u] n by auto
  then show ?thesis
    using l u n e p unfolding hp_lists_def in_use_def
    by (auto simp: chain_upd_same chain_upd_other insert_absorb)
qed

lemma hp_lists_gc:
  assumes l: "hp_lists ns gs fs s" and u: "in_use ns gs fs a" and n: "heap s a = Some n" and v: "v \<noteq> NULL"
  shows "hp_lists ns (a # gs) fs
    (s\<lparr>heap := (heap s)(a \<mapsto> n\<lparr>gc_pointer := v, pointer := NULL, next_node := gc_list s\<rparr>), gc_list := a\<rparr>)"
proof -
  have e: "a \<noteq> end_node s" using in_use_node [OF l u] by blast
  then show ?thesis
    using l u n v unfolding hp_lists_def in_use_def
    by (auto simp: chain_upd_same chain_upd_other insert_absorb)
qed

text \<open>A node taken from the front of the free list is in use.\<close>

lemma hp_lists_pop:
  assumes l: "hp_lists ns gs (a # fs) s" and n: "heap s a = Some n"
  shows "hp_lists ns gs fs (s\<lparr>free_list := next_node n, heap := (heap s)(a \<mapsto> n\<lparr>next_node := NULL\<rparr>)\<rparr>)"
    and "in_use ns gs fs a" and "free_list s = a"
proof -
  have e: "a \<noteq> end_node s" "gc_pointer n = NULL"
    using l n unfolding hp_lists_def by (auto simp: field_of)
  show "hp_lists ns gs fs (s\<lparr>free_list := next_node n, heap := (heap s)(a \<mapsto> n\<lparr>next_node := NULL\<rparr>)\<rparr>)"
    using l n e unfolding hp_lists_def
    by (auto simp: chain_upd_same chain_upd_other insert_absorb)
  show "in_use ns gs fs a" "free_list s = a"
    using l unfolding hp_lists_def in_use_def by auto
qed

text \<open>A newly allocated node joins the complete list.\<close>

lemma hp_lists_new:
  assumes l: "hp_lists ns gs fs s" and a: "heap s a = None" "a \<noteq> NULL"
  shows "hp_lists (a # ns) gs fs (s\<lparr>heap := (heap s)(a \<mapsto> (HazardPointerNode_ctor j)\<lparr>fixed_link := nodes s\<rparr>), nodes := a\<rparr>)"
    and "in_use (a # ns) gs fs a"
proof -
  have d: "a \<noteq> end_node s" "a \<notin> set ns" "a \<notin> set gs" "a \<notin> set fs"
  proof -
    have "dom (heap s) = insert (end_node s) (set ns)" "set gs \<subseteq> set ns" "set fs \<subseteq> set ns"
      using l by (simp_all add: hp_lists_def)
    moreover have "a \<notin> dom (heap s)" using a by auto
    ultimately show "a \<noteq> end_node s" "a \<notin> set ns" "a \<notin> set gs" "a \<notin> set fs" by auto
  qed
  then show "hp_lists (a # ns) gs fs (s\<lparr>heap := (heap s)(a \<mapsto> (HazardPointerNode_ctor j)\<lparr>fixed_link := nodes s\<rparr>), nodes := a\<rparr>)"
    using l a unfolding hp_lists_def by (auto simp: chain_upd_other HazardPointerNode_ctor_def)
  show "in_use (a # ns) gs fs a"
    using d by (simp add: in_use_def)
qed

end
