(* ===== verification/Binary_Search.thy ===== *)
theory Binary_Search
  imports Main
begin

text \<open>
  \<^verbatim>\<open>std::binary_search\<close> as \<^verbatim>\<open>HazardPointerList::Collect\<close> uses it on a sorted vector of
  addresses: \<^verbatim>\<open>std::lower_bound\<close> by halving the range, then one comparison. On a sorted
  list it decides membership.
\<close>

function lower_bound :: "nat list \<Rightarrow> nat \<Rightarrow> nat \<Rightarrow> nat \<Rightarrow> nat" where
  "lower_bound xs first len v =
     (if len = 0 then first
      else let half = len div 2; mid = first + half
           in if xs ! mid < v then lower_bound xs (mid + 1) (len - half - 1) v
              else lower_bound xs first half v)"
  by pat_completeness auto
termination by (relation "measure (\<lambda>(xs, first, len, v). len)") auto

declare lower_bound.simps [simp del]

definition binary_search :: "nat list \<Rightarrow> nat \<Rightarrow> bool" where
  "binary_search xs v = (let i = lower_bound xs 0 (length xs) v in i \<noteq> length xs \<and> \<not> v < xs ! i)"

text \<open>Position \<open>r\<close> separates the elements below \<open>v\<close> from the others.\<close>

definition splits_at :: "nat list \<Rightarrow> nat \<Rightarrow> nat \<Rightarrow> bool" where
  "splits_at xs v r \<longleftrightarrow> r \<le> length xs \<and> (\<forall>i<r. xs ! i < v) \<and> (\<forall>i. r \<le> i \<longrightarrow> i < length xs \<longrightarrow> v \<le> xs ! i)"

lemma lower_bound_splits:
  assumes "sorted xs" and "first + len \<le> length xs"
    and "\<forall>i<first. xs ! i < v" and "\<forall>i. first + len \<le> i \<longrightarrow> i < length xs \<longrightarrow> v \<le> xs ! i"
  shows "splits_at xs v (lower_bound xs first len v)"
  using assms
proof (induction xs first len v rule: lower_bound.induct)
  case (1 xs first len v)
  show ?case
  proof (cases "len = 0")
    case True
    with 1 have "lower_bound xs first len v = first" by (simp add: lower_bound.simps)
    with True 1(4-6) show ?thesis by (simp add: splits_at_def)
  next
    case False
    let ?mid = "first + len div 2"
    have mid: "?mid < first + len" "?mid < length xs" using False 1(4) by auto
    show ?thesis
    proof (cases "xs ! ?mid < v")
      case True
      have lo: "\<forall>i<?mid + 1. xs ! i < v"
        using sorted_nth_mono [OF 1(3), of _ ?mid] mid(2) True by (metis Suc_eq_plus1 le_less_trans less_Suc_eq_le)
      have len: "?mid + 1 + (len - len div 2 - 1) = first + len" using False by auto
      have "splits_at xs v (lower_bound xs (?mid + 1) (len - len div 2 - 1) v)"
        by (rule 1(1) [OF False refl refl True]) (use 1(3,4,6) lo len in simp_all)
      moreover have "lower_bound xs first len v = lower_bound xs (?mid + 1) (len - len div 2 - 1) v"
        using False True by (subst lower_bound.simps) (simp add: Let_def)
      ultimately show ?thesis by simp
    next
      case nl: False
      have hi: "\<forall>i. ?mid \<le> i \<longrightarrow> i < length xs \<longrightarrow> v \<le> xs ! i"
        using sorted_nth_mono [OF 1(3), of ?mid] nl by (meson le_trans not_le)
      have "splits_at xs v (lower_bound xs first (len div 2) v)"
        by (rule 1(2) [OF False refl refl nl]) (use 1(3,5) hi mid in simp_all)
      moreover have "lower_bound xs first len v = lower_bound xs first (len div 2) v"
        using False nl by (subst lower_bound.simps) (simp add: Let_def)
      ultimately show ?thesis by simp
    qed
  qed
qed

lemma binary_search_member:
  assumes "sorted xs"
  shows "binary_search xs v \<longleftrightarrow> v \<in> set xs"
proof -
  define i where "i = lower_bound xs 0 (length xs) v"
  have s: "splits_at xs v i"
    unfolding i_def using lower_bound_splits [OF assms, of 0 "length xs" v] by simp
  have b: "binary_search xs v \<longleftrightarrow> i \<noteq> length xs \<and> \<not> v < xs ! i"
    by (simp add: binary_search_def i_def Let_def)
  show ?thesis
  proof
    assume "binary_search xs v"
    with b s have "i < length xs" "xs ! i = v"
      unfolding splits_at_def by (simp_all add: le_antisym)
    then show "v \<in> set xs" using nth_mem by blast
  next
    assume "v \<in> set xs"
    then obtain j where j: "j < length xs" "xs ! j = v" by (auto simp: in_set_conv_nth)
    then have "i \<le> j" using s unfolding splits_at_def by (meson less_irrefl not_le)
    then have "i < length xs" "xs ! i \<le> v"
      using j sorted_nth_mono [OF assms, of i j] by auto
    with b show "binary_search xs v" by simp
  qed
qed


end
