(* ===== verification/Hazard_Collect.thy ===== *)
theory Hazard_Collect
  imports Hazard_Chains Binary_Search
begin

text \<open>
  \<^verbatim>\<open>HazardPointerList::Collect\<close>, \<^verbatim>\<open>HaveDeletes\<close> and the destructor
  (\<^verbatim>\<open>src/src/HazardPointer.hpp\<close>). The theorem on \<open>Collect_hp\<close> says which objects it deletes
  and which nodes it moves to the free list when it runs alone.
\<close>

section \<open>Collect and the destructor\<close>

text \<open>
  Points of \<open>Collect_hp\<close> for thread \<open>me\<close>. The two reads of \<^verbatim>\<open>node->pointer\<close> in the
  scan are separate steps. \<open>node\<close> is the end node when the assertion on
  \<^verbatim>\<open>node->pointer\<close> after \<open>remove\<close> is evaluated.
\<close>

datatype collect_pc =
    CO_test | CO_lock | CO_nodes | CO_scan addr | CO_add addr | CO_link addr | CO_sort | CO_gc
  | CO_gc_next addr | CO_gc_object addr addr | CO_gc_search addr addr addr
  | CO_gc_clear addr addr addr | CO_gc_delete addr addr addr | CO_gc_remove addr addr remove_pc
  | CO_gc_check addr addr | CO_gc_free addr addr push_pc | CO_clear | CO_result | CO_unlock bool

fun Collect_hp :: "tid \<Rightarrow> (collect_pc, bool) code" where
  "Collect_hp me CO_test = atom (\<lambda>s.
     Ret (if gc_list s = end_node s then Done False else Goto CO_lock, s))"
| "Collect_hp me CO_lock = atom (\<lambda>s. case collector_client_lock s of
       None \<Rightarrow> Ret (Goto CO_nodes, s\<lparr>collector_client_lock := Some (me, 1)\<rparr>)
     | Some (t, k) \<Rightarrow> if t = me then Ret (Goto CO_nodes, s\<lparr>collector_client_lock := Some (me, k + 1)\<rparr>)
                     else Ret (Goto CO_lock, s))"
| "Collect_hp me CO_nodes = atom (\<lambda>s. Ret (Goto (CO_scan (nodes s)), s))"
| "Collect_hp me (CO_scan node) = atom (\<lambda>s.
     if node = end_node s then Ret (Goto CO_sort, s)
     else bnd (load pointer node s) (\<lambda>v. Ret (if v \<noteq> NULL then Goto (CO_add node) else Goto (CO_link node), s)))"
| "Collect_hp me (CO_add node) = atom (\<lambda>s. bnd (load pointer node s) (\<lambda>v.
     Ret (Goto (CO_link node), s\<lparr>all_haz_ptrs := all_haz_ptrs s @ [v]\<rparr>)))"
| "Collect_hp me (CO_link node) = atom (\<lambda>s. bnd (load fixed_link node s) (\<lambda>v. Ret (Goto (CO_scan v), s)))"
| "Collect_hp me CO_sort = atom (\<lambda>s. Ret (Goto CO_gc, s\<lparr>all_haz_ptrs := sort (all_haz_ptrs s)\<rparr>))"
| "Collect_hp me CO_gc = atom (\<lambda>s. Ret (Goto (CO_gc_next (gc_list s)), s))"
| "Collect_hp me (CO_gc_next g) = atom (\<lambda>s.
     if g = end_node s then Ret (Goto CO_clear, s)
     else bnd (check (NULL \<noteq> g) ''NULL != gc_node'') (\<lambda>_.
          bnd (load next_node g s) (\<lambda>next_gc. Ret (Goto (CO_gc_object g next_gc), s))))"
| "Collect_hp me (CO_gc_object g next_gc) = atom (\<lambda>s. bnd (load gc_pointer g s) (\<lambda>obj_ptr.
     bnd (check (NULL \<noteq> obj_ptr) ''NULL != obj_ptr'') (\<lambda>_. Ret (Goto (CO_gc_search g next_gc obj_ptr), s))))"
| "Collect_hp me (CO_gc_search g next_gc obj_ptr) = atom (\<lambda>s. bnd (load pointer g s) (\<lambda>v.
     bnd (check (NULL = v) ''NULL == gc_node->pointer'') (\<lambda>_.
     Ret (if \<not> binary_search (all_haz_ptrs s) obj_ptr then Goto (CO_gc_clear g next_gc obj_ptr)
          else Goto (CO_gc_next next_gc), s))))"
| "Collect_hp me (CO_gc_clear g next_gc obj_ptr) = atom (\<lambda>s.
     bnd (store (\<lambda>n. n\<lparr>gc_pointer := NULL\<rparr>) g s) (\<lambda>s. Ret (Goto (CO_gc_delete g next_gc obj_ptr), s)))"
| "Collect_hp me (CO_gc_delete g next_gc obj_ptr) = atom (\<lambda>s.
     Ret (Goto (CO_gc_remove g next_gc (RM_test1 (Head Gc))), s\<lparr>deleted := deleted s @ [obj_ptr]\<rparr>))"
| "Collect_hp me (CO_gc_remove g next_gc p) =
     via (CO_gc_remove g next_gc) (\<lambda>_. Goto (CO_gc_check g next_gc)) (remove g Gc p)"
| "Collect_hp me (CO_gc_check g next_gc) = atom (\<lambda>s. bnd (load pointer (end_node s) s) (\<lambda>v.
     bnd (check (v = NULL) ''node->pointer == NULL'') (\<lambda>_. Ret (Goto (CO_gc_free g next_gc PU_check), s))))"
| "Collect_hp me (CO_gc_free g next_gc p) =
     via (CO_gc_free g next_gc) (\<lambda>_. Goto (CO_gc_next next_gc)) (push g Free p)"
| "Collect_hp me CO_clear = atom (\<lambda>s. Ret (Goto CO_result, s\<lparr>all_haz_ptrs := []\<rparr>))"
| "Collect_hp me CO_result = atom (\<lambda>s. Ret (Goto (CO_unlock (gc_list s = end_node s)), s))"
| "Collect_hp me (CO_unlock r) = atom (\<lambda>s. Ret (Done r, s\<lparr>collector_client_lock :=
     (case collector_client_lock s of Some (t, Suc (Suc k)) \<Rightarrow> Some (t, Suc k) | _ \<Rightarrow> None)\<rparr>))"

definition HaveDeletes :: "hp_list \<Rightarrow> bool" where
  "HaveDeletes s \<longleftrightarrow> gc_list s \<noteq> end_node s"

text \<open>
  The destructor. \<^verbatim>\<open>DeregisterClient\<close> belongs to the collector thread (theory
  \<open>Collector\<close>) and is only a mark here; theory \<open>Hazard_System\<close> has the call.
\<close>

datatype dtor_pc =
    DT_deregister | DT_node addr | DT_release addr release_pc | DT_link addr
  | DT_collect collect_pc | DT_reset | DT_delete addr | DT_end

fun HazardPointerList_dtor :: "tid \<Rightarrow> (dtor_pc, unit) code" where
  "HazardPointerList_dtor me DT_deregister = atom (\<lambda>s. Ret (Goto (DT_node (nodes s)), s))"
| "HazardPointerList_dtor me (DT_node node) = atom (\<lambda>s.
     if node = end_node s then Ret (Goto (DT_collect CO_test), s)
     else bnd (load pointer node s) (\<lambda>v.
       Ret (if v \<noteq> NULL then Goto (DT_release node RE_check) else Goto (DT_link node), s)))"
| "HazardPointerList_dtor me (DT_release node p) =
     via (DT_release node) (\<lambda>_. Goto (DT_link node)) (node_Release node p)"
| "HazardPointerList_dtor me (DT_link node) = atom (\<lambda>s. bnd (load fixed_link node s) (\<lambda>v.
     Ret (Goto (DT_node v), s)))"
| "HazardPointerList_dtor me (DT_collect p) = via DT_collect (\<lambda>_. Goto DT_reset) (Collect_hp me p)"
| "HazardPointerList_dtor me DT_reset = atom (\<lambda>s. Ret (Goto (DT_delete (nodes s)),
     s\<lparr>gc_list := end_node s, free_list := end_node s, nodes := end_node s\<rparr>))"
| "HazardPointerList_dtor me (DT_delete node) = atom (\<lambda>s.
     if node = end_node s then Ret (Goto DT_end, s)
     else bnd (load fixed_link node s) (\<lambda>v. Ret (Goto (DT_delete v), s\<lparr>heap := (heap s)(node := None)\<rparr>)))"
| "HazardPointerList_dtor me DT_end = atom (\<lambda>s.
     Ret (Done (), s\<lparr>heap := (heap s)(end_node s := None)\<rparr>))"

section \<open>Taking a node out of the gc list\<close>

lemma chain_unlink:
  assumes "chain h next_node b (ys @ a # zs) e" and "distinct (ys @ a # zs)" and "h a = Some n" and "ys \<noteq> []"
    and "h (last ys) = Some m"
  shows "chain (h(last ys \<mapsto> m\<lparr>next_node := next_node n\<rparr>)) next_node b (ys @ zs) e"
  using assms
proof (induction ys arbitrary: b)
  case (Cons y ys)
  then obtain k where k: "h y = Some k" "b = y" "y \<noteq> e" "chain h next_node (next_node k) (ys @ a # zs) e" by auto
  show ?case
  proof (cases "ys = []")
    case True
    with Cons.prems k have "chain h next_node (next_node n) zs e" "y \<notin> set zs" by auto
    then have "chain (h(y \<mapsto> m\<lparr>next_node := next_node n\<rparr>)) next_node (next_node n) zs e"
      by (simp add: chain_upd_other)
    with True k show ?thesis by (simp del: fun_upd_apply add: fun_upd_same)
  next
    case False
    have "chain (h(last ys \<mapsto> m\<lparr>next_node := next_node n\<rparr>)) next_node (next_node k) (ys @ zs) e"
      using Cons.prems False by (intro Cons.IH [OF k(4)]) auto
    moreover have "y \<noteq> last ys" using Cons.prems(2) False by auto
    ultimately show ?thesis using k False by (simp del: fun_upd_apply add: fun_upd_other)
  qed
qed simp

text \<open>The state after \<open>Collect_hp\<close> moved node \<open>a\<close>, which \<open>ys\<close> precede in the gc list, to the free list.\<close>

definition freed :: "addr list \<Rightarrow> addr \<Rightarrow> hp_list \<Rightarrow> hp_list" where
  "freed ys a s =
     (let n = the (heap s a);
          s1 = (if ys = [] then s\<lparr>gc_list := next_node n\<rparr>
                else s\<lparr>heap := (heap s)(last ys \<mapsto> (the (heap s (last ys)))\<lparr>next_node := next_node n\<rparr>)\<rparr>)
      in s1\<lparr>heap := (heap s1)(a \<mapsto> n\<lparr>gc_pointer := NULL, next_node := free_list s\<rparr>), free_list := a\<rparr>)"

lemma hp_lists_freed:
  assumes l: "hp_lists ns (ys @ a # zs) fs s"
  shows "hp_lists ns (ys @ zs) (a # fs) (freed ys a s)"
proof -
  obtain n where n: "heap s a = Some n"
    using l chain_dom unfolding hp_lists_def by (metis (no_types, lifting) domD in_set_conv_decomp subsetD)
  have e: "a \<noteq> end_node s" "end_node s \<notin> set ys" "a \<notin> set ys" "pointer n = NULL"
    using l n chain_not_end unfolding hp_lists_def by (fastforce simp: field_of)+
  show ?thesis
  proof (cases "ys = []")
    case True
    then show ?thesis
      using l n e unfolding hp_lists_def freed_def
      by (auto simp: chain_upd_same chain_upd_other insert_absorb Let_def)
  next
    case False
    let ?p = "last ys"
    have p: "?p \<in> set ys" using False by simp
    then have pe: "?p \<noteq> a" "?p \<noteq> end_node s" "?p \<notin> set fs" using l e unfolding hp_lists_def by auto
    have gs: "chain (heap s) next_node (gc_list s) (ys @ a # zs) (end_node s)" "distinct (ys @ a # zs)"
      using l unfolding hp_lists_def by auto
    obtain m where m: "heap s ?p = Some m" using chain_dom [OF gs(1)] p by auto
    have f: "freed ys a s = s\<lparr>heap := (heap s)(?p \<mapsto> m\<lparr>next_node := next_node n\<rparr>, a \<mapsto> n\<lparr>gc_pointer := NULL, next_node := free_list s\<rparr>),
        free_list := a\<rparr>"
      using False n m by (simp add: freed_def)
    have mp: "pointer m = NULL" "gc_pointer m \<noteq> NULL"
    proof -
      have "\<forall>x\<in>set (ys @ a # zs). ptr (heap s) x = NULL \<and> gcp (heap s) x \<noteq> NULL"
        using l unfolding hp_lists_def by blast
      then have "ptr (heap s) ?p = NULL \<and> gcp (heap s) ?p \<noteq> NULL"
        using p by (metis Un_iff set_append)
      then show "pointer m = NULL" "gc_pointer m \<noteq> NULL" using m by (simp_all add: field_of)
    qed
    note u = chain_unlink [OF gs n False m]
    show ?thesis
      using l n m e pe mp p u unfolding hp_lists_def f
      by (auto simp: chain_upd_same chain_upd_other insert_absorb)
  qed
qed

section \<open>Collect, alone\<close>

lemmas solo_collect_steps = solo_atom [of "Collect_hp me" for me, OF Collect_hp.simps(1)]
  solo_atom [of "Collect_hp me" for me, OF Collect_hp.simps(2)] solo_atom [of "Collect_hp me" for me, OF Collect_hp.simps(3)]
  solo_atom [of "Collect_hp me" for me, OF Collect_hp.simps(4)] solo_atom [of "Collect_hp me" for me, OF Collect_hp.simps(5)]
  solo_atom [of "Collect_hp me" for me, OF Collect_hp.simps(6)] solo_atom [of "Collect_hp me" for me, OF Collect_hp.simps(7)]
  solo_atom [of "Collect_hp me" for me, OF Collect_hp.simps(8)] solo_atom [of "Collect_hp me" for me, OF Collect_hp.simps(9)]
  solo_atom [of "Collect_hp me" for me, OF Collect_hp.simps(10)] solo_atom [of "Collect_hp me" for me, OF Collect_hp.simps(11)]
  solo_atom [of "Collect_hp me" for me, OF Collect_hp.simps(12)] solo_atom [of "Collect_hp me" for me, OF Collect_hp.simps(13)]
  solo_atom [of "Collect_hp me" for me, OF Collect_hp.simps(15)] solo_atom [of "Collect_hp me" for me, OF Collect_hp.simps(17)]
  solo_atom [of "Collect_hp me" for me, OF Collect_hp.simps(18)] solo_atom [of "Collect_hp me" for me, OF Collect_hp.simps(19)]

text \<open>The scan collects the object pointers of all nodes.\<close>

definition hazards :: "hp_list \<Rightarrow> addr list \<Rightarrow> addr list" where
  "hazards s ns = filter (\<lambda>v. v \<noteq> NULL) (map (ptr (heap s)) ns)"

lemma solo_scan:
  assumes "chain (heap s) fixed_link b xs (end_node s)"
  shows "solo (Collect_hp me) (CO_scan b) s =
    solo (Collect_hp me) CO_sort (s\<lparr>all_haz_ptrs := all_haz_ptrs s @ hazards s xs\<rparr>)"
  using assms
proof (induction xs arbitrary: b s)
  case Nil
  then show ?case by (simp add: solo_collect_steps(4) hazards_def)
next
  case (Cons x xs)
  then obtain n where n: "b = x" "x \<noteq> end_node s" "heap s x = Some n" "chain (heap s) fixed_link (fixed_link n) xs (end_node s)"
    by auto
  show ?case
  proof (cases "pointer n = NULL")
    case True
    with n Cons.IH [OF n(4)] show ?thesis
      by (simp add: solo_collect_steps(4,6) hazards_def field_of)
  next
    case False
    with n Cons.IH [of "s\<lparr>all_haz_ptrs := all_haz_ptrs s @ [pointer n]\<rparr>" "fixed_link n"] show ?thesis
      by (simp add: solo_collect_steps(4-6) hazards_def field_of)
  qed
qed

lemma chain_next:
  assumes "chain h fld b (ys @ a # zs) e" and "h a = Some n"
  shows "fld n = (case zs of [] \<Rightarrow> e | z # _ \<Rightarrow> z)"
  using assms by (induction ys arbitrary: b) (auto split: list.splits)

lemma chain_head: "chain h fld b xs e \<Longrightarrow> b = (case xs of [] \<Rightarrow> e | x # _ \<Rightarrow> x)"
  by (cases xs) auto

text \<open>One node of the gc list: kept if its object is protected, else its object is deleted.\<close>

lemma gc_node:
  assumes l: "hp_lists ns (ys @ a # zs) fs s"
  obtains n where "heap s a = Some n" "a \<noteq> end_node s" "a \<noteq> NULL" "a \<notin> set ys" "pointer n = NULL" "gc_pointer n \<noteq> NULL"
    "next_node n = (case zs of [] \<Rightarrow> end_node s | z # _ \<Rightarrow> z)"
proof -
  have ch: "chain (heap s) next_node (gc_list s) (ys @ a # zs) (end_node s)" and a: "a \<in> set ns" "NULL \<notin> set ns"
    and g: "ptr (heap s) a = NULL" "gcp (heap s) a \<noteq> NULL" and d: "a \<notin> set ys"
    using l unfolding hp_lists_def by auto
  then obtain n where n: "heap s a = Some n" using chain_dom [OF ch] by auto
  have "a \<noteq> end_node s" using chain_not_end [OF ch] by auto
  with n a g d chain_next [OF ch n] that show ?thesis by (auto simp: field_of)
qed

lemma solo_gc_keep:
  assumes l: "hp_lists ns (ys @ a # zs) fs s" and h: "sorted (all_haz_ptrs s)" "gcp (heap s) a \<in> set (all_haz_ptrs s)"
  shows "solo (Collect_hp me) (CO_gc_next a) s = solo (Collect_hp me) (CO_gc_next (case zs of [] \<Rightarrow> end_node s | z # _ \<Rightarrow> z)) s"
proof -
  obtain n where n: "heap s a = Some n" "a \<noteq> end_node s" "a \<noteq> NULL" "pointer n = NULL" "gc_pointer n \<noteq> NULL"
    "next_node n = (case zs of [] \<Rightarrow> end_node s | z # _ \<Rightarrow> z)"
    using l by (rule gc_node)
  with h show ?thesis
    by (simp add: solo_collect_steps(9) [of me a] solo_collect_steps(10,11) binary_search_member field_of)
qed

lemma solo_gc_free:
  assumes l: "hp_lists ns (ys @ a # zs) fs s" and h: "sorted (all_haz_ptrs s)" "gcp (heap s) a \<notin> set (all_haz_ptrs s)"
  shows "solo (Collect_hp me) (CO_gc_next a) s = solo (Collect_hp me) (CO_gc_next (case zs of [] \<Rightarrow> end_node s | z # _ \<Rightarrow> z))
    (freed ys a (s\<lparr>deleted := deleted s @ [gcp (heap s) a]\<rparr>))"
proof -
  obtain n where n: "heap s a = Some n" "a \<noteq> end_node s" "a \<noteq> NULL" "a \<notin> set ys" "pointer n = NULL" "gc_pointer n \<noteq> NULL"
    "next_node n = (case zs of [] \<Rightarrow> end_node s | z # _ \<Rightarrow> z)"
    using l by (rule gc_node)
  define s1 where "s1 = s\<lparr>heap := (heap s)(a \<mapsto> n\<lparr>gc_pointer := NULL\<rparr>), deleted := deleted s @ [gc_pointer n]\<rparr>"
  have to_remove: "solo (Collect_hp me) (CO_gc_next a) s =
      solo (Collect_hp me) (CO_gc_remove a (next_node n) (RM_test1 (Head Gc))) s1"
    using n h by (simp add: solo_collect_steps(9) [of me a] solo_collect_steps(10-13) binary_search_member field_of s1_def)
  have ch: "chain (heap s1) next_node (head_of Gc s1) (ys @ a # zs) (end_node s1)"
    using l n unfolding hp_lists_def s1_def by (simp add: chain_upd_same)
  obtain s2 where s2: "wr_link (last_link (Head Gc) ys) (next_node n) s1 = Ret s2"
      "heap s2 a = Some (n\<lparr>gc_pointer := NULL\<rparr>)" "free_list s2 = free_list s" "end_node s2 = end_node s"
      "heap s2 (end_node s) = heap s (end_node s)"
    and fr: "s2\<lparr>heap := (heap s2)(a \<mapsto> n\<lparr>gc_pointer := NULL, next_node := free_list s\<rparr>), free_list := a\<rparr> =
        freed ys a (s\<lparr>deleted := deleted s @ [gcp (heap s) a]\<rparr>)"
  proof (cases "ys = []")
    case True
    then show ?thesis
      using n by (intro that [of "s1\<lparr>gc_list := next_node n\<rparr>"]) (simp_all add: last_link_def freed_def s1_def field_of)
  next
    case False
    have chs: "chain (heap s) next_node (gc_list s) (ys @ a # zs) (end_node s)"
      using l unfolding hp_lists_def by blast
    obtain m where m: "heap s (last ys) = Some m" using chain_dom [OF chs] last_in_set [OF False] by auto
    have pe: "last ys \<noteq> end_node s" "last ys \<noteq> a"
      using chain_not_end [OF chs] False n(4) by (metis Un_iff last_in_set set_append)+
    show ?thesis
      using n m pe False
      by (intro that [of "s1\<lparr>heap := (heap s1)(last ys \<mapsto> m\<lparr>next_node := next_node n\<rparr>)\<rparr>"])
        (simp_all add: last_link_def freed_def s1_def field_of fun_upd_twist)
  qed
  define s3 where "s3 = s2\<lparr>heap := (heap s2)(a \<mapsto> n\<lparr>gc_pointer := NULL, next_node := NULL\<rparr>)\<rparr>"
  have "heap s1 a = Some (n\<lparr>gc_pointer := NULL\<rparr>)" by (simp add: s1_def)
  then have "solo (remove a Gc) (RM_test1 (Head Gc)) s1 = Some (Ret ((), s3))"
    using solo_remove [OF ch n(4), of "n\<lparr>gc_pointer := NULL\<rparr>" s2 "n\<lparr>gc_pointer := NULL\<rparr>"] s2 by (simp add: s3_def)
  then have "solo (Collect_hp me) (CO_gc_remove a (next_node n) (RM_test1 (Head Gc))) s1 =
      solo (Collect_hp me) (CO_gc_check a (next_node n)) s3"
    using solo_via [of "Collect_hp me" "CO_gc_remove a (next_node n)", OF Collect_hp.simps(14)] by simp
  also have "\<dots> = solo (Collect_hp me) (CO_gc_free a (next_node n) PU_check) s3"
    using s2 n(2) l by (simp add: solo_collect_steps s3_def hp_lists_def)
  also have "\<dots> = solo (Collect_hp me) (CO_gc_next (next_node n)) (set_head Free a
      (s3\<lparr>heap := (heap s3)(a \<mapsto> n\<lparr>gc_pointer := NULL, next_node := free_list s\<rparr>)\<rparr>))"
    using solo_via [of "Collect_hp me" "CO_gc_free a (next_node n)", OF Collect_hp.simps(16) solo_push [of s3 a "n\<lparr>gc_pointer := NULL, next_node := NULL\<rparr>" Free]] s2
    by (simp add: s3_def)
  also have "set_head Free a (s3\<lparr>heap := (heap s3)(a \<mapsto> n\<lparr>gc_pointer := NULL, next_node := free_list s\<rparr>)\<rparr>) =
      freed ys a (s\<lparr>deleted := deleted s @ [gcp (heap s) a]\<rparr>)"
    unfolding fr [symmetric] by (simp add: s3_def)
  finally show ?thesis unfolding to_remove n(7) .
qed

definition same_frame :: "hp_list \<Rightarrow> hp_list \<Rightarrow> bool" where
  "same_frame s s' \<longleftrightarrow> end_node s' = end_node s \<and> nodes s' = nodes s \<and> all_haz_ptrs s' = all_haz_ptrs s \<and>
     collector_client_lock s' = collector_client_lock s \<and> collector_thread s' = collector_thread s \<and>
     signals s' = signals s \<and> cells s' = cells s \<and> dom (heap s') = dom (heap s) \<and> ptr (heap s') = ptr (heap s)"

lemma same_frame_refl [simp]: "same_frame s s"
  by (simp add: same_frame_def)

lemma same_frame_trans: "same_frame s t \<Longrightarrow> same_frame t u \<Longrightarrow> same_frame s u"
  by (simp add: same_frame_def)

lemma freed_frame:
  assumes l: "hp_lists ns (ys @ a # zs) fs s"
  shows "same_frame s (freed ys a s)" and "deleted (freed ys a s) = deleted s"
    and "b \<noteq> a \<Longrightarrow> gcp (heap (freed ys a s)) b = gcp (heap s) b"
proof -
  obtain n where n: "heap s a = Some n" using l by (rule gc_node)
  have chs: "chain (heap s) next_node (gc_list s) (ys @ a # zs) (end_node s)"
    using l unfolding hp_lists_def by blast
  have m: "\<exists>m. heap s (last ys) = Some m" if "ys \<noteq> []"
    using chain_dom [OF chs] last_in_set [OF that] by auto
  show "same_frame s (freed ys a s)"
    using n m by (cases "ys = []") (auto simp: freed_def same_frame_def fun_eq_iff field_of insert_absorb)
  show "deleted (freed ys a s) = deleted s"
    by (simp add: freed_def Let_def)
  show "gcp (heap (freed ys a s)) b = gcp (heap s) b" if "b \<noteq> a"
    using n m that by (cases "ys = []") (auto simp: freed_def field_of)
qed

lemma hp_lists_deleted [simp]: "hp_lists ns gs fs (s\<lparr>deleted := d\<rparr>) = hp_lists ns gs fs s"
  by (rule hp_lists_cong) simp_all

lemma solo_gc_loop:
  fixes s :: hp_list
  assumes "hp_lists ns (ys @ zs) fs s" and "sorted (all_haz_ptrs s)"
  defines "K \<equiv> \<lambda>x. gcp (heap s) x \<in> set (all_haz_ptrs s)"
  shows "\<exists>s'. solo (Collect_hp me) (CO_gc_next (case zs of [] \<Rightarrow> end_node s | z # _ \<Rightarrow> z)) s = solo (Collect_hp me) CO_clear s' \<and>
    hp_lists ns (ys @ filter K zs) (rev (filter (\<lambda>x. \<not> K x) zs) @ fs) s' \<and> same_frame s s' \<and>
    deleted s' = deleted s @ map (gcp (heap s)) (filter (\<lambda>x. \<not> K x) zs) \<and>
    (\<forall>b\<in>set (ys @ filter K zs). gcp (heap s') b = gcp (heap s) b)"
  using assms(1,2) unfolding K_def
proof (induction zs arbitrary: ys fs s)
  case Nil
  then show ?case by (intro exI [of _ s]) (simp add: solo_collect_steps)
next
  case (Cons z zs)
  show ?case
  proof (cases "gcp (heap s) z \<in> set (all_haz_ptrs s)")
    case True
    note k = solo_gc_keep [OF Cons.prems True]
    from Cons.IH [of "ys @ [z]" fs s] Cons.prems show ?thesis
      using True by (simp add: k)
  next
    case False
    define s1 where "s1 = freed ys z (s\<lparr>deleted := deleted s @ [gcp (heap s) z]\<rparr>)"
    note k = solo_gc_free [OF Cons.prems False, folded s1_def]
    have l0: "hp_lists ns (ys @ z # zs) fs (s\<lparr>deleted := deleted s @ [gcp (heap s) z]\<rparr>)"
      using Cons.prems(1) by simp
    have l1: "hp_lists ns (ys @ zs) (z # fs) s1" unfolding s1_def by (rule hp_lists_freed [OF l0])
    have "same_frame (s\<lparr>deleted := deleted s @ [gcp (heap s) z]\<rparr>) s1"
      unfolding s1_def by (rule freed_frame(1) [OF l0])
    then have fr: "same_frame s s1" by (simp add: same_frame_def)
    have d1: "deleted s1 = deleted s @ [gcp (heap s) z]"
      unfolding s1_def freed_frame(2) [OF l0] by simp
    have g1: "gcp (heap s1) b = gcp (heap s) b" if "b \<noteq> z" for b
      unfolding s1_def using freed_frame(3) [OF l0 that] by simp
    have z: "z \<notin> set (ys @ zs)" using Cons.prems(1) by (auto simp: hp_lists_def)
    have gz: "\<And>x. x \<in> set zs \<Longrightarrow> gcp (heap s1) x = gcp (heap s) x" using g1 z by (metis Un_iff set_append)
    have h: "all_haz_ptrs s1 = all_haz_ptrs s" "end_node s1 = end_node s" using fr by (simp_all add: same_frame_def)
    have f: "filter (\<lambda>x. gcp (heap s1) x \<in> set (all_haz_ptrs s)) zs = filter (\<lambda>x. gcp (heap s) x \<in> set (all_haz_ptrs s)) zs"
      "filter (\<lambda>x. gcp (heap s1) x \<notin> set (all_haz_ptrs s)) zs = filter (\<lambda>x. gcp (heap s) x \<notin> set (all_haz_ptrs s)) zs"
      "map (gcp (heap s1)) (filter (\<lambda>x. gcp (heap s) x \<notin> set (all_haz_ptrs s)) zs) =
       map (gcp (heap s)) (filter (\<lambda>x. gcp (heap s) x \<notin> set (all_haz_ptrs s)) zs)"
      using gz by (auto intro!: filter_cong map_cong)
    obtain s' where s': "solo (Collect_hp me) (CO_gc_next (case zs of [] \<Rightarrow> end_node s | z # _ \<Rightarrow> z)) s1 = solo (Collect_hp me) CO_clear s'"
      "hp_lists ns (ys @ filter (\<lambda>x. gcp (heap s) x \<in> set (all_haz_ptrs s)) zs)
        (rev (filter (\<lambda>x. gcp (heap s) x \<notin> set (all_haz_ptrs s)) zs) @ z # fs) s'" "same_frame s1 s'"
      "deleted s' = deleted s1 @ map (gcp (heap s)) (filter (\<lambda>x. gcp (heap s) x \<notin> set (all_haz_ptrs s)) zs)"
      "\<forall>b\<in>set (ys @ filter (\<lambda>x. gcp (heap s) x \<in> set (all_haz_ptrs s)) zs). gcp (heap s') b = gcp (heap s1) b"
      using Cons.IH [OF l1] Cons.prems(2) unfolding h f by blast
    have keep: "\<forall>b\<in>set (ys @ filter (\<lambda>x. gcp (heap s) x \<in> set (all_haz_ptrs s)) zs). gcp (heap s') b = gcp (heap s) b"
      using s'(5) g1 z by (metis (no_types, lifting) Un_iff filter_is_subset set_append subsetD)
    show ?thesis
    proof (intro exI [of _ s'] conjI)
      show "solo (Collect_hp me) (CO_gc_next (case z # zs of [] \<Rightarrow> end_node s | z # _ \<Rightarrow> z)) s = solo (Collect_hp me) CO_clear s'"
        using k s'(1) by simp
      show "same_frame s s'" by (rule same_frame_trans [OF fr s'(3)])
    qed (use s'(2,4) d1 False keep in simp_all)
  qed
qed

text \<open>
  \<open>Collect_hp\<close> as a whole: \<open>kept\<close> and \<open>dead\<close> are the nodes of the gc list whose objects are
  protected and not protected by a node of the complete list.
\<close>

definition kept :: "addr list \<Rightarrow> addr list \<Rightarrow> hp_list \<Rightarrow> addr list" where
  "kept ns gs s = filter (\<lambda>x. gcp (heap s) x \<in> set (hazards s ns)) gs"

definition dead :: "addr list \<Rightarrow> addr list \<Rightarrow> hp_list \<Rightarrow> addr list" where
  "dead ns gs s = filter (\<lambda>x. gcp (heap s) x \<notin> set (hazards s ns)) gs"

lemma solo_Collect:
  assumes rep: "hp_rep ns gs fs s"
  obtains s' where "solo (Collect_hp me) CO_test s = Some (Ret (gs \<noteq> [] \<and> kept ns gs s = [], s'))"
    "hp_rep ns (kept ns gs s) (rev (dead ns gs s) @ fs) s'" "same_frame s s'"
    "deleted s' = deleted s @ map (gcp (heap s)) (dead ns gs s)"
    "\<forall>b\<in>set (kept ns gs s). gcp (heap s') b = gcp (heap s) b"
proof (cases "gs = []")
  case True
  with rep have "gc_list s = end_node s" by (simp add: hp_rep_def hp_lists_def)
  with True rep that [of s] show ?thesis by (simp add: solo_collect_steps(1) kept_def dead_def)
next
  case False
  have l: "hp_lists ns gs fs s" and a: "all_haz_ptrs s = []" "collector_client_lock s = None"
    using rep by (simp_all add: hp_rep_def)
  have ch: "chain (heap s) fixed_link (nodes s) ns (end_node s)" "chain (heap s) next_node (gc_list s) gs (end_node s)"
    using l by (simp_all add: hp_lists_def)
  have g: "gc_list s \<noteq> end_node s" using ch(2) False by (cases gs) auto
  define s1 where "s1 = s\<lparr>collector_client_lock := Some (me, 1), all_haz_ptrs := sort (hazards s ns)\<rparr>"
  have "solo (Collect_hp me) CO_test s = solo (Collect_hp me) (CO_scan (nodes s)) (s\<lparr>collector_client_lock := Some (me, 1)\<rparr>)"
    using g a by (simp add: solo_collect_steps(1-3))
  also have "\<dots> = solo (Collect_hp me) (CO_gc_next (gc_list s)) s1"
    using solo_scan [of "s\<lparr>collector_client_lock := Some (me, 1)\<rparr>" "nodes s" ns me] ch(1) a
    by (simp add: solo_collect_steps(7,8) s1_def hazards_def)
  finally have start: "solo (Collect_hp me) CO_test s = solo (Collect_hp me) (CO_gc_next (gc_list s)) s1" .
  have "hp_lists ns gs fs s1 = hp_lists ns gs fs s" by (rule hp_lists_cong) (simp_all add: s1_def)
  then have l1: "hp_lists ns ([] @ gs) fs s1" using l by simp
  have e1: "end_node s1 = end_node s" by (simp add: s1_def)
  have h1: "gc_list s = (case gs of [] \<Rightarrow> end_node s1 | z # _ \<Rightarrow> z)"
    unfolding e1 by (rule chain_head [OF ch(2)])
  have k1: "filter (\<lambda>x. gcp (heap s1) x \<in> set (all_haz_ptrs s1)) gs = kept ns gs s"
    "filter (\<lambda>x. gcp (heap s1) x \<notin> set (all_haz_ptrs s1)) gs = dead ns gs s"
    by (simp_all add: s1_def kept_def dead_def)
  obtain s2 where s2: "solo (Collect_hp me) (CO_gc_next (gc_list s)) s1 = solo (Collect_hp me) CO_clear s2"
    "hp_lists ns (kept ns gs s) (rev (dead ns gs s) @ fs) s2" "same_frame s1 s2"
    "deleted s2 = deleted s1 @ map (gcp (heap s1)) (dead ns gs s)"
    "\<forall>b\<in>set (kept ns gs s). gcp (heap s2) b = gcp (heap s1) b"
    using solo_gc_loop [OF l1, of me] unfolding k1 h1 [symmetric] by (auto simp: s1_def)
  have lock: "collector_client_lock s2 = Some (me, 1)" using s2(3) by (simp add: same_frame_def s1_def)
  define s' where "s' = s2\<lparr>all_haz_ptrs := [], collector_client_lock := None\<rparr>"
  have r: "gc_list s2 = end_node s2 \<longleftrightarrow> kept ns gs s = []"
    using s2(2) by (cases "kept ns gs s") (auto simp: hp_lists_def)
  have "solo (Collect_hp me) CO_test s = Some (Ret (gs \<noteq> [] \<and> kept ns gs s = [], s'))"
    unfolding start s2(1) using lock r False by (simp add: solo_collect_steps(15-17) s'_def)
  moreover have "hp_rep ns (kept ns gs s) (rev (dead ns gs s) @ fs) s'"
  proof -
    have "hp_lists ns (kept ns gs s) (rev (dead ns gs s) @ fs) s' = hp_lists ns (kept ns gs s) (rev (dead ns gs s) @ fs) s2"
      by (rule hp_lists_cong) (simp_all add: s'_def)
    with s2(2) show ?thesis by (simp add: hp_rep_def s'_def)
  qed
  moreover have "same_frame s s'" using s2(3) a by (simp add: same_frame_def s'_def s1_def)
  ultimately show ?thesis using s2(4,5) by (intro that [of s']) (simp_all add: s'_def s1_def)
qed

end
