(* ===== verification/Hazard_Ops.thy ===== *)
theory Hazard_Ops
  imports Hazard_Collect
begin

text \<open>
  The functions of \<^verbatim>\<open>HazardPointerList\<close> and \<^verbatim>\<open>HazardPointerNode\<close> as whole operations,
  against an abstract domain of hazard pointers: which nodes clients hold and what they protect,
  which objects are retired, and which have been deleted. Each operation that runs undisturbed
  returns without fault and does what the abstract domain says (\<open>hz_refines\<close>).
\<close>

section \<open>The abstract domain\<close>

record hz =
  handles :: "addr \<rightharpoonup> addr"  \<comment> \<open>nodes held by clients, with the protected object or 0\<close>
  retired :: "addr list"
  gone :: "addr list"
  vars :: "addr \<rightharpoonup> addr"     \<comment> \<open>the memory cells that hold object pointers\<close>

definition protected :: "hz \<Rightarrow> addr set" where
  "protected H = {v. v \<noteq> NULL \<and> (\<exists>n. handles H n = Some v)}"

datatype hz_op =
    New addr addr              \<comment> \<open>\<^verbatim>\<open>AcquireNode\<close>; the address and contents \<^verbatim>\<open>new\<close> would give\<close>
  | Acquire addr addr          \<comment> \<open>node, address of the cell\<close>
  | Clear addr
  | Release addr
  | Delete addr
  | Collect_op tid
  | Write addr addr            \<comment> \<open>the client stores an object pointer in a cell\<close>

datatype hz_result = Got_node addr | Flag bool | Nothing

fun allowed :: "hz_op \<Rightarrow> hz \<Rightarrow> bool" where
  "allowed (New a j) H = True"
| "allowed (Acquire n c) H = (n \<in> dom (handles H) \<and> c \<in> dom (vars H))"
| "allowed (Clear n) H = (n \<in> dom (handles H))"
| "allowed (Release n) H = (n \<in> dom (handles H))"
| "allowed (Delete n) H = (n \<in> dom (handles H))"
| "allowed (Collect_op t) H = True"
| "allowed (Write c v) H = (c \<in> dom (vars H))"

fun hz_spec :: "hz_op \<Rightarrow> hz \<Rightarrow> hz_result \<Rightarrow> hz \<Rightarrow> bool" where
  "hz_spec (New a j) H r H' =
     (\<exists>n. n \<noteq> NULL \<and> n \<notin> dom (handles H) \<and> r = Got_node n \<and> H' = H\<lparr>handles := (handles H)(n \<mapsto> NULL)\<rparr>)"
| "hz_spec (Acquire n c) H r H' =
     (r = Flag True \<and> (\<exists>v. vars H c = Some v \<and> H' = H\<lparr>handles := (handles H)(n \<mapsto> v)\<rparr>))"
| "hz_spec (Clear n) H r H' = (r = Flag True \<and> H' = H\<lparr>handles := (handles H)(n \<mapsto> NULL)\<rparr>)"
| "hz_spec (Release n) H r H' =
     (if handles H n = Some NULL then r = Flag False \<and> H' = H
      else r = Flag True \<and> H' = H\<lparr>handles := (handles H)(n := None)\<rparr>)"
| "hz_spec (Delete n) H r H' =
     (if handles H n = Some NULL then r = Flag False \<and> H' = H
      else r = Flag True \<and> (\<exists>v. handles H n = Some v \<and>
        H' = H\<lparr>handles := (handles H)(n := None), retired := v # retired H\<rparr>))"
| "hz_spec (Collect_op t) H r H' =
     (r = Flag (retired H \<noteq> [] \<and> set (retired H) \<inter> protected H = {}) \<and>
      H' = H\<lparr>retired := filter (\<lambda>v. v \<in> protected H) (retired H),
             gone := gone H @ filter (\<lambda>v. v \<notin> protected H) (retired H)\<rparr>)"
| "hz_spec (Write c v) H r H' = (r = Nothing \<and> H' = H\<lparr>vars := (vars H)(c \<mapsto> v)\<rparr>)"

section \<open>The operations of the implementation\<close>

definition finish :: "('r \<Rightarrow> hz_result) \<Rightarrow> ('r \<times> hp_list) ctl option \<Rightarrow> (hz_result \<times> hp_list) ctl option" where
  "finish f c = map_option (\<lambda>x. bnd x (\<lambda>(r, s). Ret (f r, s))) c"

fun hz_exec :: "hz_op \<Rightarrow> hp_list \<Rightarrow> (hz_result \<times> hp_list) ctl option" where
  "hz_exec (New a j) s = finish Got_node (solo (AcquireNode a j) (AN_pop PO_head) s)"
| "hz_exec (Acquire n c) s = finish Flag (solo (node_Acquire n c) AC_check s)"
| "hz_exec (Clear n) s = finish Flag (solo (node_Clear n) CL_check s)"
| "hz_exec (Release n) s = finish Flag (solo (node_Release n) RE_check s)"
| "hz_exec (Delete n) s = finish Flag (solo (node_Delete n) DE_check s)"
| "hz_exec (Collect_op t) s = finish Flag (solo (Collect_hp t) CO_test s)"
| "hz_exec (Write c v) s = Some (Ret (Nothing, s\<lparr>cells := (cells s)(c \<mapsto> v)\<rparr>))"

text \<open>\<^verbatim>\<open>new\<close> returns an address that is not in use.\<close>

fun fresh_new :: "hz_op \<Rightarrow> hp_list \<Rightarrow> bool" where
  "fresh_new (New a j) s = (heap s a = None \<and> a \<noteq> NULL)"
| "fresh_new _ s = True"

definition hz_abs :: "addr list \<Rightarrow> addr list \<Rightarrow> addr list \<Rightarrow> hp_list \<Rightarrow> hz" where
  "hz_abs ns gs fs s = \<lparr>handles = (\<lambda>a. if in_use ns gs fs a then Some (ptr (heap s) a) else None),
     retired = map (gcp (heap s)) gs, gone = deleted s, vars = cells s\<rparr>"

definition hz_rel :: "hz \<Rightarrow> hp_list \<Rightarrow> bool" where
  "hz_rel H s \<longleftrightarrow> (\<exists>ns gs fs. hp_rep ns gs fs s \<and> H = hz_abs ns gs fs s)"

section \<open>Each operation, alone\<close>

lemma finish_Ret [simp]: "finish f (Some (Ret (r, s))) = Some (Ret (f r, s))"
  by (simp add: finish_def)

lemma hp_rep_lists: "hp_rep ns gs fs s \<Longrightarrow> hp_lists ns gs fs s"
  by (simp add: hp_rep_def)

text \<open>A change of the heap that keeps the lists, and of the fields that have no part in them.\<close>

lemma hp_repI:
  assumes "hp_rep ns gs fs s" and "hp_lists ns' gs' fs' s'"
    and "all_haz_ptrs s' = all_haz_ptrs s" and "collector_client_lock s' = collector_client_lock s"
  shows "hp_rep ns' gs' fs' s'"
  using assms by (simp add: hp_rep_def)

text \<open>\<open>AcquireNode\<close> allocates when the free list is empty.\<close>

lemma AcquireNode_new:
  fixes j :: addr
  assumes rep: "hp_rep ns gs [] s" and a: "heap s a = None" "a \<noteq> NULL"
  defines "s' \<equiv> s\<lparr>heap := (heap s)(a \<mapsto> (HazardPointerNode_ctor j)\<lparr>fixed_link := nodes s\<rparr>), nodes := a\<rparr>"
  shows "solo (AcquireNode a j) (AN_pop PO_head) s = Some (Ret (a, s'))" and "hp_rep (a # ns) gs [] s'"
proof -
  note l = hp_rep_lists [OF rep]
  have h: "free_list s = end_node s" "heap s (end_node s) = Some \<lparr>pointer = NULL, gc_pointer = NULL, fixed_link = end_node s, next_node = end_node s\<rparr>"
    using l unfolding hp_lists_def by auto
  have "solo (pop Free) PO_head s = Some (Ret (end_node s, s))"
    using solo_pop [of s Free] h by simp
  then have "solo (AcquireNode a j) (AN_pop PO_head) s = solo (AcquireNode a j) (AN_test (end_node s)) s"
    using solo_via [of "AcquireNode a j" AN_pop, OF AcquireNode.simps(1)] by simp
  also have "\<dots> = solo (AcquireNode a j) (AN_add AD_read) (new_node a j s)"
    by (simp add: solo_atom [of "AcquireNode a j", OF AcquireNode.simps(2)])
  also have "\<dots> = Some (Ret (a, s'))"
    using solo_via [of "AcquireNode a j" AN_add, OF AcquireNode.simps(3) solo_Add [of "new_node a j s" a]]
    by (simp add: new_node_def s'_def)
  finally show "solo (AcquireNode a j) (AN_pop PO_head) s = Some (Ret (a, s'))" .
  show "hp_rep (a # ns) gs [] s'" using hp_repI [OF rep hp_lists_new(1) [OF l a]] by (simp add: s'_def)
qed

lemma AcquireNode_alone:
  assumes rep: "hp_rep ns gs fs s" and a: "heap s a = None" "a \<noteq> NULL"
  shows "\<exists>n ns' fs' s'. solo (AcquireNode a j) (AN_pop PO_head) s = Some (Ret (n, s')) \<and>
    hp_rep ns' gs fs' s' \<and> in_use ns' gs fs' n \<and> \<not> in_use ns gs fs n \<and> n \<noteq> NULL \<and> ptr (heap s') n = NULL \<and>
    (\<forall>b. b \<noteq> n \<longrightarrow> (in_use ns' gs fs' b \<longleftrightarrow> in_use ns gs fs b) \<and> ptr (heap s') b = ptr (heap s) b) \<and>
    (\<forall>b\<in>set gs. gcp (heap s') b = gcp (heap s) b) \<and> deleted s' = deleted s \<and> cells s' = cells s"
proof (cases fs)
  case (Cons x fs')
  note l = hp_rep_lists [OF rep, unfolded Cons]
  obtain n where n: "heap s x = Some n" "pointer n = NULL"
    using l unfolding hp_lists_def by (auto simp: field_of)
  let ?s = "s\<lparr>free_list := next_node n, heap := (heap s)(x \<mapsto> n\<lparr>next_node := NULL\<rparr>)\<rparr>"
  have h: "free_list s = x" "x \<noteq> end_node s" using l unfolding hp_lists_def by auto
  have "solo (pop Free) PO_head s = Some (Ret (x, ?s))"
    using solo_pop [of s Free n] n h by simp
  then have "solo (AcquireNode a j) (AN_pop PO_head) s = solo (AcquireNode a j) (AN_test x) ?s"
    using solo_via [of "AcquireNode a j" AN_pop, OF AcquireNode.simps(1)] by simp
  also have "\<dots> = Some (Ret (x, ?s))"
    using h by (simp add: solo_atom [of "AcquireNode a j", OF AcquireNode.simps(2)])
  finally have run: "solo (AcquireNode a j) (AN_pop PO_head) s = Some (Ret (x, ?s))" .
  have rep': "hp_rep ns gs fs' ?s" using hp_repI [OF rep hp_lists_pop(1) [OF l n(1)]] by simp
  show ?thesis
    using run rep' hp_lists_pop(2) [OF l n(1)] n l Cons
    by (intro exI [of _ x] exI [of _ ns] exI [of _ fs'] exI [of _ ?s])
      (auto simp: in_use_def hp_lists_def field_of)
next
  case Nil
  have d: "a \<notin> set ns" "a \<notin> set gs" using hp_rep_lists [OF rep] a unfolding hp_lists_def by auto
  show ?thesis
    using AcquireNode_new [OF rep [unfolded Nil] a, of j] a d Nil
    by (intro exI [of _ a] exI [of _ "a # ns"] exI [of _ "[]"]
        exI [of _ "s\<lparr>heap := (heap s)(a \<mapsto> (HazardPointerNode_ctor j)\<lparr>fixed_link := nodes s\<rparr>), nodes := a\<rparr>"])
      (auto simp: in_use_def HazardPointerNode_ctor_def)
qed

text \<open>The functions of a node that a client holds.\<close>

lemma node_Acquire_alone:
  assumes rep: "hp_rep ns gs fs s" and u: "in_use ns gs fs a" and n: "heap s a = Some n" and c: "cells s cl = Some v"
  shows "solo (node_Acquire a cl) AC_check s = Some (Ret (True, s\<lparr>heap := (heap s)(a \<mapsto> n\<lparr>pointer := v\<rparr>)\<rparr>))"
    and "hp_rep ns gs fs (s\<lparr>heap := (heap s)(a \<mapsto> n\<lparr>pointer := v\<rparr>)\<rparr>)"
proof -
  note l = hp_rep_lists [OF rep]
  have g: "gc_pointer n = NULL" "next_node n = NULL" using in_use_node [OF l u] n by auto
  with n c show "solo (node_Acquire a cl) AC_check s = Some (Ret (True, s\<lparr>heap := (heap s)(a \<mapsto> n\<lparr>pointer := v\<rparr>)\<rparr>))"
    by (simp add: solo_atom [of "node_Acquire a cl", OF node_Acquire.simps(1)]
        solo_atom [of "node_Acquire a cl", OF node_Acquire.simps(2)]
        solo_atom [of "node_Acquire a cl", OF node_Acquire.simps(3)] IsUnqueued_def)
  show "hp_rep ns gs fs (s\<lparr>heap := (heap s)(a \<mapsto> n\<lparr>pointer := v\<rparr>)\<rparr>)"
    using hp_repI [OF rep hp_lists_pointer [OF l u n]] by simp
qed

lemma node_Clear_alone:
  assumes rep: "hp_rep ns gs fs s" and u: "in_use ns gs fs a" and n: "heap s a = Some n"
  shows "solo (node_Clear a) CL_check s = Some (Ret (True, s\<lparr>heap := (heap s)(a \<mapsto> n\<lparr>pointer := NULL\<rparr>)\<rparr>))"
    and "hp_rep ns gs fs (s\<lparr>heap := (heap s)(a \<mapsto> n\<lparr>pointer := NULL\<rparr>)\<rparr>)"
proof -
  note l = hp_rep_lists [OF rep]
  have g: "gc_pointer n = NULL" using in_use_node [OF l u] n by auto
  with n show "solo (node_Clear a) CL_check s = Some (Ret (True, s\<lparr>heap := (heap s)(a \<mapsto> n\<lparr>pointer := NULL\<rparr>)\<rparr>))"
    by (simp add: solo_atom [of "node_Clear a", OF node_Clear.simps(1)] solo_atom [of "node_Clear a", OF node_Clear.simps(2)])
  show "hp_rep ns gs fs (s\<lparr>heap := (heap s)(a \<mapsto> n\<lparr>pointer := NULL\<rparr>)\<rparr>)"
    using hp_repI [OF rep hp_lists_pointer [OF l u n]] by simp
qed

lemma node_Release_alone:
  assumes rep: "hp_rep ns gs fs s" and u: "in_use ns gs fs a" and n: "heap s a = Some n"
  shows "pointer n = NULL \<Longrightarrow> solo (node_Release a) RE_check s = Some (Ret (False, s))"
    and "pointer n \<noteq> NULL \<Longrightarrow> solo (node_Release a) RE_check s =
      Some (Ret (True, s\<lparr>heap := (heap s)(a \<mapsto> n\<lparr>pointer := NULL, next_node := free_list s\<rparr>), free_list := a\<rparr>))"
    and "hp_rep ns gs (a # fs) (s\<lparr>heap := (heap s)(a \<mapsto> n\<lparr>pointer := NULL, next_node := free_list s\<rparr>), free_list := a\<rparr>)"
proof -
  note l = hp_rep_lists [OF rep]
  have g: "gc_pointer n = NULL" "next_node n = NULL" using in_use_node [OF l u] n by auto
  let ?s = "s\<lparr>heap := (heap s)(a \<mapsto> n\<lparr>pointer := NULL\<rparr>)\<rparr>"
  show "pointer n = NULL \<Longrightarrow> solo (node_Release a) RE_check s = Some (Ret (False, s))"
    using n g by (simp add: solo_atom [of "node_Release a", OF node_Release.simps(1)])
  have "solo (EnqueueFreeRecord a) EF_check ?s = solo (EnqueueFreeRecord a) (EF_push PU_check) ?s"
    using g by (simp add: solo_atom [of "EnqueueFreeRecord a", OF EnqueueFreeRecord.simps(1)] IsUnqueued_def)
  also have "\<dots> = Some (Ret ((), s\<lparr>heap := (heap s)(a \<mapsto> n\<lparr>pointer := NULL, next_node := free_list s\<rparr>), free_list := a\<rparr>))"
    using solo_via [of "EnqueueFreeRecord a" EF_push, OF EnqueueFreeRecord.simps(2) solo_push [of ?s a "n\<lparr>pointer := NULL\<rparr>" Free]] g
    by simp
  finally have e: "solo (EnqueueFreeRecord a) EF_check ?s =
    Some (Ret ((), s\<lparr>heap := (heap s)(a \<mapsto> n\<lparr>pointer := NULL, next_node := free_list s\<rparr>), free_list := a\<rparr>))" .
  show "solo (node_Release a) RE_check s =
      Some (Ret (True, s\<lparr>heap := (heap s)(a \<mapsto> n\<lparr>pointer := NULL, next_node := free_list s\<rparr>), free_list := a\<rparr>))"
    if "pointer n \<noteq> NULL"
    using n g that solo_via [of "node_Release a" RE_enqueue, OF node_Release.simps(3) e]
    by (simp add: solo_atom [of "node_Release a", OF node_Release.simps(1)] solo_atom [of "node_Release a", OF node_Release.simps(2)])
  have "hp_lists ns gs fs ?s" by (rule hp_lists_pointer [OF l u n])
  from hp_lists_free [OF this u, of "n\<lparr>pointer := NULL\<rparr>"]
  show "hp_rep ns gs (a # fs) (s\<lparr>heap := (heap s)(a \<mapsto> n\<lparr>pointer := NULL, next_node := free_list s\<rparr>), free_list := a\<rparr>)"
    by (intro hp_repI [OF rep]) simp_all
qed

lemma node_Delete_alone:
  assumes rep: "hp_rep ns gs fs s" and u: "in_use ns gs fs a" and n: "heap s a = Some n"
  defines "s' \<equiv> s\<lparr>heap := (heap s)(a \<mapsto> n\<lparr>gc_pointer := pointer n, pointer := NULL, next_node := gc_list s\<rparr>), gc_list := a,
      signals := (if collector_thread s then signals s + 1 else signals s)\<rparr>"
  shows "pointer n = NULL \<Longrightarrow> solo (node_Delete a) DE_check s = Some (Ret (False, s))"
    and "pointer n \<noteq> NULL \<Longrightarrow> solo (node_Delete a) DE_check s = Some (Ret (True, s'))"
    and "pointer n \<noteq> NULL \<Longrightarrow> hp_rep ns (a # gs) fs s'"
proof -
  note l = hp_rep_lists [OF rep]
  have g: "gc_pointer n = NULL" "next_node n = NULL" using in_use_node [OF l u] n by auto
  let ?n = "n\<lparr>gc_pointer := pointer n, pointer := NULL\<rparr>"
  let ?s = "s\<lparr>heap := (heap s)(a \<mapsto> ?n)\<rparr>"
  show "pointer n = NULL \<Longrightarrow> solo (node_Delete a) DE_check s = Some (Ret (False, s))"
    using n g by (simp add: solo_atom [of "node_Delete a", OF node_Delete.simps(1)])
  assume p: "pointer n \<noteq> NULL"
  have "solo (EnqueueRecordForCollection a) EC_check ?s = solo (EnqueueRecordForCollection a) (EC_push PU_check) ?s"
    using g p by (simp add: solo_atom [of "EnqueueRecordForCollection a", OF EnqueueRecordForCollection.simps(1)] IsUnqueued_def)
  also have "\<dots> = solo (EnqueueRecordForCollection a) EC_signal
      (s\<lparr>heap := (heap s)(a \<mapsto> ?n\<lparr>next_node := gc_list s\<rparr>), gc_list := a\<rparr>)"
    using solo_via [of "EnqueueRecordForCollection a" EC_push, OF EnqueueRecordForCollection.simps(2) solo_push [of ?s a ?n Gc]] g
    by simp
  also have "\<dots> = Some (Ret ((), s'))"
    by (simp add: solo_atom [of "EnqueueRecordForCollection a", OF EnqueueRecordForCollection.simps(3)] s'_def)
  finally have e: "solo (EnqueueRecordForCollection a) EC_check ?s = Some (Ret ((), s'))" .
  have "solo (node_Delete a) DE_check s = solo (node_Delete a) (DE_enqueue EC_check) ?s"
    using n g p
    by (simp add: solo_atom [of "node_Delete a", OF node_Delete.simps(1)] solo_atom [of "node_Delete a", OF node_Delete.simps(2)]
        solo_atom [of "node_Delete a", OF node_Delete.simps(3)] solo_atom [of "node_Delete a", OF node_Delete.simps(4)])
  also have "\<dots> = solo (node_Delete a) DE_check2 s'"
    using solo_via [of "node_Delete a" DE_enqueue, OF node_Delete.simps(5) e] by simp
  also have "\<dots> = Some (Ret (True, s'))"
    by (simp add: solo_atom [of "node_Delete a", OF node_Delete.simps(6)] s'_def)
  finally show "solo (node_Delete a) DE_check s = Some (Ret (True, s'))" .
  have "hp_lists ns (a # gs) fs s' = hp_lists ns (a # gs) fs
    (s\<lparr>heap := (heap s)(a \<mapsto> n\<lparr>gc_pointer := pointer n, pointer := NULL, next_node := gc_list s\<rparr>), gc_list := a\<rparr>)"
    by (rule hp_lists_cong) (simp_all add: s'_def)
  with hp_lists_gc [OF l u n p] show "hp_rep ns (a # gs) fs s'"
    by (intro hp_repI [OF rep]) (simp_all add: s'_def)
qed

section \<open>The implementation follows the abstract domain\<close>

lemma handles_abs: "handles (hz_abs ns gs fs s) a = (if in_use ns gs fs a then Some (ptr (heap s) a) else None)"
  by (simp add: hz_abs_def)

lemma held_node:
  assumes "hp_rep ns gs fs s" and "a \<in> dom (handles (hz_abs ns gs fs s))"
  obtains n where "in_use ns gs fs a" "heap s a = Some n" "handles (hz_abs ns gs fs s) a = Some (pointer n)"
proof -
  from assms(2) have u: "in_use ns gs fs a" by (auto simp: handles_abs split: if_splits)
  obtain n where "heap s a = Some n" using hp_rep_lists [OF assms(1)] u by (rule in_use_node)
  with u that show ?thesis by (simp add: handles_abs field_of)
qed

lemma abs_pointer:
  assumes "in_use ns gs fs a" and "heap s a = Some n"
  shows "hz_abs ns gs fs (s\<lparr>heap := (heap s)(a \<mapsto> n\<lparr>pointer := v\<rparr>)\<rparr>) =
    (hz_abs ns gs fs s)\<lparr>handles := (handles (hz_abs ns gs fs s))(a \<mapsto> v)\<rparr>"
  using assms by (auto simp: hz_abs_def fun_eq_iff field_of)

lemma protected_abs:
  assumes rep: "hp_rep ns gs fs s"
  shows "protected (hz_abs ns gs fs s) = set (hazards s ns)"
proof -
  have "ptr (heap s) a = NULL" if "a \<in> set ns" "\<not> in_use ns gs fs a" for a
    using rep that by (auto simp: hp_rep_def hp_lists_def in_use_def)
  then show ?thesis
    unfolding protected_def hazards_def handles_abs by (auto simp: in_use_def split: if_splits)
qed

lemma refinesI:
  assumes "hz_exec op s = Some (Ret (r, s'))" and "hp_rep ns gs fs s'" and "hz_abs ns gs fs s' = H'" and "hz_spec op H r H'"
  shows "\<exists>r s' H'. hz_exec op s = Some (Ret (r, s')) \<and> hz_spec op H r H' \<and> hz_rel H' s'"
  using assms unfolding hz_rel_def by blast

lemma refines_new:
  assumes "hp_rep ns gs fs s" and "heap s a = None" "a \<noteq> NULL"
  shows "\<exists>r s' H'. hz_exec (New a j) s = Some (Ret (r, s')) \<and> hz_spec (New a j) (hz_abs ns gs fs s) r H' \<and> hz_rel H' s'"
proof -
  obtain n ns' fs' s' where run: "solo (AcquireNode a j) (AN_pop PO_head) s = Some (Ret (n, s'))"
    and r: "hp_rep ns' gs fs' s'" "in_use ns' gs fs' n" "\<not> in_use ns gs fs n" "n \<noteq> NULL" "ptr (heap s') n = NULL"
    and o: "\<forall>b. b \<noteq> n \<longrightarrow> (in_use ns' gs fs' b \<longleftrightarrow> in_use ns gs fs b) \<and> ptr (heap s') b = ptr (heap s) b"
      "\<forall>b\<in>set gs. gcp (heap s') b = gcp (heap s) b" "deleted s' = deleted s" "cells s' = cells s"
    using AcquireNode_alone [OF assms, of j] by blast
  have "hz_abs ns' gs fs' s' = (hz_abs ns gs fs s)\<lparr>handles := (handles (hz_abs ns gs fs s))(n \<mapsto> NULL)\<rparr>"
    using r o by (auto simp: hz_abs_def fun_eq_iff)
  moreover have "n \<notin> dom (handles (hz_abs ns gs fs s))"
    using r(3) by (simp add: handles_abs domIff)
  ultimately show ?thesis
    using run r(4) by (intro refinesI [OF _ r(1), of _ _ "Got_node n"]) auto
qed

lemma refines_release:
  assumes rep: "hp_rep ns gs fs s" and d: "a \<in> dom (handles (hz_abs ns gs fs s))"
  shows "\<exists>r s' H'. hz_exec (Release a) s = Some (Ret (r, s')) \<and> hz_spec (Release a) (hz_abs ns gs fs s) r H' \<and> hz_rel H' s'"
proof -
  obtain n where n: "in_use ns gs fs a" "heap s a = Some n" "handles (hz_abs ns gs fs s) a = Some (pointer n)"
    using rep d by (rule held_node)
  note alone = node_Release_alone [OF rep n(1,2)]
  show ?thesis
  proof (cases "pointer n = NULL")
    case True
    with alone(1) n(3) show ?thesis by (intro refinesI [OF _ rep refl, of _ _ "Flag False"]) auto
  next
    case False
    let ?s = "s\<lparr>heap := (heap s)(a \<mapsto> n\<lparr>pointer := NULL, next_node := free_list s\<rparr>), free_list := a\<rparr>"
    have "hz_abs ns gs (a # fs) ?s = (hz_abs ns gs fs s)\<lparr>handles := (handles (hz_abs ns gs fs s))(a := None)\<rparr>"
      using n(1) by (auto simp: hz_abs_def fun_eq_iff in_use_def)
    from this show ?thesis
      by (intro refinesI [OF _ alone(3), of _ _ "Flag True"]) (use False alone(2) n(3) in auto)
  qed
qed

lemma refines_delete:
  assumes rep: "hp_rep ns gs fs s" and d: "a \<in> dom (handles (hz_abs ns gs fs s))"
  shows "\<exists>r s' H'. hz_exec (Delete a) s = Some (Ret (r, s')) \<and> hz_spec (Delete a) (hz_abs ns gs fs s) r H' \<and> hz_rel H' s'"
proof -
  obtain n where n: "in_use ns gs fs a" "heap s a = Some n" "handles (hz_abs ns gs fs s) a = Some (pointer n)"
    using rep d by (rule held_node)
  note alone = node_Delete_alone [OF rep n(1,2)]
  show ?thesis
  proof (cases "pointer n = NULL")
    case True
    with alone(1) n(3) show ?thesis by (intro refinesI [OF _ rep refl, of _ _ "Flag False"]) auto
  next
    case False
    let ?s = "s\<lparr>heap := (heap s)(a \<mapsto> n\<lparr>gc_pointer := pointer n, pointer := NULL, next_node := gc_list s\<rparr>), gc_list := a,
      signals := (if collector_thread s then signals s + 1 else signals s)\<rparr>"
    have "hz_abs ns (a # gs) fs ?s = (hz_abs ns gs fs s)\<lparr>handles := (handles (hz_abs ns gs fs s))(a := None),
        retired := pointer n # retired (hz_abs ns gs fs s)\<rparr>"
      using n(1) by (auto simp: hz_abs_def fun_eq_iff in_use_def)
    from this show ?thesis
      by (intro refinesI [OF _ alone(3) [OF False], of _ _ "Flag True"]) (use False alone(2) n(3) in auto)
  qed
qed

lemma refines_collect:
  assumes rep: "hp_rep ns gs fs s"
  shows "\<exists>r s' H'. hz_exec (Collect_op t) s = Some (Ret (r, s')) \<and> hz_spec (Collect_op t) (hz_abs ns gs fs s) r H' \<and> hz_rel H' s'"
proof -
  let ?H = "hz_abs ns gs fs s"
  obtain s' where run: "solo (Collect_hp t) CO_test s = Some (Ret (gs \<noteq> [] \<and> kept ns gs s = [], s'))"
    and r: "hp_rep ns (kept ns gs s) (rev (dead ns gs s) @ fs) s'" "same_frame s s'"
    and d: "deleted s' = deleted s @ map (gcp (heap s)) (dead ns gs s)"
    and g: "\<forall>b\<in>set (kept ns gs s). gcp (heap s') b = gcp (heap s) b"
    using rep by (rule solo_Collect)
  note p = protected_abs [OF rep]
  have kd: "map (gcp (heap s)) (kept ns gs s) = filter (\<lambda>v. v \<in> protected ?H) (retired ?H)"
    "map (gcp (heap s)) (dead ns gs s) = filter (\<lambda>v. v \<notin> protected ?H) (retired ?H)"
    unfolding p by (simp_all add: kept_def dead_def hz_abs_def filter_map comp_def)
  have e: "kept ns gs s = [] \<longleftrightarrow> set (retired ?H) \<inter> protected ?H = {}"
    unfolding p by (auto simp: kept_def hz_abs_def filter_empty_conv)
  have f: "Flag (gs \<noteq> [] \<and> kept ns gs s = []) = Flag (retired ?H \<noteq> [] \<and> set (retired ?H) \<inter> protected ?H = {})"
    unfolding e by (simp add: hz_abs_def)
  have u: "in_use ns (kept ns gs s) (rev (dead ns gs s) @ fs) b = in_use ns gs fs b" for b
    by (auto simp: in_use_def kept_def dead_def)
  have m: "map (gcp (heap s')) (kept ns gs s) = map (gcp (heap s)) (kept ns gs s)" using g by simp
  have "hz_abs ns (kept ns gs s) (rev (dead ns gs s) @ fs) s' =
      ?H\<lparr>retired := map (gcp (heap s)) (kept ns gs s), gone := gone ?H @ map (gcp (heap s)) (dead ns gs s)\<rparr>"
    using r(2) d m u by (simp add: hz_abs_def same_frame_def cong: if_cong)
  then have a: "hz_abs ns (kept ns gs s) (rev (dead ns gs s) @ fs) s' =
      ?H\<lparr>retired := filter (\<lambda>v. v \<in> protected ?H) (retired ?H),
         gone := gone ?H @ filter (\<lambda>v. v \<notin> protected ?H) (retired ?H)\<rparr>"
    unfolding kd .
  have "hz_exec (Collect_op t) s = Some (Ret (Flag (retired ?H \<noteq> [] \<and> set (retired ?H) \<inter> protected ?H = {}), s'))"
    using run unfolding f [symmetric] by simp
  from this r(1) a show ?thesis
    by (rule refinesI) (simp only: hz_spec.simps simp_thms)
qed

lemma hz_refines:
  assumes "hz_rel H s" and "allowed op H" and "fresh_new op s"
  shows "\<exists>r s' H'. hz_exec op s = Some (Ret (r, s')) \<and> hz_spec op H r H' \<and> hz_rel H' s'"
proof -
  from assms(1) obtain ns gs fs where rep: "hp_rep ns gs fs s" and H: "H = hz_abs ns gs fs s"
    by (auto simp: hz_rel_def)
  show ?thesis
  proof (cases op)
    case (New a j)
    with assms(3) refines_new [OF rep] show ?thesis unfolding H by simp
  next
    case (Acquire a c)
    with assms(2) H have d: "a \<in> dom (handles (hz_abs ns gs fs s))" "c \<in> dom (vars (hz_abs ns gs fs s))" by simp_all
    then obtain v where v: "cells s c = Some v" by (auto simp: hz_abs_def)
    obtain n where n: "in_use ns gs fs a" "heap s a = Some n" using rep d(1) by (rule held_node)
    have "vars (hz_abs ns gs fs s) c = Some v" using v by (simp add: hz_abs_def)
    then show ?thesis
      unfolding H Acquire
      by (intro refinesI [OF _ node_Acquire_alone(2) [OF rep n v] abs_pointer [OF n], of _ _ "Flag True"])
        (use node_Acquire_alone(1) [OF rep n v] in auto)
  next
    case (Clear a)
    with assms(2) H have d: "a \<in> dom (handles (hz_abs ns gs fs s))" by simp
    obtain n where n: "in_use ns gs fs a" "heap s a = Some n" using rep d by (rule held_node)
    then show ?thesis
      unfolding H Clear
      by (intro refinesI [OF _ node_Clear_alone(2) [OF rep n] abs_pointer [OF n], of _ _ "Flag True"])
        (use node_Clear_alone(1) [OF rep n] in auto)
  next
    case (Release a)
    with assms(2) refines_release [OF rep] show ?thesis unfolding H by simp
  next
    case (Delete a)
    with assms(2) refines_delete [OF rep] show ?thesis unfolding H by simp
  next
    case (Collect_op t)
    with refines_collect [OF rep] show ?thesis unfolding H by simp
  next
    case (Write c v)
    have "hp_lists ns gs fs (s\<lparr>cells := (cells s)(c \<mapsto> v)\<rparr>) = hp_lists ns gs fs s"
      by (rule hp_lists_cong) simp_all
    with rep have "hp_rep ns gs fs (s\<lparr>cells := (cells s)(c \<mapsto> v)\<rparr>)" by (simp add: hp_rep_def)
    moreover have "hz_abs ns gs fs (s\<lparr>cells := (cells s)(c \<mapsto> v)\<rparr>) = H\<lparr>vars := (vars H)(c \<mapsto> v)\<rparr>"
      by (simp add: H hz_abs_def cong: if_cong)
    ultimately show ?thesis
      unfolding Write by (intro refinesI [where r = Nothing]) auto
  qed
qed

end
