(* ===== verification/Hazard_Safety.thy ===== *)
theory Hazard_Safety
  imports Hazard_Ops
begin

text \<open>
  Sequences of operations on one \<^verbatim>\<open>HazardPointerList\<close> (\<^verbatim>\<open>src/src/HazardPointer.hpp\<close>),
  from its construction to its destruction: every permitted sequence returns without fault and
  follows the abstract domain, an object that a node protects is not deleted, and the destructor
  deletes every retired object and every node.
\<close>

section \<open>Sequences of operations\<close>

text \<open>
  The handles can be read off the heap: a node that no list contains has a null link. A client may
  call a node's functions only while it holds the node.
\<close>

definition held :: "hp_list \<Rightarrow> addr \<rightharpoonup> addr" where
  "held s a = (case heap s a of None \<Rightarrow> None | Some n \<Rightarrow> if next_node n = NULL then Some (pointer n) else None)"

fun client_ok :: "hz_op \<Rightarrow> hp_list \<Rightarrow> bool" where
  "client_ok (New a j) s = (heap s a = None \<and> a \<noteq> NULL)"
| "client_ok (Acquire n c) s = (held s n \<noteq> None \<and> cells s c \<noteq> None)"
| "client_ok (Clear n) s = (held s n \<noteq> None)"
| "client_ok (Release n) s = (held s n \<noteq> None)"
| "client_ok (Delete n) s = (held s n \<noteq> None)"
| "client_ok (Collect_op t) s = True"
| "client_ok (Write c v) s = (cells s c \<noteq> None)"

fun touches :: "addr \<Rightarrow> hz_op \<Rightarrow> bool" where
  "touches n (Acquire m c) = (m = n)"
| "touches n (Clear m) = (m = n)"
| "touches n (Release m) = (m = n)"
| "touches n (Delete m) = (m = n)"
| "touches n _ = False"

fun run_ops :: "(hz_op \<Rightarrow> 's \<Rightarrow> (hz_result \<times> 's) ctl option) \<Rightarrow> hz_op list \<Rightarrow> 's \<Rightarrow> 's ctl option" where
  "run_ops ex [] s = Some (Ret s)"
| "run_ops ex (op # ops) s = (case ex op s of
       None \<Rightarrow> None | Some (Stop e) \<Rightarrow> Some (Stop e) | Some (Ret (r, s')) \<Rightarrow> run_ops ex ops s')"

fun legal :: "(hz_op \<Rightarrow> 's \<Rightarrow> (hz_result \<times> 's) ctl option) \<Rightarrow> (hz_op \<Rightarrow> 's \<Rightarrow> bool) \<Rightarrow> hz_op list \<Rightarrow> 's \<Rightarrow> bool" where
  "legal ex ok [] s = True"
| "legal ex ok (op # ops) s = (ok op s \<and> (case ex op s of Some (Ret (r, s')) \<Rightarrow> legal ex ok ops s' | _ \<Rightarrow> True))"

text \<open>A run of the abstract domain over the same operations.\<close>

fun spec_run :: "hz_op list \<Rightarrow> hz \<Rightarrow> hz \<Rightarrow> bool" where
  "spec_run [] H H' = (H' = H)"
| "spec_run (op # ops) H H' = (\<exists>r H1. hz_spec op H r H1 \<and> spec_run ops H1 H')"

definition hz_start :: "(addr \<rightharpoonup> addr) \<Rightarrow> hz" where
  "hz_start m = \<lparr>handles = Map.empty, retired = [], gone = [], vars = m\<rparr>"

text \<open>What a protected object needs: an operation that does not touch the node leaves it undeleted.\<close>

lemma spec_protects:
  assumes "hz_spec op H r H'" and "handles H n = Some v" and "v \<noteq> NULL" and "v \<notin> set (gone H)" and "\<not> touches n op"
  shows "handles H' n = Some v \<and> v \<notin> set (gone H')"
  using assms by (cases op) (auto simp: protected_def split: if_splits)

text \<open>
  The interface between clients and the implementation of a hazard pointer domain: every
  permitted operation returns and does what the abstract domain says.
\<close>

locale reclamation =
  fixes ex :: "hz_op \<Rightarrow> 's \<Rightarrow> (hz_result \<times> 's) ctl option" and ok :: "hz_op \<Rightarrow> 's \<Rightarrow> bool"
    and rel :: "hz \<Rightarrow> 's \<Rightarrow> bool" and hold :: "'s \<Rightarrow> addr \<rightharpoonup> addr" and del :: "'s \<Rightarrow> addr list"
  assumes follows: "rel H s \<Longrightarrow> ok op s \<Longrightarrow> \<exists>r s' H'. ex op s = Some (Ret (r, s')) \<and> hz_spec op H r H' \<and> rel H' s'"
    and view: "rel H s \<Longrightarrow> handles H = hold s \<and> gone H = del s"
begin

lemma ops_return:
  assumes "rel H s" and "legal ex ok ops s"
  shows "\<exists>s' H'. run_ops ex ops s = Some (Ret s') \<and> rel H' s' \<and> spec_run ops H H'"
  using assms
proof (induction ops arbitrary: s H)
  case (Cons op ops)
  from follows [OF Cons.prems(1)] Cons.prems(2) obtain r s1 H1
    where e: "ex op s = Some (Ret (r, s1))" and sp: "hz_spec op H r H1" and r1: "rel H1 s1"
    by fastforce
  from Cons.IH [OF r1] Cons.prems(2) e obtain s' H' where "run_ops ex ops s1 = Some (Ret s')" "rel H' s'" "spec_run ops H1 H'"
    by auto
  with e sp show ?case by auto
qed auto

lemma protected_survives:
  assumes "rel H s" and "legal ex ok ops s" and "run_ops ex ops s = Some (Ret s')"
    and "hold s n = Some v" and "v \<noteq> NULL" and "v \<notin> set (del s)" and "\<forall>op\<in>set ops. \<not> touches n op"
  shows "hold s' n = Some v \<and> v \<notin> set (del s')"
  using assms
proof (induction ops arbitrary: s H)
  case (Cons op ops)
  from follows [OF Cons.prems(1)] Cons.prems(2) obtain r s1 H1
    where e: "ex op s = Some (Ret (r, s1))" and sp: "hz_spec op H r H1" and r1: "rel H1 s1"
    by fastforce
  have "handles H1 n = Some v \<and> v \<notin> set (gone H1)"
    by (rule spec_protects [OF sp]) (use Cons.prems view [OF Cons.prems(1)] in auto)
  then have "hold s1 n = Some v" "v \<notin> set (del s1)" using view [OF r1] by auto
  with Cons.IH [OF r1] Cons.prems e show ?case by auto
qed auto

end

lemma in_use_null_link:
  assumes "hp_rep ns gs fs s"
  shows "in_use ns gs fs a \<longleftrightarrow> (\<exists>n. heap s a = Some n \<and> next_node n = NULL)"
proof
  assume "in_use ns gs fs a"
  then show "\<exists>n. heap s a = Some n \<and> next_node n = NULL"
    using in_use_node [OF hp_rep_lists [OF assms]] by metis
next
  assume "\<exists>n. heap s a = Some n \<and> next_node n = NULL"
  then obtain n where n: "heap s a = Some n" "next_node n = NULL" by blast
  have l: "hp_lists ns gs fs s" using assms by (rule hp_rep_lists)
  have queued: "next_node n \<noteq> NULL"
    if ch: "chain (heap s) next_node b xs (end_node s)" and m: "a \<in> set xs" and sub: "set xs \<subseteq> set ns" for b xs
  proof -
    obtain ys zs where xs: "xs = ys @ a # zs" using m by (meson split_list)
    have "next_node n = (case zs of [] \<Rightarrow> end_node s | z # _ \<Rightarrow> z)"
      using chain_next ch n(1) unfolding xs by metis
    then show ?thesis using l sub unfolding hp_lists_def xs by (cases zs) auto
  qed
  have "a \<in> insert (end_node s) (set ns)" "a \<noteq> end_node s"
    using l n unfolding hp_lists_def by (metis domI, auto)
  then have "a \<in> set ns" by simp
  moreover have "a \<notin> set gs" "a \<notin> set fs"
    using queued [of "gc_list s" gs] queued [of "free_list s" fs] n(2) l unfolding hp_lists_def by auto
  ultimately show "in_use ns gs fs a" by (simp add: in_use_def)
qed

lemma abs_held:
  assumes "hp_rep ns gs fs s"
  shows "handles (hz_abs ns gs fs s) = held s"
proof
  fix a
  show "handles (hz_abs ns gs fs s) a = held s a"
    using in_use_null_link [OF assms, of a] by (auto simp: handles_abs held_def field_of split: option.splits)
qed

lemma hz_exec_follows:
  assumes "hz_rel H s" and "client_ok op s"
  shows "\<exists>r s' H'. hz_exec op s = Some (Ret (r, s')) \<and> hz_spec op H r H' \<and> hz_rel H' s'"
proof -
  have h: "handles H = held s" "vars H = cells s"
    using assms(1) abs_held by (auto simp: hz_rel_def hz_abs_def)
  have "allowed op H \<and> fresh_new op s" using assms(2) h by (cases op) auto
  with assms(1) hz_refines show ?thesis by blast
qed

interpretation hp: reclamation hz_exec client_ok hz_rel held deleted
proof unfold_locales
  fix H s op
  assume "hz_rel H s" "client_ok op s"
  then show "\<exists>r s' H'. hz_exec op s = Some (Ret (r, s')) \<and> hz_spec op H r H' \<and> hz_rel H' s'"
    by (rule hz_exec_follows)
next
  fix H s
  assume "hz_rel H s"
  then show "handles H = held s \<and> gone H = deleted s"
    using abs_held by (auto simp: hz_rel_def hz_abs_def)
qed

section \<open>The destructor\<close>

lemmas solo_dtor_steps = solo_atom [of "HazardPointerList_dtor t" for t, OF HazardPointerList_dtor.simps(1)]
  solo_atom [of "HazardPointerList_dtor t" for t, OF HazardPointerList_dtor.simps(2)]
  solo_atom [of "HazardPointerList_dtor t" for t, OF HazardPointerList_dtor.simps(4)]
  solo_atom [of "HazardPointerList_dtor t" for t, OF HazardPointerList_dtor.simps(6)]
  solo_atom [of "HazardPointerList_dtor t" for t, OF HazardPointerList_dtor.simps(7)]
  solo_atom [of "HazardPointerList_dtor t" for t, OF HazardPointerList_dtor.simps(8)]

text \<open>One turn of the loop that releases the nodes still in use.\<close>

lemma dtor_release_turn:
  assumes rep: "hp_rep ns gs fs s" and a: "a \<in> set ns" and n: "heap s a = Some n"
  shows "\<exists>fs' s'. solo (HazardPointerList_dtor t) (DT_node a) s = solo (HazardPointerList_dtor t) (DT_node (fixed_link n)) s' \<and>
    hp_rep ns gs fs' s' \<and> ptr (heap s') a = NULL \<and> (\<forall>b. ptr (heap s) b = NULL \<longrightarrow> ptr (heap s') b = NULL) \<and>
    map_option fixed_link \<circ> heap s' = map_option fixed_link \<circ> heap s \<and>
    end_node s' = end_node s \<and> deleted s' = deleted s \<and> (\<forall>b\<in>set gs. gcp (heap s') b = gcp (heap s) b)"
proof -
  note l = hp_rep_lists [OF rep]
  have e: "a \<noteq> end_node s" using l a chain_not_end unfolding hp_lists_def by metis
  show ?thesis
  proof (cases "pointer n = NULL")
    case True
    with n e rep show ?thesis by (intro exI [of _ fs] exI [of _ s]) (simp add: solo_dtor_steps(2,3) field_of)
  next
    case False
    have u: "in_use ns gs fs a" using l a n False by (auto simp: in_use_def hp_lists_def field_of)
    note alone = node_Release_alone [OF rep u n]
    let ?s = "s\<lparr>heap := (heap s)(a \<mapsto> n\<lparr>pointer := NULL, next_node := free_list s\<rparr>), free_list := a\<rparr>"
    have "solo (HazardPointerList_dtor t) (DT_node a) s = solo (HazardPointerList_dtor t) (DT_release a RE_check) s"
      using n e False by (simp add: solo_dtor_steps(2) [of t a])
    also have "\<dots> = solo (HazardPointerList_dtor t) (DT_link a) ?s"
      using solo_via [of "HazardPointerList_dtor t" "DT_release a", OF HazardPointerList_dtor.simps(3) alone(2) [OF False]] by simp
    also have "\<dots> = solo (HazardPointerList_dtor t) (DT_node (fixed_link n)) ?s"
      by (simp add: solo_dtor_steps(3))
    finally show ?thesis
      using alone(3) n by (intro exI [of _ "a # fs"] exI [of _ ?s]) (auto simp: field_of fun_eq_iff)
  qed
qed

lemma chain_cong:
  assumes "map_option fld \<circ> h' = map_option fld \<circ> h"
  shows "chain h' fld a xs e \<longleftrightarrow> chain h fld a xs e"
proof (induction xs arbitrary: a)
  case (Cons x xs)
  have "map_option fld (h' x) = map_option fld (h x)" using assms by (metis comp_apply)
  with Cons show ?case by (cases "h x"; cases "h' x") auto
qed simp

lemma dtor_release:
  assumes "hp_rep (ps @ xs) gs fs s" and "chain (heap s) fixed_link b xs (end_node s)" and "\<forall>a\<in>set ps. ptr (heap s) a = NULL"
  shows "\<exists>fs' s'. solo (HazardPointerList_dtor t) (DT_node b) s = solo (HazardPointerList_dtor t) (DT_collect CO_test) s' \<and>
    hp_rep (ps @ xs) gs fs' s' \<and> (\<forall>a\<in>set (ps @ xs). ptr (heap s') a = NULL) \<and> deleted s' = deleted s \<and>
    (\<forall>a\<in>set gs. gcp (heap s') a = gcp (heap s) a)"
  using assms
proof (induction xs arbitrary: ps fs s b)
  case Nil
  then show ?case by (intro exI [of _ fs] exI [of _ s]) (simp add: solo_dtor_steps(2))
next
  case (Cons x xs)
  from Cons.prems(2) obtain n where n: "heap s x = Some n" "b = x" "chain (heap s) fixed_link (fixed_link n) xs (end_node s)"
    by auto
  obtain fs1 s1 where s1: "solo (HazardPointerList_dtor t) (DT_node b) s = solo (HazardPointerList_dtor t) (DT_node (fixed_link n)) s1"
    "hp_rep (ps @ x # xs) gs fs1 s1" "ptr (heap s1) x = NULL" "\<forall>b. ptr (heap s) b = NULL \<longrightarrow> ptr (heap s1) b = NULL"
    "map_option fixed_link \<circ> heap s1 = map_option fixed_link \<circ> heap s" "end_node s1 = end_node s" "deleted s1 = deleted s"
    "\<forall>b\<in>set gs. gcp (heap s1) b = gcp (heap s) b"
    using dtor_release_turn [OF Cons.prems(1) _ n(1), of t] n(2) by auto
  have "chain (heap s1) fixed_link (fixed_link n) xs (end_node s1)"
    using n(3) chain_cong [OF s1(5)] s1(6) by simp
  moreover have "\<forall>a\<in>set (ps @ [x]). ptr (heap s1) a = NULL" using Cons.prems(3) s1(3,4) by simp
  ultimately show ?case using Cons.IH [of "ps @ [x]" fs1 s1 "fixed_link n"] s1 by auto
qed

text \<open>The loop that deletes the nodes.\<close>

lemma chain_forget: "a \<notin> set xs \<Longrightarrow> chain (h(a := None)) fld b xs e \<longleftrightarrow> chain h fld b xs e"
  by (induction xs arbitrary: b) auto

lemma dtor_delete:
  assumes "chain (heap s) fixed_link b xs (end_node s)" and "distinct xs"
  shows "\<exists>s'. solo (HazardPointerList_dtor t) (DT_delete b) s = Some (Ret ((), s')) \<and>
    heap s' = heap s |` (- insert (end_node s) (set xs)) \<and> deleted s' = deleted s"
  using assms
proof (induction xs arbitrary: b s)
  case Nil
  then show ?case by (auto simp: solo_dtor_steps(5,6) restrict_map_def fun_eq_iff)
next
  case (Cons x xs)
  then obtain n where n: "heap s x = Some n" "b = x" "x \<noteq> end_node s" "chain (heap s) fixed_link (fixed_link n) xs (end_node s)"
    by auto
  let ?s = "s\<lparr>heap := (heap s)(x := None)\<rparr>"
  have "chain (heap ?s) fixed_link (fixed_link n) xs (end_node ?s)"
    using n(4) Cons.prems(2) by (simp add: chain_forget)
  from Cons.IH [OF this] Cons.prems(2) obtain s' where "solo (HazardPointerList_dtor t) (DT_delete (fixed_link n)) ?s = Some (Ret ((), s'))"
    "heap s' = heap ?s |` (- insert (end_node ?s) (set xs))" "deleted s' = deleted ?s"
    unfolding distinct.simps by blast
  then show ?case using n by (auto simp: solo_dtor_steps(5) [of t x] restrict_map_def fun_eq_iff)
qed

lemma solo_dtor:
  assumes rep: "hp_rep ns gs fs s"
  shows "\<exists>s'. solo (HazardPointerList_dtor t) DT_deregister s = Some (Ret ((), s')) \<and> heap s' = Map.empty \<and>
    deleted s' = deleted s @ map (gcp (heap s)) gs"
proof -
  have ch: "chain (heap s) fixed_link (nodes s) ns (end_node s)" using rep by (simp add: hp_rep_def hp_lists_def)
  obtain fs1 s1 where s1: "solo (HazardPointerList_dtor t) (DT_node (nodes s)) s = solo (HazardPointerList_dtor t) (DT_collect CO_test) s1"
    "hp_rep ns gs fs1 s1" "\<forall>a\<in>set ns. ptr (heap s1) a = NULL" "deleted s1 = deleted s" "\<forall>a\<in>set gs. gcp (heap s1) a = gcp (heap s) a"
    using dtor_release [of "[]" ns gs fs s "nodes s" t] rep ch by auto
  have d: "kept ns gs s1 = []" "dead ns gs s1 = gs" using s1(2,3)
    by (auto simp: kept_def dead_def hazards_def filter_empty_conv intro!: filter_True)
  obtain s2 where s2: "solo (Collect_hp t) CO_test s1 = Some (Ret (gs \<noteq> [] \<and> kept ns gs s1 = [], s2))"
    "hp_rep ns [] (rev gs @ fs1) s2" "deleted s2 = deleted s1 @ map (gcp (heap s1)) gs"
    using solo_Collect [OF s1(2), of t] unfolding d by blast
  let ?s = "s2\<lparr>gc_list := end_node s2, free_list := end_node s2, nodes := end_node s2\<rparr>"
  have "solo (HazardPointerList_dtor t) DT_deregister s = solo (HazardPointerList_dtor t) (DT_collect CO_test) s1"
    using s1(1) by (simp add: solo_dtor_steps(1))
  also have "\<dots> = solo (HazardPointerList_dtor t) (DT_delete (nodes s2)) ?s"
    using solo_via [of "HazardPointerList_dtor t" DT_collect, OF HazardPointerList_dtor.simps(5) s2(1)]
    by (simp add: solo_dtor_steps(4))
  finally have run: "solo (HazardPointerList_dtor t) DT_deregister s = solo (HazardPointerList_dtor t) (DT_delete (nodes s2)) ?s" .
  have l2: "chain (heap s2) fixed_link (nodes s2) ns (end_node s2)" "distinct ns" "dom (heap s2) = insert (end_node s2) (set ns)"
    using s2(2) by (simp_all add: hp_rep_def hp_lists_def)
  obtain s3 where "solo (HazardPointerList_dtor t) (DT_delete (nodes s2)) ?s = Some (Ret ((), s3))"
    "heap s3 = heap s2 |` (- insert (end_node s2) (set ns))" "deleted s3 = deleted s2"
    using dtor_delete [of ?s "nodes s2" ns t] l2 by auto
  moreover have "heap s2 |` (- dom (heap s2)) = Map.empty" by (auto simp: restrict_map_def fun_eq_iff)
  ultimately show ?thesis using run s2(3) s1(4,5) l2(3) by (simp cong: map_cong)
qed

section \<open>Prime\<close>

text \<open>One turn of the loop of \<open>Prime\<close>: the new node is on the complete list and at the front of the free list.\<close>

lemma prime_turn:
  assumes rep: "hp_rep ns gs fs s" and a: "heap s a = None" "a \<noteq> NULL"
  obtains s' where "solo Prime (PR_new ((a, j) # as)) s = solo Prime (PR_new as) s'"
    "hp_rep (a # ns) gs (a # fs) s'"
    "\<forall>b. b \<noteq> a \<longrightarrow> heap s' b = heap s b" "deleted s' = deleted s" "cells s' = cells s"
proof -
  note l = hp_rep_lists [OF rep]
  let ?n = "(HazardPointerNode_ctor j)\<lparr>fixed_link := nodes s\<rparr>"
  let ?s1 = "s\<lparr>heap := (heap s)(a \<mapsto> ?n), nodes := a\<rparr>"
  let ?s2 = "?s1\<lparr>heap := (heap s)(a \<mapsto> ?n\<lparr>next_node := free_list s\<rparr>), free_list := a\<rparr>"
  have "solo Prime (PR_new ((a, j) # as)) s = solo Prime (PR_add a as AD_read) (new_node a j s)"
    by (simp add: solo_atom [of Prime, OF Prime.simps(2)])
  also have "\<dots> = solo Prime (PR_push a as PU_check) ?s1"
    using solo_via [of Prime "PR_add a as", OF Prime.simps(3) solo_Add [of "new_node a j s" a]] by (simp add: new_node_def)
  also have "\<dots> = solo Prime (PR_new as) ?s2"
    using solo_via [of Prime "PR_push a as", OF Prime.simps(4) solo_push [of ?s1 a ?n Free]]
    by (simp add: HazardPointerNode_ctor_def)
  finally have run: "solo Prime (PR_new ((a, j) # as)) s = solo Prime (PR_new as) ?s2" .
  have "hp_lists (a # ns) gs (a # fs) ?s2"
    using hp_lists_free [OF hp_lists_new(1) [OF l a] hp_lists_new(2) [OF l a], where n = ?n] by (simp add: HazardPointerNode_ctor_def)
  then have "hp_rep (a # ns) gs (a # fs) ?s2" by (intro hp_repI [OF rep]) simp_all
  with run show ?thesis by (intro that [of ?s2]) simp_all
qed

lemma solo_Prime:
  assumes "hp_rep ns gs fs s" and "distinct (map fst as)" and "\<forall>a\<in>set (map fst as). heap s a = None \<and> a \<noteq> NULL"
  shows "\<exists>s'. solo Prime (PR_new as) s = Some (Ret ((), s')) \<and>
    hp_rep (rev (map fst as) @ ns) gs (rev (map fst as) @ fs) s' \<and>
    (\<forall>b. b \<notin> set (map fst as) \<longrightarrow> heap s' b = heap s b) \<and> deleted s' = deleted s \<and> cells s' = cells s"
  using assms
proof (induction as arbitrary: ns fs s)
  case Nil
  then show ?case by (simp add: solo_atom [of Prime, OF Prime.simps(1)])
next
  case (Cons p as)
  obtain a j where p: "p = (a, j)" by (cases p)
  have h: "heap s a = None" "a \<noteq> NULL" using Cons.prems(3) p by auto
  obtain s1 where s1: "solo Prime (PR_new ((a, j) # as)) s = solo Prime (PR_new as) s1"
    "hp_rep (a # ns) gs (a # fs) s1" "\<forall>b. b \<noteq> a \<longrightarrow> heap s1 b = heap s b" "deleted s1 = deleted s" "cells s1 = cells s"
    by (rule prime_turn [OF Cons.prems(1) h])
  have f: "\<forall>b\<in>set (map fst as). heap s1 b = None \<and> b \<noteq> NULL" and d: "distinct (map fst as)" "a \<notin> set (map fst as)"
  proof -
    show d: "distinct (map fst as)" "a \<notin> set (map fst as)" using Cons.prems(2) p by simp_all
    show "\<forall>b\<in>set (map fst as). heap s1 b = None \<and> b \<noteq> NULL"
    proof
      fix b
      assume b: "b \<in> set (map fst as)"
      then have "b \<noteq> a" using d(2) by blast
      then have "heap s1 b = heap s b" using s1(3) by blast
      then show "heap s1 b = None \<and> b \<noteq> NULL" using Cons.prems(3) b by auto
    qed
  qed
  obtain s' where s': "solo Prime (PR_new as) s1 = Some (Ret ((), s'))"
    "hp_rep (rev (map fst as) @ a # ns) gs (rev (map fst as) @ a # fs) s'"
    "\<forall>b. b \<notin> set (map fst as) \<longrightarrow> heap s' b = heap s1 b" "deleted s' = deleted s1" "cells s' = cells s1"
    using Cons.IH [OF s1(2) d(1) f] by blast
  have "\<forall>b. b \<notin> set (map fst (p # as)) \<longrightarrow> heap s' b = heap s b"
    using s'(3) s1(3) unfolding p by (metis fst_conv list.set_intros(1,2) list.simps(9))
  then show ?case
    using s' s1 unfolding p by (intro exI [of _ s'] conjI) simp_all
qed

section \<open>Properties\<close>

lemma hp_rep_ctor:
  assumes "a \<noteq> NULL"
  shows "hp_rep [] [] [] (HazardPointerList_ctor a m)"
  using assms by (simp add: hp_rep_def hp_lists_def HazardPointerList_ctor_def init_def HazardPointerNode_ctor_def)

lemma hz_rel_ctor: "a \<noteq> NULL \<Longrightarrow> hz_rel (hz_start m) (HazardPointerList_ctor a m)"
  unfolding hz_rel_def
  by (intro exI [of _ "[]"] conjI hp_rep_ctor)
    (simp_all add: hz_abs_def hz_start_def in_use_def HazardPointerList_ctor_def init_def)

text \<open>Example states: two nodes that protect object 77, and one protected and one unprotected retired object.\<close>

definition after_run :: "hz_op list \<Rightarrow> hp_list \<Rightarrow> hp_list" where
  "after_run ops s = (case run_ops hz_exec ops s of Some (Ret s') \<Rightarrow> s' | _ \<Rightarrow> s)"

definition returns :: "hz_op list \<Rightarrow> hp_list \<Rightarrow> bool" where
  "returns ops s = (case run_ops hz_exec ops s of Some (Ret s') \<Rightarrow> True | _ \<Rightarrow> False)"

lemma run_after: "returns ops s \<Longrightarrow> run_ops hz_exec ops s = Some (Ret (after_run ops s))"
  by (simp add: returns_def after_run_def split: option.splits ctl.splits)

definition shared_object :: hp_list where
  "shared_object = after_run [New 2 0, Acquire 2 10, New 3 0, Acquire 3 10] (HazardPointerList_ctor 1 [10 \<mapsto> 77])"

definition two_retired :: hp_list where
  "two_retired = \<lparr>heap = [1 \<mapsto> \<lparr>pointer = 0, gc_pointer = 0, fixed_link = 1, next_node = 1\<rparr>,
       2 \<mapsto> \<lparr>pointer = 77, gc_pointer = 0, fixed_link = 1, next_node = 0\<rparr>,
       3 \<mapsto> \<lparr>pointer = 0, gc_pointer = 77, fixed_link = 2, next_node = 1\<rparr>,
       4 \<mapsto> \<lparr>pointer = 0, gc_pointer = 88, fixed_link = 3, next_node = 3\<rparr>],
     end_node = 1, nodes = 4, gc_list = 4, free_list = 1, all_haz_ptrs = [], collector_client_lock = None,
     collector_thread = False, signals = 0, cells = [10 \<mapsto> 77], deleted = []\<rparr>"

lemma two_retired_rep: "hp_rep [4, 3, 2] [4, 3] [] two_retired"
  by (auto simp: hp_rep_def hp_lists_def two_retired_def ptr_def gcp_def nxt_def)

text \<open>
  Refinement and absence of faults. From a newly constructed list, every sequence of calls in
  which a client uses only nodes it holds and cells that exist, and \<^verbatim>\<open>new\<close> returns unused
  addresses, runs to its end: no assertion fails, no freed or null node is accessed, no loop fails to
  end. The state it reaches represents a state that the abstract domain reaches by the same calls.
\<close>

theorem hp_refines_domain:
  assumes "a \<noteq> NULL" and "legal hz_exec client_ok ops (HazardPointerList_ctor a m)"
  shows "\<exists>s H. run_ops hz_exec ops (HazardPointerList_ctor a m) = Some (Ret s) \<and> hz_rel H s \<and> spec_run ops (hz_start m) H"
  using hp.ops_return [OF hz_rel_ctor [OF assms(1)] assms(2)] .

theorem hp_refines_domain_witness:
  "\<exists>s H. run_ops hz_exec [New 2 0, Acquire 2 10, New 3 0, Acquire 3 10, Delete 3, Collect_op 0, Clear 2, Collect_op 0]
      (HazardPointerList_ctor 1 [10 \<mapsto> 77]) = Some (Ret s) \<and> hz_rel H s \<and>
    spec_run [New 2 0, Acquire 2 10, New 3 0, Acquire 3 10, Delete 3, Collect_op 0, Clear 2, Collect_op 0] (hz_start [10 \<mapsto> 77]) H"
  by (rule hp_refines_domain) code_simp+

text \<open>
  C11: Safety of reclamation. Whatever the clients did before: an object that a node protects
  and that is not deleted yet stays protected and is not deleted by any further permitted calls, on
  other nodes or of \<^verbatim>\<open>Collect\<close>, retiring the same object included, until a call on
  that node itself.
\<close>

theorem hp_protected_not_deleted:
  assumes "a \<noteq> NULL" and "legal hz_exec client_ok before (HazardPointerList_ctor a m)"
    and "run_ops hz_exec before (HazardPointerList_ctor a m) = Some (Ret s)"
    and "legal hz_exec client_ok ops s" and "run_ops hz_exec ops s = Some (Ret s')"
    and "held s n = Some v" and "v \<noteq> NULL" and "v \<notin> set (deleted s)" and "\<forall>op\<in>set ops. \<not> touches n op"
  shows "held s' n = Some v \<and> v \<notin> set (deleted s')"
proof -
  from hp.ops_return [OF hz_rel_ctor [OF assms(1)] assms(2)] assms(3) obtain H where "hz_rel H s" by auto
  from hp.protected_survives [OF this assms(4-9)] show ?thesis .
qed

theorem hp_protected_not_deleted_witness:
  "held (after_run [Delete 3, Collect_op 0, New 4 0, Acquire 4 10, Delete 4, Collect_op 1] shared_object) 2 = Some 77 \<and>
   77 \<notin> set (deleted (after_run [Delete 3, Collect_op 0, New 4 0, Acquire 4 10, Delete 4, Collect_op 1] shared_object))"
  by (rule hp_protected_not_deleted [where a = 1 and before = "[New 2 0, Acquire 2 10, New 3 0, Acquire 3 10]"
        and m = "[10 \<mapsto> 77]" and s = shared_object
        and ops = "[Delete 3, Collect_op 0, New 4 0, Acquire 4 10, Delete 4, Collect_op 1]"])
    (simp, code_simp, unfold shared_object_def, rule run_after, code_simp, code_simp, rule run_after, code_simp+)

text \<open>
  C12: \<^verbatim>\<open>Collect\<close>, run alone on a well-formed list, returns; it deletes the objects of
  the gc list that no node of the complete list protects, in the order of the gc list and no
  others, moves their nodes to the free list, leaves the other nodes on the gc list in their order,
  and returns true exactly if the gc list was not empty and is empty now: called on an empty gc list it
  returns false, although nothing is left (its comment says true then).
\<close>

theorem hp_Collect:
  assumes "hp_rep ns gs fs s"
  shows "\<exists>s'. solo (Collect_hp me) CO_test s = Some (Ret (gs \<noteq> [] \<and> kept ns gs s = [], s')) \<and>
    hp_rep ns (kept ns gs s) (rev (dead ns gs s) @ fs) s' \<and>
    deleted s' = deleted s @ map (gcp (heap s)) (dead ns gs s) \<and>
    map (gcp (heap s')) (kept ns gs s) = map (gcp (heap s)) (kept ns gs s) \<and> ptr (heap s') = ptr (heap s)"
proof -
  obtain s' where s': "solo (Collect_hp me) CO_test s = Some (Ret (gs \<noteq> [] \<and> kept ns gs s = [], s'))"
    "hp_rep ns (kept ns gs s) (rev (dead ns gs s) @ fs) s'" "same_frame s s'"
    "deleted s' = deleted s @ map (gcp (heap s)) (dead ns gs s)"
    "\<forall>b\<in>set (kept ns gs s). gcp (heap s') b = gcp (heap s) b"
    using solo_Collect [OF assms] by blast
  then show ?thesis by (intro exI [of _ s']) (simp add: same_frame_def)
qed

theorem hp_Collect_witness:
  "\<exists>s'. solo (Collect_hp 0) CO_test two_retired = Some (Ret (False, s')) \<and> hp_rep [4, 3, 2] [3] [4] s' \<and> deleted s' = [88]"
proof -
  have "kept [4, 3, 2] [4, 3] two_retired = [3]" "dead [4, 3, 2] [4, 3] two_retired = [4]"
    "gcp (heap two_retired) 4 = 88" "deleted two_retired = []"
    by (simp_all add: kept_def dead_def hazards_def two_retired_def ptr_def gcp_def)
  with hp_Collect [OF two_retired_rep, of 0] show ?thesis by auto
qed

text \<open>
  C27: The destructor, on a well-formed list, returns after it has deleted every retired object,
  protected or not, and no other, in the order of the gc list, and every node including the end
  node.
\<close>

theorem hp_destructor:
  assumes "hp_rep ns gs fs s"
  shows "\<exists>s'. solo (HazardPointerList_dtor me) DT_deregister s = Some (Ret ((), s')) \<and> heap s' = Map.empty \<and>
    deleted s' = deleted s @ map (gcp (heap s)) gs"
  by (rule solo_dtor [OF assms])

theorem hp_destructor_witness:
  "\<exists>s'. solo (HazardPointerList_dtor 0) DT_deregister two_retired = Some (Ret ((), s')) \<and> heap s' = Map.empty \<and> deleted s' = [88, 77]"
  using hp_destructor [OF two_retired_rep, of 0] by (simp add: two_retired_def gcp_def)

text \<open>
  \<^verbatim>\<open>Prime\<close> returns with all the new nodes on the complete list and on the free
  list; no other node and no list of retired nodes changes.
\<close>

theorem hp_Prime:
  assumes "hp_rep ns gs fs s" and "distinct (map fst as)" and "\<forall>a\<in>set (map fst as). heap s a = None \<and> a \<noteq> NULL"
  shows "\<exists>s'. solo Prime (PR_new as) s = Some (Ret ((), s')) \<and>
    hp_rep (rev (map fst as) @ ns) gs (rev (map fst as) @ fs) s' \<and>
    (\<forall>b. b \<notin> set (map fst as) \<longrightarrow> heap s' b = heap s b) \<and> deleted s' = deleted s \<and> cells s' = cells s"
  by (rule solo_Prime [OF assms])

theorem hp_Prime_witness:
  "\<exists>s'. solo Prime (PR_new [(5, 0), (6, 9)]) two_retired = Some (Ret ((), s')) \<and> hp_rep [6, 5, 4, 3, 2] [4, 3] [6, 5] s'"
  using hp_Prime [OF two_retired_rep, of "[(5, 0), (6, 9)]"] by (auto simp: two_retired_def)

end
