(* ===== verification/Hazard_Pointer.thy ===== *)
theory Hazard_Pointer
  imports Hazard_Safety
begin

text \<open>
  The class \<^verbatim>\<open>HazardPointer\<close> (\<^verbatim>\<open>src/src/HazardPointer.hpp\<close>), the handle that clients
  use. An instance is its one member \<^verbatim>\<open>hp_node\<close>; its functions run on the list object.
  A program with any number of instances follows an abstract domain in which an instance is
  unbound or protects at most one object. The move constructor, \<^verbatim>\<open>Recycle\<close> and the
  release of an instance that protects nothing do not do what their comments say; the last section
  shows what they do.
\<close>

section \<open>The member functions\<close>

definition andthen :: "('a \<times> hp_list) ctl option \<Rightarrow> ('a \<Rightarrow> 'b ctl) \<Rightarrow> ('b \<times> hp_list) ctl option" where
  "andthen c k = map_option (\<lambda>x. bnd x (\<lambda>(r, s). bnd (k r) (\<lambda>r'. Ret (r', s)))) c"

text \<open>Each function returns the new value of \<^verbatim>\<open>hp_node\<close> where it changes it.\<close>

definition HazardPointer_ctor :: "addr \<Rightarrow> addr \<Rightarrow> hp_list \<Rightarrow> (addr \<times> hp_list) ctl option" where
  "HazardPointer_ctor a junk hplist = solo (AcquireNode a junk) (AN_pop PO_head) hplist"

text \<open>
  The move constructor, with the uninitialised value of the new instance's \<^verbatim>\<open>hp_node\<close>; the
  new values of the \<^verbatim>\<open>hp_node\<close> of the new instance and of \<^verbatim>\<open>other\<close>.
\<close>

definition HazardPointer_move :: "addr \<Rightarrow> addr \<Rightarrow> addr \<times> addr" where
  "HazardPointer_move uninit other = (let other_hp_node = uninit; hp_node = NULL in (hp_node, other_hp_node))"

definition HazardPointer_Release :: "addr \<Rightarrow> hp_list \<Rightarrow> (addr \<times> hp_list) ctl option" where
  "HazardPointer_Release hp_node s =
     (if NULL \<noteq> hp_node then andthen (solo (node_Release hp_node) RE_check s) (\<lambda>_. Ret NULL)
      else Some (Ret (NULL, s)))"

definition HazardPointer_dtor :: "addr \<Rightarrow> hp_list \<Rightarrow> (addr \<times> hp_list) ctl option" where
  "HazardPointer_dtor hp_node s = HazardPointer_Release hp_node s"

definition HazardPointer_Delete :: "addr \<Rightarrow> hp_list \<Rightarrow> (addr \<times> hp_list) ctl option" where
  "HazardPointer_Delete hp_node s =
     (if NULL \<noteq> hp_node then andthen (solo (node_Delete hp_node) DE_check s) (\<lambda>_. Ret NULL)
      else Some (Ret (NULL, s)))"

definition HazardPointer_Acquire :: "addr \<Rightarrow> addr \<Rightarrow> hp_list \<Rightarrow> (bool \<times> hp_list) ctl option" where
  "HazardPointer_Acquire hp_node ptrptr s =
     (if NULL = hp_node then Some (Ret (False, s))
      else andthen (solo (node_Acquire hp_node ptrptr) AC_check s) (\<lambda>_. Ret True))"

text \<open>
  \<^verbatim>\<open>Recycle\<close>: the result and the new \<^verbatim>\<open>hp_node\<close>. The second branch reaches the end of
  a function with a result without a \<^verbatim>\<open>return\<close>.
\<close>

definition HazardPointer_Recycle :: "addr \<Rightarrow> addr \<Rightarrow> addr \<Rightarrow> hp_list \<Rightarrow> ((bool \<times> addr) \<times> hp_list) ctl option" where
  "HazardPointer_Recycle hp_node a junk s =
     (if NULL \<noteq> hp_node then andthen (solo (node_Acquire hp_node NULL) AC_check s) (\<lambda>_. Ret (True, hp_node))
      else andthen (solo (AcquireNode a junk) (AN_pop PO_head) s) (\<lambda>_. Stop (Undefined ''no return'')))"

definition HazardPointer_get :: "addr \<Rightarrow> hp_list \<Rightarrow> addr ctl" where
  "HazardPointer_get hp_node s = (if hp_node \<noteq> NULL then get_pointer hp_node s else Ret NULL)"

section \<open>Programs with several instances\<close>

record hp_program =
  insts :: "nat \<rightharpoonup> addr"    \<comment> \<open>the instances in scope and their \<^verbatim>\<open>hp_node\<close>\<close>
  the_list :: hp_list

datatype obj_op =
    Construct nat addr addr
  | Destroy nat
  | Obj_Acquire nat addr
  | Obj_Release nat
  | Obj_Delete nat
  | Obj_Get nat
  | Obj_Collect tid
  | Obj_Write addr addr

datatype obj_result = Is bool | Object addr | Void

definition on_list :: "('a \<times> hp_list) ctl option \<Rightarrow> hp_program \<Rightarrow> ('a \<Rightarrow> hp_program \<Rightarrow> obj_result \<times> hp_program)
    \<Rightarrow> (obj_result \<times> hp_program) ctl option" where
  "on_list c p k = map_option (\<lambda>x. bnd x (\<lambda>(r, s). Ret (k r (p\<lparr>the_list := s\<rparr>)))) c"

definition set_inst :: "nat \<Rightarrow> addr \<Rightarrow> hp_program \<Rightarrow> hp_program" where
  "set_inst i n p = p\<lparr>insts := (insts p)(i \<mapsto> n)\<rparr>"

fun obj_exec :: "obj_op \<Rightarrow> hp_program \<Rightarrow> (obj_result \<times> hp_program) ctl option" where
  "obj_exec (Construct i a j) p = on_list (HazardPointer_ctor a j (the_list p)) p (\<lambda>n p. (Void, set_inst i n p))"
| "obj_exec (Destroy i) p = on_list (HazardPointer_dtor (the (insts p i)) (the_list p)) p
     (\<lambda>_ p. (Void, p\<lparr>insts := (insts p)(i := None)\<rparr>))"
| "obj_exec (Obj_Acquire i c) p = on_list (HazardPointer_Acquire (the (insts p i)) c (the_list p)) p (\<lambda>b p. (Is b, p))"
| "obj_exec (Obj_Release i) p = on_list (HazardPointer_Release (the (insts p i)) (the_list p)) p (\<lambda>n p. (Void, set_inst i n p))"
| "obj_exec (Obj_Delete i) p = on_list (HazardPointer_Delete (the (insts p i)) (the_list p)) p (\<lambda>n p. (Void, set_inst i n p))"
| "obj_exec (Obj_Get i) p = Some (bnd (HazardPointer_get (the (insts p i)) (the_list p)) (\<lambda>v. Ret (Object v, p)))"
| "obj_exec (Obj_Collect t) p = on_list (solo (Collect_hp t) CO_test (the_list p)) p (\<lambda>b p. (Is b, p))"
| "obj_exec (Obj_Write c v) p = Some (Ret (Void, p\<lparr>the_list := (the_list p)\<lparr>cells := (cells (the_list p))(c \<mapsto> v)\<rparr>\<rparr>))"

text \<open>What the program has to see to: instances in scope, existing cells, unused addresses from \<^verbatim>\<open>new\<close>.\<close>

fun obj_ok :: "obj_op \<Rightarrow> hp_program \<Rightarrow> bool" where
  "obj_ok (Construct i a j) p = (insts p i = None \<and> heap (the_list p) a = None \<and> a \<noteq> NULL)"
| "obj_ok (Destroy i) p = (insts p i \<noteq> None)"
| "obj_ok (Obj_Acquire i c) p = (insts p i \<noteq> None \<and> cells (the_list p) c \<noteq> None)"
| "obj_ok (Obj_Release i) p = (insts p i \<noteq> None)"
| "obj_ok (Obj_Delete i) p = (insts p i \<noteq> None)"
| "obj_ok (Obj_Get i) p = (insts p i \<noteq> None)"
| "obj_ok (Obj_Collect t) p = True"
| "obj_ok (Obj_Write c v) p = (cells (the_list p) c \<noteq> None)"

fun obj_run :: "obj_op list \<Rightarrow> hp_program \<Rightarrow> (obj_result list \<times> hp_program) ctl option" where
  "obj_run [] p = Some (Ret ([], p))"
| "obj_run (op # ops) p = (case obj_exec op p of
       None \<Rightarrow> None | Some (Stop e) \<Rightarrow> Some (Stop e)
     | Some (Ret (r, p')) \<Rightarrow> map_option (\<lambda>x. bnd x (\<lambda>(rs, q). Ret (r # rs, q))) (obj_run ops p'))"

fun obj_legal :: "obj_op list \<Rightarrow> hp_program \<Rightarrow> bool" where
  "obj_legal [] p = True"
| "obj_legal (op # ops) p = (obj_ok op p \<and> (case obj_exec op p of Some (Ret (r, p')) \<Rightarrow> obj_legal ops p' | _ \<Rightarrow> True))"

section \<open>The abstract domain of instances\<close>

record obj_domain =
  objs :: "nat \<rightharpoonup> addr option"   \<comment> \<open>instances: unbound, or the object (or null) it protects\<close>
  obj_retired :: "addr list"
  obj_gone :: "addr list"
  obj_vars :: "addr \<rightharpoonup> addr"

definition obj_protected :: "obj_domain \<Rightarrow> addr set" where
  "obj_protected D = {v. v \<noteq> NULL \<and> (\<exists>i. objs D i = Some (Some v))}"

definition bind_obj :: "nat \<Rightarrow> addr option \<Rightarrow> obj_domain \<Rightarrow> obj_domain" where
  "bind_obj i b D = D\<lparr>objs := (objs D)(i \<mapsto> b)\<rparr>"

definition is_prot :: "obj_domain \<Rightarrow> addr \<Rightarrow> bool" where
  "is_prot D v \<longleftrightarrow> v \<in> obj_protected D"

fun obj_spec :: "obj_op \<Rightarrow> obj_domain \<Rightarrow> obj_result \<times> obj_domain" where
  "obj_spec (Construct i a j) D = (Void, bind_obj i (Some NULL) D)"
| "obj_spec (Destroy i) D = (Void, D\<lparr>objs := (objs D)(i := None)\<rparr>)"
| "obj_spec (Obj_Acquire i c) D =
     (if objs D i = Some None then (Is False, D) else (Is True, bind_obj i (obj_vars D c) D))"
| "obj_spec (Obj_Release i) D = (Void, bind_obj i None D)"
| "obj_spec (Obj_Delete i) D = (Void, bind_obj i None (case objs D i of
       Some (Some v) \<Rightarrow> if v = NULL then D else D\<lparr>obj_retired := v # obj_retired D\<rparr> | _ \<Rightarrow> D))"
| "obj_spec (Obj_Get i) D = (Object (case objs D i of Some (Some v) \<Rightarrow> v | _ \<Rightarrow> NULL), D)"
| "obj_spec (Obj_Collect t) D =
     (Is (obj_retired D \<noteq> [] \<and> filter (is_prot D) (obj_retired D) = []),
      D\<lparr>obj_retired := filter (is_prot D) (obj_retired D),
        obj_gone := obj_gone D @ filter (\<lambda>v. \<not> is_prot D v) (obj_retired D)\<rparr>)"
| "obj_spec (Obj_Write c v) D = (Void, D\<lparr>obj_vars := (obj_vars D)(c \<mapsto> v)\<rparr>)"

fun obj_spec_run :: "obj_op list \<Rightarrow> obj_domain \<Rightarrow> obj_result list \<times> obj_domain" where
  "obj_spec_run [] D = ([], D)"
| "obj_spec_run (op # ops) D = (let (r, D1) = obj_spec op D; (rs, D2) = obj_spec_run ops D1 in (r # rs, D2))"

section \<open>Refinement\<close>

text \<open>How the instances of a program show in the domain of nodes \<open>H\<close>.\<close>

definition inst_rel :: "obj_domain \<Rightarrow> (nat \<rightharpoonup> addr) \<Rightarrow> hz \<Rightarrow> bool" where
  "inst_rel D I H \<longleftrightarrow>
     (\<forall>i. objs D i = map_option (\<lambda>n. if n = NULL then None else handles H n) (I i)) \<and>
     (\<forall>i n. I i = Some n \<longrightarrow> n \<noteq> NULL \<longrightarrow> n \<in> dom (handles H)) \<and>
     (\<forall>i j n. I i = Some n \<longrightarrow> I j = Some n \<longrightarrow> n \<noteq> NULL \<longrightarrow> i = j) \<and>
     (\<forall>n v. handles H n = Some v \<longrightarrow> v \<noteq> NULL \<longrightarrow> n \<noteq> NULL \<and> (\<exists>i. I i = Some n)) \<and>
     obj_retired D = retired H \<and> obj_gone D = gone H \<and> obj_vars D = vars H"

definition obj_rel :: "obj_domain \<Rightarrow> hp_program \<Rightarrow> bool" where
  "obj_rel D p \<longleftrightarrow> (\<exists>H. hz_rel H (the_list p) \<and> inst_rel D (insts p) H)"

lemma finish_RetD: "finish f c = Some (Ret (r, s)) \<Longrightarrow> \<exists>x. c = Some (Ret (x, s)) \<and> r = f x"
  by (auto simp: finish_def elim: bnd.elims)

lemma andthen_Ret [simp]: "andthen (Some (Ret (x, s))) k = Some (bnd (k x) (\<lambda>r. Ret (r, s)))"
  by (simp add: andthen_def)

lemma on_list_Ret [simp]: "on_list (Some (Ret (x, s))) p k = Some (Ret (k x (p\<lparr>the_list := s\<rparr>)))"
  by (simp add: on_list_def)

lemma program_upd [simp]:
  "p\<lparr>the_list := s, insts := I\<rparr> = \<lparr>insts = I, the_list = s\<rparr>" "p\<lparr>the_list := s\<rparr> = \<lparr>insts = insts p, the_list = s\<rparr>"
  for p :: hp_program
  by simp_all

lemma inst_relD:
  assumes "inst_rel D I H"
  shows "objs D i = map_option (\<lambda>n. if n = NULL then None else handles H n) (I i)"
    and "I i = Some n \<Longrightarrow> n \<noteq> NULL \<Longrightarrow> \<exists>v. handles H n = Some v"
    and "I i = Some n \<Longrightarrow> I j = Some n \<Longrightarrow> n \<noteq> NULL \<Longrightarrow> i = j"
    and "handles H n = Some v \<Longrightarrow> v \<noteq> NULL \<Longrightarrow> n \<noteq> NULL \<and> (\<exists>i. I i = Some n)"
    and "obj_retired D = retired H" and "obj_gone D = gone H" and "obj_vars D = vars H"
  using assms unfolding inst_rel_def dom_def by blast+

lemma inst_protected:
  assumes i: "inst_rel D I H"
  shows "obj_protected D = protected H"
proof -
  have "(\<exists>i. objs D i = Some (Some v)) \<longleftrightarrow> (\<exists>n. handles H n = Some v)" if v: "v \<noteq> NULL" for v
  proof
    assume "\<exists>i. objs D i = Some (Some v)"
    then show "\<exists>n. handles H n = Some v" by (auto simp: inst_relD(1) [OF i] split: if_splits)
  next
    assume "\<exists>n. handles H n = Some v"
    then obtain n k where "handles H n = Some v" "n \<noteq> NULL" "I k = Some n" using inst_relD(4) [OF i _ v] by blast
    then have "objs D k = Some (Some v)" by (simp add: inst_relD(1) [OF i])
    then show "\<exists>i. objs D i = Some (Some v)" ..
  qed
  then show ?thesis by (auto simp: obj_protected_def protected_def)
qed

text \<open>A change of one instance and of the nodes that no other instance holds.\<close>

lemma inst_rel_rebind:
  assumes i: "inst_rel D I H"
    and new: "\<And>n. b = Some n \<Longrightarrow> n \<noteq> NULL \<Longrightarrow> n \<in> dom (handles H') \<and> (\<forall>k. k \<noteq> i \<longrightarrow> I k \<noteq> Some n)"
    and same: "\<And>k n. k \<noteq> i \<Longrightarrow> I k = Some n \<Longrightarrow> n \<noteq> NULL \<Longrightarrow> handles H' n = handles H n"
    and own: "\<And>m v. handles H' m = Some v \<Longrightarrow> v \<noteq> NULL \<Longrightarrow> m \<noteq> NULL \<and> (b = Some m \<or> (\<exists>k. k \<noteq> i \<and> I k = Some m))"
    and g: "gone H' = gone H" "vars H' = vars H"
    and D': "objs D' = (objs D)(i := map_option (\<lambda>n. if n = NULL then None else handles H' n) b)"
      "obj_retired D' = retired H'" "obj_gone D' = obj_gone D" "obj_vars D' = obj_vars D"
  shows "inst_rel D' (I(i := b)) H'"
  unfolding inst_rel_def
proof (intro conjI allI impI)
  fix k
  show "objs D' k = map_option (\<lambda>n. if n = NULL then None else handles H' n) ((I(i := b)) k)"
    using same [of k] by (cases "I k") (auto simp: D'(1) inst_relD(1) [OF i])
next
  fix k n
  assume "(I(i := b)) k = Some n" "n \<noteq> NULL"
  then show "n \<in> dom (handles H')"
    using new same [of k n] inst_relD(2) [OF i, of k n] by (auto split: if_splits)
next
  fix k l n
  assume "(I(i := b)) k = Some n" "(I(i := b)) l = Some n" "n \<noteq> NULL"
  then show "k = l" using new inst_relD(3) [OF i, of k n l] by (auto split: if_splits)
next
  fix m v
  assume "handles H' m = Some v" "v \<noteq> NULL"
  with own show "m \<noteq> NULL" "\<exists>k. (I(i := b)) k = Some m" by (auto simp: fun_upd_def)
qed (use g D' inst_relD(6,7) [OF i] in simp_all)

lemma other_inst:
  assumes "inst_rel D I H" and "I i = Some n" and "handles H m = Some v" and "v \<noteq> NULL" and "m \<noteq> n"
  shows "m \<noteq> NULL \<and> (\<exists>k. k \<noteq> i \<and> I k = Some m)"
  using inst_relD(4) [OF assms(1,3,4)] assms(2,5) by (metis option.inject)

lemma rel_held: "hz_rel H s \<Longrightarrow> held s = handles H" "hz_rel H s \<Longrightarrow> cells s = vars H"
  using hp.view by (auto simp: hz_rel_def hz_abs_def)

lemma obj_refines_construct:
  assumes r: "hz_rel H (the_list p)" and i: "inst_rel D (insts p) H" and ok: "obj_ok (Construct i a j) p"
  shows "\<exists>p'. obj_exec (Construct i a j) p = Some (Ret (Void, p')) \<and> obj_rel (bind_obj i (Some NULL) D) p'"
proof -
  have "client_ok (New a j) (the_list p)" using ok by simp
  then obtain q s' H' where s': "hz_exec (New a j) (the_list p) = Some (Ret (q, s'))" "hz_spec (New a j) H q H'" "hz_rel H' s'"
    using hz_exec_follows [OF r] by blast
  obtain n where n: "n \<noteq> NULL" "n \<notin> dom (handles H)" "q = Got_node n" "H' = H\<lparr>handles := (handles H)(n \<mapsto> NULL)\<rparr>"
    using s'(2) by auto
  have "HazardPointer_ctor a j (the_list p) = Some (Ret (n, s'))"
    using finish_RetD [OF s'(1) [unfolded hz_exec.simps]] n(3) by (auto simp: HazardPointer_ctor_def)
  moreover have "inst_rel (bind_obj i (Some NULL) D) ((insts p)(i \<mapsto> n)) H'"
  proof (rule inst_rel_rebind [OF i])
    show "k \<noteq> i \<Longrightarrow> insts p k = Some m \<Longrightarrow> m \<noteq> NULL \<Longrightarrow> handles H' m = handles H m" for k m
      using n inst_relD(2) [OF i, of k m] by auto
    show "n' \<in> dom (handles H') \<and> (\<forall>k. k \<noteq> i \<longrightarrow> insts p k \<noteq> Some n')" if "Some n = Some n'" "n' \<noteq> NULL" for n'
      using n that inst_relD(2) [OF i, of _ n] by auto
    show "m \<noteq> NULL \<and> (Some n = Some m \<or> (\<exists>k. k \<noteq> i \<and> insts p k = Some m))" if "handles H' m = Some v" "v \<noteq> NULL" for m v
      using that n(1,4) inst_relD(4) [OF i, of m v] ok by (cases "m = n") (auto, metis option.distinct(1))
  qed (use n inst_relD(5) [OF i] in \<open>simp_all add: bind_obj_def\<close>)
  ultimately show ?thesis using s'(3) unfolding obj_rel_def by (auto simp: set_inst_def)
qed

text \<open>Giving up a node: what is left of the domain of nodes does not name the instance's node.\<close>

lemma inst_rel_unbind:
  assumes i: "inst_rel D I H" and n: "I i = Some n" and b: "b = None \<or> b = Some NULL"
    and h: "\<And>m. m \<noteq> n \<Longrightarrow> handles H' m = handles H m" "n \<noteq> NULL \<Longrightarrow> handles H' n = None \<or> handles H' n = Some NULL"
      "n = NULL \<Longrightarrow> handles H' = handles H"
    and "gone H' = gone H" "vars H' = vars H"
    and "objs D' = (objs D)(i := map_option (\<lambda>_. None) b)" "obj_retired D' = retired H'" "obj_gone D' = obj_gone D" "obj_vars D' = obj_vars D"
  shows "inst_rel D' (I(i := b)) H'"
proof (rule inst_rel_rebind [OF i])
  show "k \<noteq> i \<Longrightarrow> I k = Some m \<Longrightarrow> m \<noteq> NULL \<Longrightarrow> handles H' m = handles H m" for k m
    using h inst_relD(3) [OF i, of k m i] n by (cases "m = n") auto
  show "m \<noteq> NULL \<and> (b = Some m \<or> (\<exists>k. k \<noteq> i \<and> I k = Some m))" if "handles H' m = Some v" "v \<noteq> NULL" for m v
  proof (cases "m = n")
    case True
    with that h(2) have "n = NULL" by auto
    with that True h(3) inst_relD(4) [OF i, of m v] show ?thesis by simp
  next
    case False
    with that h(1) other_inst [OF i n, of m v] show ?thesis by auto
  qed
qed (use assms b in auto)

text \<open>The calls of a node's functions that end the binding of an instance, in the domain of nodes.\<close>

lemma unbind_follows:
  assumes r: "hz_rel H (the_list p)" and i: "inst_rel D (insts p) H" and n: "insts p i = Some n" "n \<noteq> NULL"
    and op: "op = Release n \<or> op = Delete n" and b: "b = None \<or> b = Some NULL"
    and D': "objs D' = (objs D)(i := map_option (\<lambda>_. None) b)" "obj_gone D' = obj_gone D" "obj_vars D' = obj_vars D"
      "obj_retired D' = (case objs D i of Some (Some v) \<Rightarrow> if op = Delete n \<and> v \<noteq> NULL then v # obj_retired D else obj_retired D
        | _ \<Rightarrow> obj_retired D)"
  shows "\<exists>f s'. hz_exec op (the_list p) = Some (Ret (Flag f, s')) \<and> obj_rel D' \<lparr>insts = (insts p)(i := b), the_list = s'\<rparr>"
proof -
  have ok: "client_ok op (the_list p)" using inst_relD(2) [OF i n] op rel_held [OF r] by auto
  obtain q s' H' where s': "hz_exec op (the_list p) = Some (Ret (q, s'))" "hz_spec op H q H'" "hz_rel H' s'"
    using hz_exec_follows [OF r ok] by blast
  obtain v where v: "handles H n = Some v" using inst_relD(2) [OF i n] by blast
  have o: "objs D i = Some (Some v)" using n v by (simp add: inst_relD(1) [OF i])
  have "inst_rel D' ((insts p)(i := b)) H'"
    by (rule inst_rel_unbind [OF i n(1) b])
      (use s'(2) op v o n(2) D' inst_relD(5) [OF i] in \<open>auto split: if_splits\<close>)
  moreover have "\<exists>f. q = Flag f" using s'(2) op by (auto split: if_splits)
  ultimately show ?thesis using s' unfolding obj_rel_def by auto
qed

text \<open>The same for an instance that is not bound to a node, which only changes itself.\<close>

lemma unbound_again:
  assumes "hz_rel H (the_list p)" and i: "inst_rel D (insts p) H" and n: "insts p i = Some NULL" and b: "b = None \<or> b = Some NULL"
    and D': "objs D' = (objs D)(i := map_option (\<lambda>_. None) b)" "obj_gone D' = obj_gone D" "obj_vars D' = obj_vars D"
      "obj_retired D' = obj_retired D"
  shows "obj_rel D' \<lparr>insts = (insts p)(i := b), the_list = the_list p\<rparr>"
proof -
  have "inst_rel D' ((insts p)(i := b)) H"
    by (rule inst_rel_unbind [OF i n b]) (use D' inst_relD(5) [OF i] in simp_all)
  with assms(1) show ?thesis unfolding obj_rel_def by auto
qed

lemma obj_refines_release:
  assumes r: "hz_rel H (the_list p)" and i: "inst_rel D (insts p) H" and n: "insts p i = Some n" and b: "b = None \<or> b = Some NULL"
    and D': "D' = D\<lparr>objs := (objs D)(i := map_option (\<lambda>_. None) b)\<rparr>"
  shows "\<exists>s'. HazardPointer_Release n (the_list p) = Some (Ret (NULL, s')) \<and> obj_rel D' \<lparr>insts = (insts p)(i := b), the_list = s'\<rparr>"
proof (cases "n = NULL")
  case True
  with unbound_again [OF r i _ b, of i D'] n D' show ?thesis by (auto simp: HazardPointer_Release_def)
next
  case False
  have "obj_retired D' = (case objs D i of Some (Some v) \<Rightarrow> if Release n = Delete n \<and> v \<noteq> NULL then v # obj_retired D else obj_retired D
        | _ \<Rightarrow> obj_retired D)"
    by (simp add: D' split: option.splits)
  then obtain f s' where "hz_exec (Release n) (the_list p) = Some (Ret (Flag f, s'))" "obj_rel D' \<lparr>insts = (insts p)(i := b), the_list = s'\<rparr>"
    using unbind_follows [OF r i n False _ b, of "Release n" D'] D' by auto
  with False show ?thesis
    using finish_RetD [of Flag "solo (node_Release n) RE_check (the_list p)"] by (auto simp: HazardPointer_Release_def)
qed

lemma obj_refines_delete:
  assumes r: "hz_rel H (the_list p)" and i: "inst_rel D (insts p) H" and n: "insts p i = Some n"
    and D': "D' = snd (obj_spec (Obj_Delete i) D)"
  shows "\<exists>s'. HazardPointer_Delete n (the_list p) = Some (Ret (NULL, s')) \<and> obj_rel D' \<lparr>insts = (insts p)(i \<mapsto> NULL), the_list = s'\<rparr>"
proof (cases "n = NULL")
  case True
  with n have "objs D i = Some None" by (simp add: inst_relD(1) [OF i])
  with unbound_again [OF r i _, of i "Some NULL" D'] True n D' show ?thesis
    by (auto simp: HazardPointer_Delete_def bind_obj_def)
next
  case False
  have "obj_retired D' = (case objs D i of Some (Some v) \<Rightarrow> if Delete n = Delete n \<and> v \<noteq> NULL then v # obj_retired D else obj_retired D
        | _ \<Rightarrow> obj_retired D)" "objs D' = (objs D)(i := map_option (\<lambda>_. None) (Some NULL))" "obj_gone D' = obj_gone D" "obj_vars D' = obj_vars D"
    by (simp_all add: D' bind_obj_def split: option.splits)
  then obtain f s' where "hz_exec (Delete n) (the_list p) = Some (Ret (Flag f, s'))" "obj_rel D' \<lparr>insts = (insts p)(i \<mapsto> NULL), the_list = s'\<rparr>"
    using unbind_follows [OF r i n False, of "Delete n" "Some NULL" D'] by auto
  with False show ?thesis
    using finish_RetD [of Flag "solo (node_Delete n) DE_check (the_list p)"] by (auto simp: HazardPointer_Delete_def)
qed

lemma obj_refines_acquire:
  assumes r: "hz_rel H (the_list p)" and i: "inst_rel D (insts p) H" and n: "insts p i = Some n" "n \<noteq> NULL"
    and c: "cells (the_list p) c = Some v"
  shows "\<exists>s'. HazardPointer_Acquire n c (the_list p) = Some (Ret (True, s')) \<and>
    obj_rel (bind_obj i (Some v) D) \<lparr>insts = insts p, the_list = s'\<rparr>"
proof -
  have ok: "client_ok (Acquire n c) (the_list p)" using inst_relD(2) [OF i n] c rel_held [OF r] by auto
  obtain q s' H' where s': "hz_exec (Acquire n c) (the_list p) = Some (Ret (q, s'))" "hz_spec (Acquire n c) H q H'" "hz_rel H' s'"
    using hz_exec_follows [OF r ok] by blast
  have H': "H' = H\<lparr>handles := (handles H)(n \<mapsto> v)\<rparr>" using s'(2) c rel_held [OF r] by auto
  have "inst_rel (bind_obj i (Some v) D) ((insts p)(i := insts p i)) H'"
  proof (rule inst_rel_rebind [OF i])
    show "m \<noteq> NULL \<and> (insts p i = Some m \<or> (\<exists>k. k \<noteq> i \<and> insts p k = Some m))" if "handles H' m = Some w" "w \<noteq> NULL" for m w
      using that H' n other_inst [OF i n(1), of m w] by (cases "m = n") simp_all
    show "k \<noteq> i \<Longrightarrow> insts p k = Some m \<Longrightarrow> m \<noteq> NULL \<Longrightarrow> handles H' m = handles H m" for k m
      using H' n(2) inst_relD(3) [OF i n(1) _ n(2), of k] by (cases "m = n") simp_all
    show "m \<in> dom (handles H') \<and> (\<forall>k. k \<noteq> i \<longrightarrow> insts p k \<noteq> Some m)" if "insts p i = Some m" "m \<noteq> NULL" for m
    proof -
      have "m = n" using that n by simp
      moreover have "\<forall>k. k \<noteq> i \<longrightarrow> insts p k \<noteq> Some n" using inst_relD(3) [OF i n(1) _ n(2)] by blast
      ultimately show ?thesis using H' by simp
    qed
  qed (use H' n inst_relD(5) [OF i] in \<open>simp_all add: bind_obj_def\<close>)
  with s' n(2) finish_RetD [of Flag "solo (node_Acquire n c) AC_check (the_list p)" q s'] show ?thesis
    unfolding obj_rel_def by (auto simp: HazardPointer_Acquire_def)
qed

lemma obj_refines_collect:
  assumes r: "hz_rel H (the_list p)" and i: "inst_rel D (insts p) H"
  shows "\<exists>s'. solo (Collect_hp t) CO_test (the_list p) =
      Some (Ret (obj_retired D \<noteq> [] \<and> filter (is_prot D) (obj_retired D) = [], s')) \<and>
    obj_rel (snd (obj_spec (Obj_Collect t) D)) \<lparr>insts = insts p, the_list = s'\<rparr>"
proof -
  obtain q s' H' where s': "hz_exec (Collect_op t) (the_list p) = Some (Ret (q, s'))" "hz_spec (Collect_op t) H q H'" "hz_rel H' s'"
    using hz_exec_follows [OF r, of "Collect_op t"] by auto
  have H': "H' = H\<lparr>retired := filter (\<lambda>v. v \<in> protected H) (retired H), gone := gone H @ filter (\<lambda>v. v \<notin> protected H) (retired H)\<rparr>"
    using s'(2) by simp
  have p: "is_prot D = (\<lambda>v. v \<in> protected H)" using inst_protected [OF i] by (simp add: is_prot_def fun_eq_iff)
  have e: "retired H = obj_retired D" "gone H = obj_gone D" using inst_relD(5,6) [OF i] by simp_all
  have "q = Flag (obj_retired D \<noteq> [] \<and> filter (is_prot D) (obj_retired D) = [])"
    using s'(2) unfolding p e [symmetric] by (auto simp: filter_empty_conv)
  moreover have "inst_rel (snd (obj_spec (Obj_Collect t) D)) (insts p) H'"
    using i unfolding inst_rel_def H' by (simp add: p cong: if_cong)
  ultimately show ?thesis
    using s' finish_RetD [of Flag "solo (Collect_hp t) CO_test (the_list p)" q s'] unfolding obj_rel_def by auto
qed

lemma get_follows:
  assumes "obj_rel D p" and n: "insts p i = Some n"
  shows "HazardPointer_get n (the_list p) = Ret (case objs D i of Some (Some v) \<Rightarrow> v | _ \<Rightarrow> NULL)"
proof -
  from assms(1) obtain H where r: "hz_rel H (the_list p)" and i: "inst_rel D (insts p) H" by (auto simp: obj_rel_def)
  show ?thesis
  proof (cases "n = NULL")
    case True
    with n show ?thesis by (simp add: HazardPointer_get_def inst_relD(1) [OF i])
  next
    case False
    then obtain v where v: "handles H n = Some v" using inst_relD(2) [OF i n] by blast
    then have "held (the_list p) n = Some v" using rel_held [OF r] by simp
    then have "get_pointer n (the_list p) = Ret v"
      by (auto simp: held_def get_pointer_def split: option.splits if_splits)
    with False n v show ?thesis by (simp add: HazardPointer_get_def inst_relD(1) [OF i])
  qed
qed

lemma obj_refines:
  assumes rel: "obj_rel D p" and ok: "obj_ok op p"
  shows "\<exists>p'. obj_exec op p = Some (Ret (fst (obj_spec op D), p')) \<and> obj_rel (snd (obj_spec op D)) p'"
proof -
  from rel obtain H where r: "hz_rel H (the_list p)" and i: "inst_rel D (insts p) H" by (auto simp: obj_rel_def)
  show ?thesis
  proof (cases op)
    case (Construct k a j)
    with obj_refines_construct [OF r i, of k a j] ok show ?thesis by simp
  next
    case (Destroy k)
    with ok obtain n where n: "insts p k = Some n" by auto
    with Destroy obj_refines_release [OF r i n, of None] show ?thesis by (auto simp: HazardPointer_dtor_def)
  next
    case (Obj_Acquire k c)
    with ok obtain n v where n: "insts p k = Some n" "cells (the_list p) c = Some v" by auto
    show ?thesis
    proof (cases "n = NULL")
      case True
      with Obj_Acquire n rel inst_relD(1) [OF i, of k] show ?thesis by (cases p) (auto simp: HazardPointer_Acquire_def)
    next
      case False
      have "objs D k \<noteq> Some None" using inst_relD(1) [OF i, of k] inst_relD(2) [OF i n(1) False] n(1) False by auto
      moreover have "obj_vars D c = Some v" using n(2) rel_held(2) [OF r] inst_relD(7) [OF i] by simp
      ultimately show ?thesis
        using obj_refines_acquire [OF r i n(1) False n(2)] Obj_Acquire n(1) by auto
    qed
  next
    case (Obj_Release k)
    with ok obtain n where n: "insts p k = Some n" by auto
    with Obj_Release obj_refines_release [OF r i n, of "Some NULL"] show ?thesis by (auto simp: bind_obj_def set_inst_def)
  next
    case (Obj_Delete k)
    with ok obtain n where n: "insts p k = Some n" by auto
    with Obj_Delete obj_refines_delete [OF r i n refl] show ?thesis by (auto simp: set_inst_def)
  next
    case (Obj_Get k)
    with ok obtain n where n: "insts p k = Some n" by auto
    with Obj_Get rel get_follows [OF rel n] show ?thesis by simp
  next
    case (Obj_Collect t)
    with obj_refines_collect [OF r i, of t] show ?thesis by auto
  next
    case (Obj_Write c v)
    from hz_exec_follows [OF r, of "Write c v"] ok Obj_Write
    have "hz_rel (H\<lparr>vars := (vars H)(c \<mapsto> v)\<rparr>) ((the_list p)\<lparr>cells := (cells (the_list p))(c \<mapsto> v)\<rparr>)" by auto
    moreover have "inst_rel (snd (obj_spec op D)) (insts p) (H\<lparr>vars := (vars H)(c \<mapsto> v)\<rparr>)"
      using i Obj_Write by (simp add: inst_rel_def cong: if_cong)
    ultimately show ?thesis using Obj_Write unfolding obj_rel_def by auto
  qed
qed

lemma obj_run_refines:
  assumes "obj_rel D p" and "obj_legal ops p"
  shows "\<exists>p'. obj_run ops p = Some (Ret (fst (obj_spec_run ops D), p')) \<and> obj_rel (snd (obj_spec_run ops D)) p'"
  using assms
proof (induction ops arbitrary: D p)
  case (Cons op ops)
  obtain p1 where p1: "obj_exec op p = Some (Ret (fst (obj_spec op D), p1))" "obj_rel (snd (obj_spec op D)) p1"
    using obj_refines [OF Cons.prems(1)] Cons.prems(2) by auto
  obtain p2 where "obj_run ops p1 = Some (Ret (fst (obj_spec_run ops (snd (obj_spec op D))), p2))"
    "obj_rel (snd (obj_spec_run ops (snd (obj_spec op D)))) p2"
    using Cons.IH [OF p1(2)] Cons.prems(2) p1(1) by auto
  with p1 show ?case by (simp add: Let_def split_beta)
qed simp

section \<open>Use after free\<close>

text \<open>
  The discipline of a program: an object is retired once, after it has been unlinked from all
  cells, and never linked again.
\<close>

fun disciplined :: "obj_op \<Rightarrow> obj_domain \<Rightarrow> bool" where
  "disciplined (Obj_Delete i) D = (case objs D i of
       Some (Some v) \<Rightarrow> v \<notin> ran (obj_vars D) \<and> v \<notin> set (obj_retired D) | _ \<Rightarrow> True)"
| "disciplined (Obj_Write c v) D = (v \<notin> set (obj_retired D) \<and> v \<notin> set (obj_gone D))"
| "disciplined _ D = True"

fun disciplined_run :: "obj_op list \<Rightarrow> obj_domain \<Rightarrow> bool" where
  "disciplined_run [] D = True"
| "disciplined_run (op # ops) D = (disciplined op D \<and> disciplined_run ops (snd (obj_spec op D)))"

definition reclaim_inv :: "obj_domain \<Rightarrow> bool" where
  "reclaim_inv D \<longleftrightarrow> distinct (obj_retired D @ obj_gone D) \<and> set (obj_gone D) \<inter> obj_protected D = {} \<and>
     (set (obj_retired D) \<union> set (obj_gone D)) \<inter> ran (obj_vars D) = {} \<and> NULL \<notin> set (obj_retired D) \<union> set (obj_gone D)"

lemma protected_bind: "obj_protected (bind_obj i (Some v) D) \<subseteq> insert v (obj_protected D)"
  "obj_protected (bind_obj i None D) \<subseteq> obj_protected D" "obj_protected (D\<lparr>objs := (objs D)(i := None)\<rparr>) \<subseteq> obj_protected D"
  by (auto simp: obj_protected_def bind_obj_def split: if_splits)

lemma bind_simps [simp]: "obj_retired (bind_obj i b D) = obj_retired D" "obj_gone (bind_obj i b D) = obj_gone D"
  "obj_vars (bind_obj i b D) = obj_vars D"
  by (simp_all add: bind_obj_def)

lemma reclaim_inv_mono:
  assumes "reclaim_inv D" and "obj_retired D' = obj_retired D" "obj_gone D' = obj_gone D" "obj_vars D' = obj_vars D"
    and "obj_protected D' \<subseteq> obj_protected D \<union> (- set (obj_gone D))"
  shows "reclaim_inv D'"
  using assms unfolding reclaim_inv_def by auto

lemma reclaim_step:
  assumes inv: "reclaim_inv D" and d: "disciplined op D"
  shows "reclaim_inv (snd (obj_spec op D))"
proof (cases op)
  case (Construct i a j)
  then show ?thesis
    using protected_bind(1) [of i NULL D] inv by (auto intro!: reclaim_inv_mono [OF inv] simp: reclaim_inv_def)
next
  case (Destroy i)
  then show ?thesis using protected_bind(3) [of D i] by (auto intro!: reclaim_inv_mono [OF inv])
next
  case (Obj_Acquire i c)
  show ?thesis
  proof (cases "obj_vars D c")
    case None
    with Obj_Acquire protected_bind(2) [of i D] inv show ?thesis by (auto intro!: reclaim_inv_mono [OF inv])
  next
    case (Some v)
    then have "v \<notin> set (obj_gone D)" using inv by (auto simp: reclaim_inv_def ran_def)
    with Obj_Acquire Some protected_bind(1) [of i v D] inv show ?thesis by (auto intro!: reclaim_inv_mono [OF inv])
  qed
next
  case (Obj_Release i)
  then show ?thesis using protected_bind(2) [of i D] by (auto intro!: reclaim_inv_mono [OF inv])
next
  case (Obj_Delete i)
  show ?thesis
  proof (cases "\<exists>v. objs D i = Some (Some v) \<and> v \<noteq> NULL")
    case True
    then obtain v where v: "objs D i = Some (Some v)" "v \<noteq> NULL" by blast
    then have "v \<in> obj_protected D" by (auto simp: obj_protected_def)
    then have "v \<notin> set (obj_gone D)" "v \<notin> set (obj_retired D)" "v \<notin> ran (obj_vars D)"
      using inv d v Obj_Delete by (auto simp: reclaim_inv_def)
    then have "reclaim_inv (D\<lparr>obj_retired := v # obj_retired D\<rparr>)"
      using inv v by (auto simp: reclaim_inv_def obj_protected_def)
    then have "reclaim_inv (bind_obj i None (D\<lparr>obj_retired := v # obj_retired D\<rparr>))"
      by (rule reclaim_inv_mono) (use protected_bind(2) in auto)
    with v Obj_Delete show ?thesis by simp
  next
    case False
    then have "snd (obj_spec op D) = bind_obj i None D" using Obj_Delete by (auto split: option.splits)
    then show ?thesis using protected_bind(2) [of i D] by (auto intro!: reclaim_inv_mono [OF inv])
  qed
next
  case (Obj_Get i)
  with inv show ?thesis by simp
next
  case (Obj_Collect t)
  let ?D = "snd (obj_spec op D)"
  have "obj_protected ?D = obj_protected D" using Obj_Collect by (simp add: obj_protected_def)
  with inv Obj_Collect show ?thesis by (auto simp: reclaim_inv_def is_prot_def)
next
  case (Obj_Write c v)
  have "ran ((obj_vars D)(c \<mapsto> v)) \<subseteq> insert v (ran (obj_vars D))" by (auto simp: ran_def)
  with inv d Obj_Write show ?thesis by (auto simp: reclaim_inv_def obj_protected_def)
qed

lemma reclaim_run:
  "reclaim_inv D \<Longrightarrow> disciplined_run ops D \<Longrightarrow> reclaim_inv (snd (obj_spec_run ops D))"
proof (induction ops arbitrary: D)
  case (Cons op ops)
  then show ?case using reclaim_step [of D op] by (auto simp: split_beta Let_def)
qed simp

section \<open>Properties\<close>

definition program_start :: "addr \<Rightarrow> (addr \<rightharpoonup> addr) \<Rightarrow> hp_program" where
  "program_start a m = \<lparr>insts = Map.empty, the_list = HazardPointerList_ctor a m\<rparr>"

definition domain_start :: "(addr \<rightharpoonup> addr) \<Rightarrow> obj_domain" where
  "domain_start m = \<lparr>objs = Map.empty, obj_retired = [], obj_gone = [], obj_vars = m\<rparr>"

lemma obj_rel_start:
  assumes "a \<noteq> NULL"
  shows "obj_rel (domain_start m) (program_start a m)"
  unfolding obj_rel_def
  by (rule exI [of _ "hz_start m"])
    (use hz_rel_ctor [OF assms] in \<open>simp add: inst_rel_def domain_start_def program_start_def hz_start_def\<close>)

lemma obj_run_start:
  assumes "a \<noteq> NULL" and "obj_legal ops (program_start a m)" and "obj_run ops (program_start a m) = Some (Ret (rs, p))"
  shows "rs = fst (obj_spec_run ops (domain_start m))" and "obj_rel (snd (obj_spec_run ops (domain_start m))) p"
  using obj_run_refines [OF obj_rel_start [OF assms(1)] assms(2)] assms(3) by auto

text \<open>
  C10: A program with any number of \<^verbatim>\<open>HazardPointer\<close> instances over one list, in any
  sequence of calls on instances in scope, runs without fault, and all results (of
  \<^verbatim>\<open>Acquire\<close>, \<^verbatim>\<open>Collect\<close> and \<^verbatim>\<open>operator()\<close>) are those of the abstract
  domain in which each instance is unbound or protects one object.
\<close>

theorem handles_refine:
  assumes "a \<noteq> NULL" and "obj_legal ops (program_start a m)"
  shows "\<exists>p. obj_run ops (program_start a m) = Some (Ret (fst (obj_spec_run ops (domain_start m)), p)) \<and>
    obj_rel (snd (obj_spec_run ops (domain_start m))) p"
  by (rule obj_run_refines [OF obj_rel_start [OF assms(1)] assms(2)])

theorem handles_refine_witness:
  "\<exists>p. obj_run [Construct 0 2 0, Obj_Acquire 0 10, Construct 1 3 0, Obj_Acquire 1 10, Obj_Write 10 88, Obj_Delete 1,
      Obj_Collect 0, Obj_Get 0, Obj_Get 1] (program_start 1 [10 \<mapsto> 77]) =
    Some (Ret ([Void, Is True, Void, Is True, Void, Void, Is False, Object 77, Object 0], p))"
proof -
  let ?ops = "[Construct 0 2 0, Obj_Acquire 0 10, Construct 1 3 0, Obj_Acquire 1 10, Obj_Write 10 88, Obj_Delete 1,
      Obj_Collect 0, Obj_Get 0, Obj_Get 1]"
  have l: "obj_legal ?ops (program_start 1 [10 \<mapsto> 77])" by code_simp
  have "fst (obj_spec_run ?ops (domain_start [10 \<mapsto> 77])) =
      [Void, Is True, Void, Is True, Void, Void, Is False, Object 77, Object 0]"
    by (simp add: domain_start_def bind_obj_def is_prot_def obj_protected_def)
  with handles_refine [OF _ l] show ?thesis by auto
qed

text \<open>
  C3: No use after free. If the program retires each object once and after unlinking it from
  all cells, then no call of \<^verbatim>\<open>operator()\<close> on any instance ever yields a deleted object, and no
  object is deleted twice.
\<close>

theorem handles_no_use_after_free:
  assumes "a \<noteq> NULL" and "obj_legal ops (program_start a m)" and "disciplined_run ops (domain_start m)"
    and "obj_run ops (program_start a m) = Some (Ret (rs, p))"
  shows "distinct (deleted (the_list p)) \<and>
    (\<forall>i n v. insts p i = Some n \<longrightarrow> HazardPointer_get n (the_list p) = Ret v \<longrightarrow> v \<notin> set (deleted (the_list p)))"
proof -
  let ?D = "snd (obj_spec_run ops (domain_start m))"
  have rel: "obj_rel ?D p" by (rule obj_run_start(2) [OF assms(1,2,4)])
  have "reclaim_inv (domain_start m)" by (simp add: reclaim_inv_def domain_start_def)
  then have inv: "reclaim_inv ?D" by (rule reclaim_run [OF _ assms(3)])
  have g: "obj_gone ?D = deleted (the_list p)"
    using rel inst_relD(6) hp.view unfolding obj_rel_def by metis
  have "v \<notin> set (obj_gone ?D)" if "insts p i = Some n" "HazardPointer_get n (the_list p) = Ret v" for i n v
    using that get_follows [OF rel that(1)] inv
    by (auto simp: reclaim_inv_def obj_protected_def split: option.splits)
  with inv show ?thesis unfolding g by (auto simp: reclaim_inv_def g)
qed

theorem handles_no_use_after_free_witness:
  "\<exists>rs p. obj_run [Construct 0 2 0, Obj_Acquire 0 10, Construct 1 3 0, Obj_Acquire 1 10, Obj_Write 10 88, Obj_Delete 1, Obj_Collect 0]
      (program_start 1 [10 \<mapsto> 77]) = Some (Ret (rs, p)) \<and> distinct (deleted (the_list p)) \<and>
    (\<forall>i n v. insts p i = Some n \<longrightarrow> HazardPointer_get n (the_list p) = Ret v \<longrightarrow> v \<notin> set (deleted (the_list p)))"
proof -
  let ?ops = "[Construct 0 2 0, Obj_Acquire 0 10, Construct 1 3 0, Obj_Acquire 1 10, Obj_Write 10 88, Obj_Delete 1, Obj_Collect 0]"
  have l: "obj_legal ?ops (program_start 1 [10 \<mapsto> 77])" by code_simp
  have d: "disciplined_run ?ops (domain_start [10 \<mapsto> 77])"
    by (simp add: domain_start_def bind_obj_def ran_def)
  obtain rs p where r: "obj_run ?ops (program_start 1 [10 \<mapsto> 77]) = Some (Ret (rs, p))"
    using obj_run_refines [OF obj_rel_start l] by auto
  with handles_no_use_after_free [OF _ l d r] show ?thesis by auto
qed

text \<open>
  C38: What the functions for reusing and moving an instance do, in every state a program reaches.
  \<^verbatim>\<open>Recycle\<close> never returns normally: for a bound instance it reads through a null pointer
  (\<^verbatim>\<open>Acquire(NULL)\<close>), for an unbound one it ends without a result. The move constructor
  moves in the wrong direction: the new instance is unbound whatever the old one protected, and the old
  one holds what the new one's storage happened to contain.
\<close>

theorem handle_reuse_fails:
  assumes "a \<noteq> NULL" and "obj_legal ops (program_start a m)" and "obj_run ops (program_start a m) = Some (Ret (rs, p))"
    and "insts p i = Some n" and "cells (the_list p) NULL = None" and "heap (the_list p) b = None" "b \<noteq> NULL"
  shows "HazardPointer_Recycle n b j (the_list p) =
      Some (Stop (if n \<noteq> NULL then Bad_deref ''ptrptr'' else Undefined ''no return'')) \<and>
    HazardPointer_get (fst (HazardPointer_move u n)) (the_list p) = Ret NULL \<and>
    (heap (the_list p) u = None \<longrightarrow> u \<noteq> NULL \<longrightarrow>
      HazardPointer_get (snd (HazardPointer_move u n)) (the_list p) = Stop (Bad_deref ''node''))"
proof -
  from obj_run_start(2) [OF assms(1-3)] obtain D H where r: "hz_rel H (the_list p)" and i: "inst_rel D (insts p) H"
    by (auto simp: obj_rel_def)
  from r obtain ns gs fs where rep: "hp_rep ns gs fs (the_list p)" by (auto simp: hz_rel_def)
  have "HazardPointer_Recycle n b j (the_list p) = Some (Stop (Bad_deref ''ptrptr''))" if nz: "n \<noteq> NULL"
  proof -
    obtain v where "held (the_list p) n = Some v" using inst_relD(2) [OF i assms(4) nz] rel_held [OF r] by auto
    then obtain x where x: "heap (the_list p) n = Some x" "in_use ns gs fs n"
      using in_use_null_link [OF rep] by (auto simp: held_def split: option.splits if_splits)
    have "gc_pointer x = NULL" "next_node x = NULL" using in_use_node [OF hp_rep_lists [OF rep] x(2)] x(1) by auto
    with x(1) have "solo (node_Acquire n NULL) AC_check (the_list p) = Some (Stop (Bad_deref ''ptrptr''))"
      using assms(5) by (simp add: solo_atom [of "node_Acquire n NULL", OF node_Acquire.simps(1)]
          solo_atom [of "node_Acquire n NULL", OF node_Acquire.simps(2)] IsUnqueued_def)
    with nz show ?thesis by (simp add: HazardPointer_Recycle_def andthen_def)
  qed
  moreover have "HazardPointer_Recycle NULL b j (the_list p) = Some (Stop (Undefined ''no return''))"
    using AcquireNode_alone [OF rep assms(6,7), of j] by (auto simp: HazardPointer_Recycle_def)
  ultimately show ?thesis
    by (simp add: HazardPointer_get_def HazardPointer_move_def get_pointer_def)
qed

theorem handle_reuse_fails_witness:
  "\<exists>rs p. obj_run [Construct 0 2 0, Obj_Acquire 0 10] (program_start 1 [10 \<mapsto> 77]) = Some (Ret (rs, p)) \<and>
    insts p 0 = Some 2 \<and> HazardPointer_Recycle 2 3 0 (the_list p) = Some (Stop (Bad_deref ''ptrptr''))"
proof -
  let ?ops = "[Construct 0 2 0, Obj_Acquire 0 10]"
  have l: "obj_legal ?ops (program_start 1 [10 \<mapsto> 77])" by code_simp
  define q where "q = (case obj_run ?ops (program_start 1 [10 \<mapsto> 77]) of Some (Ret (rs, p)) \<Rightarrow> p | _ \<Rightarrow> program_start 1 [10 \<mapsto> 77])"
  obtain rs p where r: "obj_run ?ops (program_start 1 [10 \<mapsto> 77]) = Some (Ret (rs, p))"
    using obj_run_refines [OF obj_rel_start l] by auto
  then have "p = q" by (simp add: q_def)
  moreover have "insts q 0 = Some 2" "cells (the_list q) NULL = None" "heap (the_list q) 3 = None"
    unfolding q_def by code_simp+
  ultimately show ?thesis
    using handle_reuse_fails [OF _ l r, of 0 2 3 0 4] r by auto
qed

text \<open>Handles constructed and destroyed one after the other, none of them used.\<close>

lemma unused_handle:
  assumes "hp_rep ns [] [] s" and f: "heap s b = None" "b \<noteq> NULL"
  defines "s' \<equiv> s\<lparr>heap := (heap s)(b \<mapsto> (HazardPointerNode_ctor 0)\<lparr>fixed_link := nodes s\<rparr>), nodes := b\<rparr>"
  shows "obj_run (Construct 0 b 0 # Destroy 0 # ops) \<lparr>insts = Map.empty, the_list = s\<rparr> =
    map_option (\<lambda>x. bnd x (\<lambda>(rs, q). Ret (Void # Void # rs, q))) (obj_run ops \<lparr>insts = Map.empty, the_list = s'\<rparr>)"
    and "hp_rep (b # ns) [] [] s'"
proof -
  note new = AcquireNode_new [OF assms(1) f, of 0, folded s'_def]
  have "in_use (b # ns) [] [] b" by (simp add: in_use_def)
  then have "solo (node_Release b) RE_check s' = Some (Ret (False, s'))"
    using node_Release_alone(1) [OF new(2), of b] by (simp add: HazardPointerNode_ctor_def s'_def)
  moreover have "(\<lambda>x. bnd (bnd x (\<lambda>(rs, q). Ret (Void # rs, q))) (\<lambda>(rs, q). Ret (Void # rs, q))) =
      (\<lambda>x. bnd x (\<lambda>(rs :: obj_result list, q :: hp_program). Ret (Void # Void # rs, q)))"
    by (rule ext, rename_tac x, case_tac x) auto
  ultimately show "obj_run (Construct 0 b 0 # Destroy 0 # ops) \<lparr>insts = Map.empty, the_list = s\<rparr> =
    map_option (\<lambda>x. bnd x (\<lambda>(rs, q). Ret (Void # Void # rs, q))) (obj_run ops \<lparr>insts = Map.empty, the_list = s'\<rparr>)"
    using new(1) f(2)
    by (simp add: HazardPointer_ctor_def HazardPointer_dtor_def HazardPointer_Release_def set_inst_def option.map_comp comp_def)
  show "hp_rep (b # ns) [] [] s'" by (rule new(2))
qed

lemma handle_leak_run:
  assumes "hp_rep ns [] [] s" and "distinct as" and "NULL \<notin> set as" and "dom (heap s) \<inter> set as = {}"
  shows "\<exists>rs p. obj_run (concat (map (\<lambda>b. [Construct 0 b 0, Destroy 0]) as)) \<lparr>insts = Map.empty, the_list = s\<rparr> = Some (Ret (rs, p)) \<and>
    insts p = Map.empty \<and> dom (heap (the_list p)) = dom (heap s) \<union> set as \<and> free_list (the_list p) = end_node (the_list p)"
  using assms
proof (induction as arbitrary: ns s)
  case Nil
  then show ?case by (simp add: hp_rep_def hp_lists_def)
next
  case (Cons b as)
  then have "heap s b = None" "b \<noteq> NULL" by auto
  note step = unused_handle [OF Cons.prems(1) this]
  let ?s = "s\<lparr>heap := (heap s)(b \<mapsto> (HazardPointerNode_ctor 0)\<lparr>fixed_link := nodes s\<rparr>), nodes := b\<rparr>"
  have "dom (heap ?s) \<inter> set as = {}" using Cons.prems(2,4) by simp
  then obtain rs p where "obj_run (concat (map (\<lambda>b. [Construct 0 b 0, Destroy 0]) as)) \<lparr>insts = Map.empty, the_list = ?s\<rparr> = Some (Ret (rs, p))"
    "insts p = Map.empty" "dom (heap (the_list p)) = dom (heap ?s) \<union> set as" "free_list (the_list p) = end_node (the_list p)"
    using Cons.IH [OF step(2)] Cons.prems(2,3) by (simp del: fun_upd_apply) blast
  then show ?case by (simp add: step(1) del: obj_run.simps fun_upd_apply)
qed

text \<open>
  Handles that protect nothing lose their node. \<^verbatim>\<open>HazardPointerNode::Release\<close>
  returns without freeing the node when its pointer is null, so every handle that goes out of scope
  unused leaves a node that is on no list and that nobody holds: after any number of such handles as
  many nodes are allocated, and the free list is still empty.
\<close>

theorem handle_leak:
  assumes "a \<noteq> NULL" and "distinct (a # as)" and "NULL \<notin> set as"
  shows "\<exists>rs p. obj_run (concat (map (\<lambda>b. [Construct 0 b 0, Destroy 0]) as)) (program_start a m) = Some (Ret (rs, p)) \<and>
    insts p = Map.empty \<and> dom (heap (the_list p)) = set (a # as) \<and> free_list (the_list p) = end_node (the_list p)"
proof -
  from handle_leak_run [OF hp_rep_ctor [OF assms(1), of m], of as] assms(2,3) show ?thesis
    by (auto simp: program_start_def HazardPointerList_ctor_def init_def)
qed

theorem handle_leak_witness:
  "\<exists>rs p. obj_run (concat (map (\<lambda>b. [Construct 0 b 0, Destroy 0]) [2, 3, 4])) (program_start 1 Map.empty) = Some (Ret (rs, p)) \<and>
    insts p = Map.empty \<and> dom (heap (the_list p)) = {1, 2, 3, 4} \<and> free_list (the_list p) = end_node (the_list p)"
  using handle_leak [of 1 "[2, 3, 4]" Map.empty] by (simp del: obj_run.simps)

end
