(* ===== verification/Hazard_Race.thy ===== *)
theory Hazard_Race
  imports Hazard_Safety
begin

text \<open>
  Threads that use one \<^verbatim>\<open>HazardPointerList\<close> at the same time
  (\<^verbatim>\<open>src/src/HazardPointer.hpp\<close>): the functions of theory \<open>Hazard_Nodes\<close> and \<open>Hazard_Collect\<close> interleaved at
  every shared access. The guarantees that theory \<open>Hazard_Safety\<close> proves for calls that do not
  overlap do not hold here: four runs show how they fail.
\<close>

section \<open>The machine\<close>

text \<open>A thread is between calls or inside one, with the list of the nodes it has obtained and not given back.\<close>

datatype hz_point =
    P_new addr addr acquire_node_pc
  | P_acquire addr addr acquire_pc
  | P_clear addr clear_pc
  | P_release addr release_pc
  | P_delete addr delete_pc
  | P_collect tid collect_pc
  | P_write addr addr

datatype hz_pc = H_idle "addr list" | H_in "addr list" hz_point

fun hz_enter :: "hz_op \<Rightarrow> hz_point" where
  "hz_enter (New a j) = P_new a j (AN_pop PO_head)"
| "hz_enter (Acquire n c) = P_acquire n c AC_check"
| "hz_enter (Clear n) = P_clear n CL_check"
| "hz_enter (Release n) = P_release n RE_check"
| "hz_enter (Delete n) = P_delete n DE_check"
| "hz_enter (Collect_op t) = P_collect t CO_test"
| "hz_enter (Write c v) = P_write c v"

definition give_back :: "addr \<Rightarrow> bool \<Rightarrow> addr list \<Rightarrow> addr list" where
  "give_back n ok ns = (if ok then removeAll n ns else ns)"

fun hz_point_act :: "addr list \<Rightarrow> hz_point \<Rightarrow> (hp_list, hz_pc, unit) action" where
  "hz_point_act ns (P_new a j p) = calls (\<lambda>q. H_in ns (P_new a j q)) (\<lambda>n. H_idle (n # ns)) (AcquireNode a j p)"
| "hz_point_act ns (P_acquire n c p) = calls (\<lambda>q. H_in ns (P_acquire n c q)) (\<lambda>_. H_idle ns) (node_Acquire n c p)"
| "hz_point_act ns (P_clear n p) = calls (\<lambda>q. H_in ns (P_clear n q)) (\<lambda>_. H_idle ns) (node_Clear n p)"
| "hz_point_act ns (P_release n p) = calls (\<lambda>q. H_in ns (P_release n q)) (\<lambda>ok. H_idle (give_back n ok ns)) (node_Release n p)"
| "hz_point_act ns (P_delete n p) = calls (\<lambda>q. H_in ns (P_delete n q)) (\<lambda>ok. H_idle (give_back n ok ns)) (node_Delete n p)"
| "hz_point_act ns (P_collect t p) = calls (\<lambda>q. H_in ns (P_collect t q)) (\<lambda>_. H_idle ns) (Collect_hp t p)"
| "hz_point_act ns (P_write c v) = Mem (\<lambda>s. (s\<lparr>cells := (cells s)(c \<mapsto> v)\<rparr>, Ret (H_idle ns)))"

fun hz_act :: "hz_op list \<Rightarrow> hz_pc \<Rightarrow> (hp_list, hz_pc, unit) action" where
  "hz_act ops (H_idle ns) = Client (map (\<lambda>op. H_in ns (hz_enter op)) ops)"
| "hz_act ops (H_in ns p) = hz_point_act ns p"

definition hz_run :: "hz_op list \<Rightarrow> (hp_list, hz_pc) conf \<Rightarrow> event list \<Rightarrow> (hp_list, hz_pc) conf option" where
  "hz_run ops s evs = run fifo_wake 3 (hz_act ops) (\<lambda>_ _. 0) s evs"

section \<open>Collect misses an object protected and retired after its scan\<close>

text \<open>
  Nodes 2 and 3 are in use and protect nothing, object 88 waits for collection, cell 10 holds object 77.
  Thread 0 calls \<^verbatim>\<open>Collect\<close> and finishes its scan of the hazard pointers. Then thread 1
  protects object 77 with node 2, and the cell still holds 77. Then thread 2 protects 77 with node
  3, unlinks it from the cell and retires it. Thread 0 goes on with reading the gc list.
\<close>

definition collect_start :: "(hp_list, hz_pc) conf" where
  "collect_start = (start (after_run [New 2 0, New 3 0, New 4 0, Acquire 4 11, Delete 4]
     (HazardPointerList_ctor 1 [10 \<mapsto> 77, 11 \<mapsto> 88])) (H_idle []))\<lparr>pcs := (\<lambda>t. H_idle (if t = 0 then [] else [t + 1]))\<rparr>"

definition collect_ops :: "hz_op list" where
  "collect_ops = [Collect_op 0, Acquire 2 10, Acquire 3 10, Write 10 99, Delete 3]"

definition collect_race :: "event list" where
  "collect_race = Call 0 0 # replicate 11 (Run 0) @ Call 1 1 # replicate 3 (Run 1) @
     Call 2 2 # replicate 3 (Run 2) @ Call 2 3 # Run 2 # Call 2 4 # replicate 10 (Run 2) @ replicate 6 (Run 0)"

section \<open>Pop gives one node to two threads\<close>

text \<open>
  Nodes 2 and 3 are free, in this order. Thread 1 calls \<^verbatim>\<open>AcquireNode\<close> and has read node 2 as
  the head and node 3 as its successor; thread 2 obtains both nodes, uses node 2 and releases it; thread 1's
  compare-and-exchange finds node 2 at the head again and makes node 3 the head; its next call obtains
  node 3.
\<close>

definition pop_start :: "(hp_list, hz_pc) conf" where
  "pop_start = start (after_run [New 2 0, New 3 0, Acquire 2 10, Acquire 3 10, Release 3, Release 2]
     (HazardPointerList_ctor 1 [10 \<mapsto> 77])) (H_idle [])"

definition pop_ops :: "hz_op list" where
  "pop_ops = [New 9 0, Acquire 2 10, Release 2]"

definition pop_race :: "event list" where
  "pop_race = [Call 1 0, Run 1, Run 1] @ Call 2 0 # replicate 5 (Run 2) @ Call 2 0 # replicate 5 (Run 2) @
     Call 2 1 # replicate 3 (Run 2) @ Call 2 2 # replicate 6 (Run 2) @ replicate 3 (Run 1) @ Call 1 0 # replicate 5 (Run 1)"

section \<open>Remove unlinks the wrong node\<close>

text \<open>
  Node 4 with object 88 is on the gc list, thread 1 protects object 77, which is unlinked, with
  node 2. Thread 0 calls \<^verbatim>\<open>Collect\<close>, deletes 88 and has found node 4 at the head of the list in
  \<^verbatim>\<open>remove\<close>. Thread 1 retires 77: node 2 is the head now. Thread 0 reads the head again, takes
  node 2 off the list instead and puts node 4 on the free list.
\<close>

definition remove_start :: "(hp_list, hz_pc) conf" where
  "remove_start = (start (after_run [New 2 0, New 4 0, Acquire 4 11, Delete 4, Acquire 2 10, Write 10 99]
     (HazardPointerList_ctor 1 [10 \<mapsto> 77, 11 \<mapsto> 88])) (H_idle []))\<lparr>pcs := (\<lambda>t. H_idle (if t = 1 then [2] else []))\<rparr>"

definition remove_ops :: "hz_op list" where
  "remove_ops = [Collect_op 0, Delete 2]"

definition remove_race :: "event list" where
  "remove_race = Call 0 0 # replicate 17 (Run 0) @ Call 1 1 # replicate 10 (Run 1) @ replicate 13 (Run 0)"

definition remove_after :: "event list" where
  "remove_after = Call 0 0 # replicate 12 (Run 0)"

section \<open>Delete looks at a node that is not its own any more\<close>

text \<open>
  Thread 1 retires object 77 and has put node 2 on the gc list. Thread 0 collects; thread 2 obtains node 2 and protects
  object 88. Then thread 1 makes the last assertion of \<^verbatim>\<open>Delete\<close>.
\<close>

definition assert_start :: "(hp_list, hz_pc) conf" where
  "assert_start = (start (after_run [New 2 0, Acquire 2 10, Write 10 99]
     (HazardPointerList_ctor 1 [10 \<mapsto> 77, 11 \<mapsto> 88])) (H_idle []))\<lparr>pcs := (\<lambda>t. H_idle (if t = 1 then [2] else []))\<rparr>"

definition assert_ops :: "hz_op list" where
  "assert_ops = [Delete 2, Collect_op 0, New 9 0, Acquire 2 11]"

definition assert_race :: "event list" where
  "assert_race = Call 1 0 # replicate 8 (Run 1) @ Call 0 1 # replicate 27 (Run 0) @ Call 2 2 # replicate 5 (Run 2) @
     Call 2 3 # replicate 3 (Run 2) @ [Run 1, Run 1]"

definition check_run :: "('s \<Rightarrow> bool) \<Rightarrow> 's option \<Rightarrow> bool" where
  "check_run P r = (case r of None \<Rightarrow> False | Some s \<Rightarrow> P s)"

lemma check_runD: "check_run P r \<Longrightarrow> \<exists>s. r = Some s \<and> P s"
  by (auto simp: check_run_def split: option.splits)

text \<open>
  C31: Calls that overlap break both guarantees. \<^verbatim>\<open>Collect\<close> deletes object 77 while node 2
  protects it, though the protecting thread stored its hazard pointer before the object was
  unlinked and retired; and \<^verbatim>\<open>AcquireNode\<close> hands out node 3 to thread 1 while thread 2
  holds it.
\<close>

theorem hp_overlapping_calls_unsafe:
  "(\<exists>s. hz_run collect_ops collect_start collect_race = Some s \<and> halted s = None \<and>
      held (mem s) 2 = Some 77 \<and> 77 \<in> set (deleted (mem s))) \<and>
   (\<exists>s. hz_run pop_ops pop_start pop_race = Some s \<and> halted s = None \<and>
      pcs s 1 = H_idle [3, 2] \<and> pcs s 2 = H_idle [3])"
proof (intro conjI check_runD [where P = "\<lambda>s. halted s = None \<and> held (mem s) 2 = Some 77 \<and> 77 \<in> set (deleted (mem s))"]
    check_runD [where P = "\<lambda>s. halted s = None \<and> pcs s 1 = H_idle [3, 2] \<and> pcs s 2 = H_idle [3]"])
  show "check_run (\<lambda>s. halted s = None \<and> held (mem s) 2 = Some 77 \<and> 77 \<in> set (deleted (mem s)))
      (hz_run collect_ops collect_start collect_race)"
    by code_simp
  show "check_run (\<lambda>s. halted s = None \<and> pcs s 1 = H_idle [3, 2] \<and> pcs s 2 = H_idle [3]) (hz_run pop_ops pop_start pop_race)"
    by code_simp
qed

text \<open>
  C32: \<^verbatim>\<open>Delete\<close> that overlaps \<^verbatim>\<open>Collect\<close> breaks the lists. When \<^verbatim>\<open>push\<close> falls between
  two reads of the head in \<^verbatim>\<open>remove\<close>, the collected node ends on the gc list and on the free list, the
  pushed node is on neither, so that its object is never deleted, and the next \<^verbatim>\<open>Collect\<close>
  fails an assertion. And the last assertion of \<^verbatim>\<open>Delete\<close> fails when the node has been collected
  and obtained by another thread.
\<close>

theorem hp_delete_collect_race:
  "(\<exists>s. hz_run remove_ops remove_start remove_race = Some s \<and> halted s = None \<and> pcs s 0 = H_idle [] \<and> pcs s 1 = H_idle [] \<and>
      gc_list (mem s) = 4 \<and> free_list (mem s) = 4 \<and> gcp (heap (mem s)) 2 = 77 \<and> nxt (heap (mem s)) 4 = end_node (mem s)) \<and>
   (\<exists>s. hz_run remove_ops remove_start (remove_race @ remove_after) = Some s \<and> halted s = Some (Assert_failed ''NULL != obj_ptr'')) \<and>
   (\<exists>s. hz_run assert_ops assert_start assert_race = Some s \<and> halted s = Some (Assert_failed ''pointer == NULL'') \<and>
      held (mem s) 2 = Some 88)"
proof (intro conjI check_runD)
  show "check_run (\<lambda>s. halted s = None \<and> pcs s 0 = H_idle [] \<and> pcs s 1 = H_idle [] \<and>
      gc_list (mem s) = 4 \<and> free_list (mem s) = 4 \<and> gcp (heap (mem s)) 2 = 77 \<and> nxt (heap (mem s)) 4 = end_node (mem s))
      (hz_run remove_ops remove_start remove_race)"
    by code_simp
  show "check_run (\<lambda>s. halted s = Some (Assert_failed ''NULL != obj_ptr'')) (hz_run remove_ops remove_start (remove_race @ remove_after))"
    by code_simp
  show "check_run (\<lambda>s. halted s = Some (Assert_failed ''pointer == NULL'') \<and> held (mem s) 2 = Some 88) (hz_run assert_ops assert_start assert_race)"
    by code_simp
qed

end
