(* ===== verification/Hazard_Complete.thy ===== *)
theory Hazard_Complete
  imports Hazard_Race
begin

text \<open>
  What does hold when calls on one \<^verbatim>\<open>HazardPointerList\<close> overlap: the complete set of nodes
  (\<^verbatim>\<open>src/src/HazardPointer.hpp\<close>, \<^verbatim>\<open>Add\<close>). Only \<open>Add\<close> changes it and only at the front, so in
  every interleaving it is a finite list that never loses a node.
\<close>

section \<open>Functions that leave the complete set alone\<close>

definition fixed_same :: "hp_list \<Rightarrow> hp_list \<Rightarrow> bool" where
  "fixed_same s s' \<longleftrightarrow> map_option fixed_link \<circ> heap s' = map_option fixed_link \<circ> heap s \<and> nodes s' = nodes s \<and> end_node s' = end_node s"

lemma fixed_same_refl [simp]: "fixed_same s s"
  by (simp add: fixed_same_def)

definition keeps_fixed :: "(hp_list, 'n, unit) action \<Rightarrow> bool" where
  "keeps_fixed a \<longleftrightarrow> (case a of Mem f \<Rightarrow> \<forall>s. fixed_same s (fst (f s)) | _ \<Rightarrow> True)"

lemma fixed_same_store:
  assumes "store upd a s = Ret s'" and "\<And>n. fixed_link (upd n) = fixed_link n"
  shows "fixed_same s s'"
  using assms by (auto simp: store_def fixed_same_def fun_eq_iff split: option.splits)

lemma fixed_stores:
  "store (next_node_update f) a s = Ret s' \<Longrightarrow> fixed_same s s'"
  "store (pointer_update f) a s = Ret s' \<Longrightarrow> fixed_same s s'"
  "store (gc_pointer_update f) a s = Ret s' \<Longrightarrow> fixed_same s s'"
  by (auto intro: fixed_same_store)

lemma keeps_fixed_atom:
  assumes "\<And>s n s'. g s = Ret (n, s') \<Longrightarrow> fixed_same s s'"
  shows "keeps_fixed (atom g)"
  using assms by (auto simp: keeps_fixed_def atom_def split: ctl.splits)

lemma keeps_fixed_via: "keeps_fixed a \<Longrightarrow> keeps_fixed (via at k a)"
  by (cases a) (auto simp: keeps_fixed_def via_def calls_def split_beta Let_def)

lemma keeps_fixed_calls: "keeps_fixed a \<Longrightarrow> keeps_fixed (calls at k a)"
  by (cases a) (auto simp: keeps_fixed_def calls_def split_beta Let_def)

lemma fixed_same_head: "fixed_same s (set_head lh a s)"
  by (cases lh) (simp_all add: fixed_same_def)

lemmas fixed_rules = bnd_Ret_iff check_Ret_iff fixed_same_head

lemma keeps_push: "keeps_fixed (push node lh p)"
  by (cases p) (auto intro!: keeps_fixed_atom simp: fixed_rules Let_def split_beta split: if_splits dest: fixed_stores)

lemma fixed_same_wr_link: "wr_link l v s = Ret s' \<Longrightarrow> fixed_same s s'"
  by (cases l) (auto simp: fixed_same_head dest: fixed_stores)

lemma keeps_remove: "keeps_fixed (remove node lh p)"
  by (cases p) (auto intro!: keeps_fixed_atom simp: fixed_rules Let_def split_beta split: if_splits dest: fixed_stores fixed_same_wr_link)

lemma keeps_pop: "keeps_fixed (pop lh p)"
  by (cases p) (auto intro!: keeps_fixed_atom simp: fixed_rules Let_def split_beta split: if_splits dest: fixed_stores)

lemma keeps_enqueue_free: "keeps_fixed (EnqueueFreeRecord node p)"
  by (cases p) (auto intro!: keeps_fixed_atom keeps_fixed_via keeps_push simp: fixed_rules)

lemma keeps_enqueue_gc: "keeps_fixed (EnqueueRecordForCollection node p)"
  by (cases p) (auto intro!: keeps_fixed_atom keeps_fixed_via keeps_push simp: fixed_rules fixed_same_def split: if_splits)

lemma keeps_node_Acquire: "keeps_fixed (node_Acquire node c p)"
  by (cases p) (auto intro!: keeps_fixed_atom simp: fixed_rules split: if_splits option.splits dest: fixed_stores)

lemma keeps_node_Clear: "keeps_fixed (node_Clear node p)"
  by (cases p) (auto intro!: keeps_fixed_atom simp: fixed_rules dest: fixed_stores)

lemma keeps_node_Release: "keeps_fixed (node_Release node p)"
  by (cases p) (auto intro!: keeps_fixed_atom keeps_fixed_via keeps_enqueue_free simp: fixed_rules split: if_splits dest: fixed_stores)

lemma keeps_node_Delete: "keeps_fixed (node_Delete node p)"
  by (cases p) (auto intro!: keeps_fixed_atom keeps_fixed_via keeps_enqueue_gc simp: fixed_rules split: if_splits dest: fixed_stores)

lemma keeps_Collect: "keeps_fixed (Collect_hp t p)"
  by (cases p) (auto intro!: keeps_fixed_atom keeps_fixed_via keeps_push keeps_remove simp: fixed_rules fixed_same_def
      split: if_splits option.splits prod.splits dest: fixed_stores [unfolded fixed_same_def])

section \<open>The invariant\<close>

text \<open>The node that a thread has allocated and is adding to the complete set.\<close>

fun adding :: "hz_pc \<Rightarrow> addr option" where
  "adding (H_in ns (P_new a j (AN_add p))) = Some a"
| "adding _ = None"

text \<open>\<open>complete N m P ns\<close>: the complete set is the list \<open>ns\<close>, and every thread in \<open>Add\<close> adds a node of its own,
  and there are no other nodes.\<close>

definition complete :: "nat \<Rightarrow> hp_list \<Rightarrow> (tid \<Rightarrow> hz_pc) \<Rightarrow> addr list \<Rightarrow> bool" where
  "complete N m P ns \<longleftrightarrow> chain (heap m) fixed_link (nodes m) ns (end_node m) \<and> distinct ns \<and> heap m (end_node m) \<noteq> None \<and>
     (\<forall>t<N. \<forall>a. adding (P t) = Some a \<longrightarrow> heap m a \<noteq> None \<and> a \<notin> set ns \<and> a \<noteq> end_node m) \<and>
     (\<forall>t<N. \<forall>u<N. \<forall>a. adding (P t) = Some a \<longrightarrow> adding (P u) = Some a \<longrightarrow> t = u) \<and>
     (\<forall>a. heap m a \<noteq> None \<longrightarrow> a \<in> set ns \<or> a = end_node m \<or> (\<exists>t<N. adding (P t) = Some a))"

lemma fixed_same_dom: "fixed_same m m' \<Longrightarrow> (heap m' a = None) = (heap m a = None)"
  unfolding fixed_same_def by (metis comp_apply option.map_disc_iff)

lemma complete_same:
  assumes "complete N m P ns" and f: "fixed_same m m'" and "adding q = adding (P t)"
  shows "complete N m' (P(t := q)) ns"
proof -
  have "chain (heap m') fixed_link (nodes m') ns (end_node m')"
    using assms(1) f chain_cong [of fixed_link "heap m'" "heap m"] by (simp add: complete_def fixed_same_def)
  moreover have "end_node m' = end_node m" using f by (simp add: fixed_same_def)
  moreover have "adding ((P(t := q)) u) = adding (P u)" for u
    using assms(3) by simp
  ultimately show ?thesis
    using assms(1) unfolding complete_def fixed_same_dom [OF f] by (simp del: fun_upd_apply)
qed

lemma calls_adding:
  assumes "calls at ret a = Mem f" and "f m = (m', Ret q)" and "\<And>x. adding (at x) = None" and "\<And>r. adding (ret r) = None"
  shows "adding q = None"
  using assms(1,2) by (rule calls_Mem_Ret) (use assms(3,4) in \<open>auto split: cont.splits\<close>)

text \<open>Steps other than those of \<open>Add\<close> and the allocation.\<close>

definition quiet :: "hz_pc \<Rightarrow> bool" where
  "quiet p \<longleftrightarrow> (\<forall>ns a j q. p = H_in ns (P_new a j q) \<longrightarrow> (\<exists>r. q = AN_pop r))"

lemma quiet_step:
  assumes "quiet p" and "hz_act ops p = Mem f" and "f m = (m', c)"
  shows "fixed_same m m' \<and> (\<forall>q. c = Ret q \<longrightarrow> adding q = None)"
proof -
  obtain ns x where p: "p = H_in ns x" using assms(2) by (cases p) auto
  have k: "keeps_fixed (hz_point_act ns x)"
  proof (cases x)
    case (P_new a j q)
    with assms(1) p obtain r where "q = AN_pop r" by (auto simp: quiet_def)
    with P_new show ?thesis by (auto intro!: keeps_fixed_calls keeps_fixed_via keeps_pop)
  next
    case (P_write c v)
    then show ?thesis by (simp add: keeps_fixed_def fixed_same_def)
  qed (simp_all add: keeps_fixed_calls keeps_node_Acquire keeps_node_Clear keeps_node_Release keeps_node_Delete keeps_Collect)
  have "fixed_same m (fst (f m))" using k assms(2) p by (simp add: keeps_fixed_def)
  moreover have "adding q = None" if "c = Ret q" for q
  proof -
    have f: "hz_point_act ns x = Mem f" "f m = (m', Ret q)" using assms(2,3) p that by simp_all
    show ?thesis
    proof (cases x)
      case (P_new a j r)
      with assms(1) p obtain r' where "r = AN_pop r'" by (auto simp: quiet_def)
      then have "calls (\<lambda>q. H_in ns (P_new a j (AN_pop q))) (\<lambda>n. H_in ns (P_new a j (AN_test n))) (pop Free r') = Mem f"
        using f(1) P_new by (simp add: calls_via)
      then show ?thesis using f(2) by (rule calls_adding) simp_all
    qed (use f in \<open>auto elim!: calls_adding\<close>)
  qed
  ultimately show ?thesis using assms(3) by simp
qed

text \<open>The allocation and the two steps of \<open>Add\<close>, with an address from \<^verbatim>\<open>new\<close> that is not in use.\<close>

fun fresh_alloc :: "hp_list \<Rightarrow> hz_pc \<Rightarrow> bool" where
  "fresh_alloc m (H_in ns (P_new a j (AN_test n))) = (n = end_node m \<longrightarrow> heap m a = None)"
| "fresh_alloc m _ = True"

lemma complete_new:
  assumes c: "complete N m P ns" and t: "t < N" and a: "heap m a = None" and q: "adding (P t) = None" "adding q = Some a"
  shows "complete N (new_node a j m) (P(t := q)) ns"
proof -
  have ch: "chain (heap m) fixed_link (nodes m) ns (end_node m)" and e: "heap m (end_node m) \<noteq> None"
    and ad: "\<And>u b. u < N \<Longrightarrow> adding (P u) = Some b \<Longrightarrow> heap m b \<noteq> None \<and> b \<notin> set ns \<and> b \<noteq> end_node m"
    and un: "\<And>u v b. u < N \<Longrightarrow> v < N \<Longrightarrow> adding (P u) = Some b \<Longrightarrow> adding (P v) = Some b \<Longrightarrow> u = v"
    using c unfolding complete_def by blast+
  have "a \<notin> set ns" "a \<noteq> end_node m" using chain_dom [OF ch] a e by auto
  moreover have "adding (P u) \<noteq> Some a" if "u < N" for u using ad [OF that] a by blast
  moreover have "b \<in> set ns \<or> b = end_node m \<or> (\<exists>u<N. adding ((P(t := q)) u) = Some b)" if "heap (new_node a j m) b \<noteq> None" for b
  proof (cases "b = a")
    case True
    with q t show ?thesis by (intro disjI2 exI [of _ t]) simp
  next
    case False
    with that have "heap m b \<noteq> None" by (simp add: new_node_def)
    then consider "b \<in> set ns" | "b = end_node m" | u where "u < N" "adding (P u) = Some b" using c unfolding complete_def by blast
    then show ?thesis using q by cases (auto intro!: exI [of _ u for u])
  qed
  ultimately show ?thesis
    using ch c e q ad un unfolding complete_def by (simp add: new_node_def chain_upd_other) blast
qed

lemma complete_link:
  assumes c: "complete N m P ns" and t: "t < N" and a: "adding (P t) = Some a" "heap m a = Some n" and q: "adding q = Some a"
  shows "complete N (m\<lparr>heap := (heap m)(a \<mapsto> n\<lparr>fixed_link := v\<rparr>)\<rparr>) (P(t := q)) ns"
proof -
  have na: "a \<notin> set ns" "a \<noteq> end_node m" using c t a(1) unfolding complete_def by blast+
  have sub: "adding ((P(t := q)) u) = adding (P u)" for u
    using a(1) q by simp
  have "chain ((heap m)(a \<mapsto> n\<lparr>fixed_link := v\<rparr>)) fixed_link (nodes m) ns (end_node m)"
    using c na by (simp add: complete_def chain_upd_other)
  moreover have "((heap m)(a \<mapsto> n\<lparr>fixed_link := v\<rparr>)) b \<noteq> None \<longleftrightarrow> heap m b \<noteq> None" for b using a(2) by simp
  ultimately show ?thesis using c sub unfolding complete_def by (simp del: fun_upd_apply)
qed

lemma complete_added:
  assumes c: "complete N m P ns" and t: "t < N" and a: "adding (P t) = Some a" "heap m a = Some n" "fixed_link n = nodes m"
    and q: "adding q = None"
  shows "complete N (m\<lparr>nodes := a\<rparr>) (P(t := q)) (a # ns)"
proof -
  have na: "a \<notin> set ns" "a \<noteq> end_node m" using c t a(1) unfolding complete_def by blast+
  have other: "adding (P u) = Some b \<and> (u < N \<longrightarrow> b \<noteq> a)" if "adding ((P(t := q)) u) = Some b" for u b
    using that q c t a(1) unfolding complete_def by (auto split: if_splits)
  have "\<exists>u<N. adding ((P(t := q)) u) = Some b" if "u < N" "adding (P u) = Some b" "b \<noteq> a" for u b
    using that a(1) by (intro exI [of _ u]) auto
  then have all: "b \<in> set (a # ns) \<or> b = end_node m \<or> (\<exists>u<N. adding ((P(t := q)) u) = Some b)" if "heap m b \<noteq> None" for b
    using c that unfolding complete_def by (metis list.set_intros)
  have "chain (heap m) fixed_link a (a # ns) (end_node m)" using c a(2,3) na by (simp add: complete_def)
  then show ?thesis using c na all other unfolding complete_def by (simp del: fun_upd_apply)
qed

lemma add_step:
  assumes c: "complete N m P ns" and t: "t < N" and p: "P t = H_in hs (P_new a j r)" and r: "\<And>x. r \<noteq> AN_pop x"
    and f: "fresh_alloc m (P t)" and act: "hz_act ops (P t) = Mem g" and g: "g m = (m', Ret q)"
  shows "complete N m' (P(t := q)) ns \<or> complete N m' (P(t := q)) (a # ns)"
proof (cases r)
  case (AN_test n)
  show ?thesis
  proof (cases "n = end_node m")
    case True
    then have a: "heap m a = None" using f p AN_test by simp
    from True act g p AN_test have "m' = new_node a j m" "q = H_in hs (P_new a j (AN_add AD_read))"
      by (auto simp: calls_atom)
    with complete_new [OF c t a, of q j] p AN_test show ?thesis by simp
  next
    case False
    with act g p AN_test have "m' = m" "q = H_idle (n # hs)" by (auto simp: calls_atom)
    with complete_same [OF c, of m q t] p AN_test show ?thesis by simp
  qed
next
  case (AN_add x)
  have ad: "adding (P t) = Some a" using p AN_add by simp
  then obtain n where n: "heap m a = Some n" using c t unfolding complete_def by blast
  show ?thesis
  proof (cases x)
    case AD_read
    with act g p AN_add n have "m' = m\<lparr>heap := (heap m)(a \<mapsto> n\<lparr>fixed_link := nodes m\<rparr>)\<rparr>" "q = H_in hs (P_new a j (AN_add AD_cas))"
      by (auto simp: calls_atom via_atom)
    with complete_link [OF c t ad n, of q "nodes m"] show ?thesis by simp
  next
    case AD_cas
    show ?thesis
    proof (cases "nodes m = fixed_link n")
      case True
      with AD_cas act g p AN_add n have "m' = m\<lparr>nodes := a\<rparr>" "q = H_idle (a # hs)"
        by (auto simp: calls_atom via_atom atomics)
      with complete_added [OF c t ad n, of q] True show ?thesis by simp
    next
      case False
      with AD_cas act g p AN_add n have "m' = m\<lparr>heap := (heap m)(a \<mapsto> n\<lparr>fixed_link := nodes m\<rparr>)\<rparr>" "q = H_in hs (P_new a j (AN_add AD_read))"
        by (auto simp: calls_atom via_atom atomics)
      with complete_link [OF c t ad n, of q "nodes m"] show ?thesis by simp
    qed
  qed
qed (use r in auto)

section \<open>Every interleaving\<close>

text \<open>No function blocks in the kernel.\<close>

definition is_mem :: "('m, 'n, 'c) action \<Rightarrow> bool" where
  "is_mem a \<longleftrightarrow> (case a of Mem _ \<Rightarrow> True | _ \<Rightarrow> False)"

lemma is_mem_simps [simp]: "is_mem (atom g)" "is_mem (Mem f)" "is_mem (calls at ret a) = is_mem a" "is_mem (via at k a) = is_mem a"
  by (cases a; simp add: is_mem_def atom_def calls_def via_def)+

lemma is_mem_lists: "is_mem (push node lh p1)" "is_mem (remove node lh p2)" "is_mem (pop lh p3)" "is_mem (Add node p4)"
proof -
  show "is_mem (push node lh p1)" by (cases p1) simp_all
  show "is_mem (remove node lh p2)" by (cases p2) simp_all
  show "is_mem (pop lh p3)" by (cases p3) simp_all
  show "is_mem (Add node p4)" by (cases p4) simp_all
qed

lemma is_mem_enqueue: "is_mem (EnqueueFreeRecord node p)" "is_mem (EnqueueRecordForCollection node q)" "is_mem (AcquireNode a j r)"
proof -
  show "is_mem (EnqueueFreeRecord node p)" by (cases p) (simp_all add: is_mem_lists)
  show "is_mem (EnqueueRecordForCollection node q)" by (cases q) (simp_all add: is_mem_lists)
  show "is_mem (AcquireNode a j r)" by (cases r) (simp_all add: is_mem_lists)
qed

lemma is_mem_point: "is_mem (hz_point_act ns x)"
proof (cases x)
  case (P_acquire n c p)
  then show ?thesis by (cases p) simp_all
next
  case (P_clear n p)
  then show ?thesis by (cases p) simp_all
next
  case (P_release n p)
  then show ?thesis by (cases p) (simp_all add: is_mem_enqueue)
next
  case (P_delete n p)
  then show ?thesis by (cases p) (simp_all add: is_mem_enqueue)
next
  case (P_collect t p)
  then show ?thesis by (cases p) (simp_all add: is_mem_lists)
qed (simp_all add: is_mem_enqueue)

lemma mem_point: "\<exists>f. hz_point_act ns x = Mem f"
  using is_mem_point [of ns x] by (simp add: is_mem_def split: action.splits)

lemma hz_no_futex: "hz_act ops p \<noteq> Wait c v k" "hz_act ops p \<noteq> Wake c n k'"
proof -
  have "(\<exists>f. hz_act ops p = Mem f) \<or> (\<exists>ps. hz_act ops p = Client ps)" using mem_point by (cases p) simp_all
  then show "hz_act ops p \<noteq> Wait c v k" "hz_act ops p \<noteq> Wake c n k'" by auto
qed

definition hz_step :: "nat \<Rightarrow> hz_op list \<Rightarrow> (hp_list, hz_pc) conf \<Rightarrow> (hp_list, hz_pc) conf \<Rightarrow> bool" where
  "hz_step N ops s s' \<longleftrightarrow> (\<exists>ev. exec fifo_wake N (hz_act ops) (\<lambda>_ _. 0) s ev = Some s' \<and>
     (\<forall>t. ev = Run t \<longrightarrow> fresh_alloc (mem s) (pcs s t)))"

lemma complete_step:
  assumes c: "complete N (mem s) (pcs s) ns" and st: "hz_step N ops s s'"
  shows "\<exists>zs. complete N (mem s') (pcs s') (zs @ ns)"
proof -
  obtain ev where e: "exec fifo_wake N (hz_act ops) (\<lambda>_ _. 0) s ev = Some s'"
    and fr: "\<And>t. ev = Run t \<Longrightarrow> fresh_alloc (mem s) (pcs s t)" using st by (auto simp: hz_step_def)
  show ?thesis
  proof (cases ev)
    case (Run t)
    have t: "t < N" using e Run by (auto split: if_splits)
    obtain f where f: "hz_act ops (pcs s t) = Mem f" using e Run by (auto simp: hz_no_futex split: if_splits action.splits)
    obtain m' x where m': "f (mem s) = (m', x)" by fastforce
    have s': "s' = goto t x (s\<lparr>mem := m'\<rparr>)" using e Run f m' by (auto split: if_splits)
    show ?thesis
    proof (cases "quiet (pcs s t)")
      case True
      note q = quiet_step [OF True f m']
      have n: "adding (pcs s t) = None" using True by (cases "pcs s t" rule: adding.cases) (auto simp: quiet_def)
      show ?thesis
      proof (cases x)
        case (Ret r)
        with q n complete_same [OF c, of m' r t] s' show ?thesis by (intro exI [of _ "[]"]) simp
      next
        case (Stop y)
        with q complete_same [OF c, of m' "pcs s t" t] s' show ?thesis by (intro exI [of _ "[]"]) simp
      qed
    next
      case False
      then obtain hs a j r where r: "pcs s t = H_in hs (P_new a j r)" "\<And>y. r \<noteq> AN_pop y" by (auto simp: quiet_def)
      show ?thesis
      proof (cases x)
        case (Ret y)
        from add_step [OF c t r fr [OF Run] f] m' Ret s' show ?thesis
          by (auto intro: exI [of _ "[]"] exI [of _ "[a]"])
      next
        case (Stop y)
        have "m' = mem s"
        proof (cases r)
          case (AN_add z)
          with Stop f m' r(1) show ?thesis by (cases z) (auto simp: calls_atom via_atom split: ctl.splits prod.splits)
        qed (use Stop f m' r in \<open>auto simp: calls_atom split: ctl.splits prod.splits if_splits\<close>)
        with c Stop s' show ?thesis by (intro exI [of _ "[]"]) simp
      qed
    qed
  next
    case (Call t i)
    obtain hs op where "pcs s t = H_idle hs" "s' = goto t (Ret (H_in hs (hz_enter op))) s"
    proof (cases "pcs s t")
      case (H_idle hs)
      with e Call that show ?thesis by (auto split: if_splits)
    next
      case (H_in hs x)
      with e Call mem_point [of hs x] show ?thesis by (auto split: if_splits)
    qed
    moreover have "adding (H_in hs (hz_enter op)) = None" by (cases op) simp_all
    ultimately show ?thesis
      using complete_same [OF c fixed_same_refl, of "H_in hs (hz_enter op)" t] by (intro exI [of _ "[]"]) simp
  qed (use e in \<open>auto simp: hz_no_futex split: if_splits action.splits\<close>)
qed

lemma complete_run:
  assumes "reach s (hz_step N ops) s'" and "complete N (mem s) (pcs s) ns"
  shows "\<exists>zs. complete N (mem s') (pcs s') (zs @ ns)"
  using assms
proof (induction rule: reach.induct)
  case reach_init
  then show ?case by (intro exI [of _ "[]"]) simp
next
  case (reach_step t u)
  then obtain zs where "complete N (mem t) (pcs t) (zs @ ns)" by blast
  from complete_step [OF this reach_step.hyps(2)] obtain ys where "complete N (mem u) (pcs u) ((ys @ zs) @ ns)" by auto
  then show ?case by blast
qed

text \<open>
  C26: The complete set in every interleaving of any number of threads on one list, whatever the
  calls, assertion failures included: following \<^verbatim>\<open>fixed_link\<close> from \<^verbatim>\<open>nodes\<close> gives a finite list
  without repetition that ends at the end node; from one moment to any later one it only grows at
  the front; and it contains every node that has been allocated, but for those whose thread is inside
  \<^verbatim>\<open>Add\<close>. (\<^verbatim>\<open>new\<close> returns unused addresses.)
\<close>

theorem hp_complete_set_grows:
  assumes "reach (start (HazardPointerList_ctor e mc) (H_idle [])) (hz_step N ops) s" and "reach s (hz_step N ops) s'"
  shows "\<exists>ns zs. chain (heap (mem s)) fixed_link (nodes (mem s)) ns (end_node (mem s)) \<and>
    chain (heap (mem s')) fixed_link (nodes (mem s')) (zs @ ns) (end_node (mem s')) \<and> distinct (zs @ ns) \<and>
    (\<forall>a. heap (mem s) a \<noteq> None \<longrightarrow> a \<in> set ns \<or> a = end_node (mem s) \<or> (\<exists>t<N. adding (pcs s t) = Some a))"
proof -
  have "complete N (mem (start (HazardPointerList_ctor e mc) (H_idle []))) (pcs (start (HazardPointerList_ctor e mc) (H_idle []))) []"
    by (simp add: complete_def HazardPointerList_ctor_def init_def)
  then obtain ns where ns: "complete N (mem s) (pcs s) ns"
    using assms(1) complete_run [of _ N ops s] by blast
  with assms(2) complete_run [of s N ops s' ns] obtain zs where zs: "complete N (mem s') (pcs s') (zs @ ns)" by blast
  show ?thesis using ns zs unfolding complete_def by blast
qed

fun fresh_run :: "nat \<Rightarrow> hz_op list \<Rightarrow> (hp_list, hz_pc) conf \<Rightarrow> event list \<Rightarrow> (hp_list, hz_pc) conf option" where
  "fresh_run N ops s [] = Some s"
| "fresh_run N ops s (ev # evs) =
     (if (case ev of Run t \<Rightarrow> fresh_alloc (mem s) (pcs s t) | _ \<Rightarrow> True)
      then case exec fifo_wake N (hz_act ops) (\<lambda>_ _. 0) s ev of None \<Rightarrow> None | Some s' \<Rightarrow> fresh_run N ops s' evs
      else None)"

lemma fresh_run_reach:
  assumes "fresh_run N ops s evs = Some s'" and "reach s0 (hz_step N ops) s"
  shows "reach s0 (hz_step N ops) s'"
  using assms
proof (induction evs arbitrary: s)
  case (Cons ev evs)
  then obtain s1 where "exec fifo_wake N (hz_act ops) (\<lambda>_ _. 0) s ev = Some s1" "fresh_run N ops s1 evs = Some s'"
    "\<And>t. ev = Run t \<Longrightarrow> fresh_alloc (mem s) (pcs s t)"
    by (cases ev) (auto split: if_splits option.splits)
  moreover from this have "hz_step N ops s s1" by (auto simp: hz_step_def)
  ultimately show ?case using Cons.IH Cons.prems(2) reach_step by metis
qed simp

text \<open>Two threads that add a node at the same time; the compare-and-exchange of thread 1 fails once.\<close>

definition add_first :: "event list" where
  "add_first = Call 0 0 # replicate 3 (Run 0) @ Call 1 1 # replicate 5 (Run 1) @ replicate 3 (Run 0)"

definition add_second :: "event list" where
  "add_second = replicate 3 (Run 1)"

definition adders :: "(hp_list, hz_pc) conf \<Rightarrow> event list \<Rightarrow> (hp_list, hz_pc) conf option" where
  "adders = fresh_run 2 [New 2 0, New 3 0]"

theorem hp_complete_set_grows_witness:
  "\<exists>s s' ns zs. adders (start (HazardPointerList_ctor 1 Map.empty) (H_idle [])) add_first = Some s \<and> adders s add_second = Some s' \<and>
    nodes (mem s) = 2 \<and> nodes (mem s') = 3 \<and> chain (heap (mem s)) fixed_link (nodes (mem s)) ns (end_node (mem s)) \<and>
    chain (heap (mem s')) fixed_link (nodes (mem s')) (zs @ ns) (end_node (mem s'))"
proof -
  have "check_run (\<lambda>s. nodes (mem s) = 2 \<and> check_run (\<lambda>s'. nodes (mem s') = 3) (adders s add_second))
      (adders (start (HazardPointerList_ctor 1 Map.empty) (H_idle [])) add_first)"
    by code_simp
  from check_runD [OF this] obtain s where s: "adders (start (HazardPointerList_ctor 1 Map.empty) (H_idle [])) add_first = Some s"
      "nodes (mem s) = 2" "check_run (\<lambda>s'. nodes (mem s') = 3) (adders s add_second)"
    by (elim exE conjE)
  from check_runD [OF s(3)] obtain s' where s': "adders s add_second = Some s'" "nodes (mem s') = 3"
    by (elim exE conjE)
  have r: "reach (start (HazardPointerList_ctor 1 Map.empty) (H_idle [])) (hz_step 2 [New 2 0, New 3 0]) s"
    by (rule fresh_run_reach [OF s(1) [unfolded adders_def] reach_init])
  have "reach s (hz_step 2 [New 2 0, New 3 0]) s'"
    by (rule fresh_run_reach [OF s'(1) [unfolded adders_def] reach_init])
  from hp_complete_set_grows [OF r this] obtain ns zs where "chain (heap (mem s)) fixed_link (nodes (mem s)) ns (end_node (mem s))"
      "chain (heap (mem s')) fixed_link (nodes (mem s')) (zs @ ns) (end_node (mem s'))"
    by (elim exE conjE)
  with s(1,2) s' show ?thesis by (intro exI conjI)
qed

end
