(* ===== verification/Hazard_Discipline.thy ===== *)
theory Hazard_Discipline
  imports Hazard_Complete
begin

text \<open>
  Threads that use one \<^verbatim>\<open>HazardPointerList\<close> (\<^verbatim>\<open>src/src/HazardPointer.hpp\<close>) at the same time and
  avoid the two overlaps that theory \<open>Hazard_Race\<close> shows to be unsafe: no two threads are in the
  \<^verbatim>\<open>pop\<close> of \<^verbatim>\<open>AcquireNode\<close> at once, and \<^verbatim>\<open>Delete\<close> does not overlap \<^verbatim>\<open>Collect\<close>. Everything else may
  overlap at every access, several calls of \<^verbatim>\<open>Collect\<close> included, which the mutex of the list
  keeps apart. This theory has the rules for the callers and the invariant of the three lists and
  of the threads; theory \<open>Hazard_Guarded\<close> has what follows for the objects.
\<close>

section \<open>Where a thread is\<close>

fun popping :: "hz_pc \<Rightarrow> bool" where
  "popping (H_in hs (P_new a j (AN_pop q))) = True"
| "popping _ = False"

fun deleting :: "hz_pc \<Rightarrow> bool" where
  "deleting (H_in hs (P_delete n q)) = True"
| "deleting _ = False"

fun collecting_hp :: "hz_pc \<Rightarrow> bool" where
  "collecting_hp (H_in hs (P_collect c q)) = True"
| "collecting_hp _ = False"

fun locked :: "hz_pc \<Rightarrow> bool" where
  "locked (H_in hs (P_collect c q)) = (q \<noteq> CO_test \<and> q \<noteq> CO_lock)"
| "locked _ = False"

text \<open>The node whose object \<^verbatim>\<open>Collect\<close> has taken and which is still on the gc list.\<close>

fun clearing_col :: "collect_pc \<Rightarrow> addr option" where
  "clearing_col (CO_gc_delete g x obj) = Some g"
| "clearing_col (CO_gc_remove g x p) = (if p = RM_clear then None else Some g)"
| "clearing_col _ = None"

fun clearing :: "hz_pc \<Rightarrow> addr option" where
  "clearing (H_in hs (P_collect c q)) = clearing_col q"
| "clearing _ = None"

text \<open>
  The nodes that belong to a thread, with \<open>e\<close> the end node: those it has obtained, one that it has just popped or
  allocated or taken off the gc list, and not one that its \<^verbatim>\<open>Delete\<close> has queued.
\<close>

fun extra_new :: "addr \<Rightarrow> addr \<Rightarrow> acquire_node_pc \<Rightarrow> addr set" where
  "extra_new e a (AN_pop (PO_clear n)) = {n}"
| "extra_new e a (AN_pop q) = {}"
| "extra_new e a (AN_test n) = (if n = e then {} else {n})"
| "extra_new e a (AN_add q) = {a}"

fun extra_col :: "collect_pc \<Rightarrow> addr set" where
  "extra_col (CO_gc_remove g x p) = (if p = RM_clear then {g} else {})"
| "extra_col (CO_gc_check g x) = {g}"
| "extra_col (CO_gc_free g x p) = {g}"
| "extra_col _ = {}"

fun queued :: "addr \<Rightarrow> delete_pc \<Rightarrow> addr set" where
  "queued n (DE_enqueue p) = (if p = EC_signal then {n} else {})"
| "queued n DE_check2 = {n}"
| "queued n _ = {}"

fun owns :: "addr \<Rightarrow> hz_pc \<Rightarrow> addr set" where
  "owns e (H_idle hs) = set hs"
| "owns e (H_in hs x) = (case x of
       P_new a j q \<Rightarrow> set hs \<union> extra_new e a q
     | P_delete n q \<Rightarrow> set hs - queued n q
     | P_collect c q \<Rightarrow> set hs \<union> extra_col q
     | _ \<Rightarrow> set hs)"

section \<open>What holds at each point\<close>

text \<open>A node in nobody's queue that waits for nothing.\<close>

definition plain :: "(addr \<rightharpoonup> node) \<Rightarrow> addr \<Rightarrow> bool" where
  "plain h a \<longleftrightarrow> nxt h a = NULL \<and> gcp h a = NULL"

fun loc_push :: "(addr \<rightharpoonup> node) \<Rightarrow> addr \<Rightarrow> push_pc \<Rightarrow> bool" where
  "loc_push h a PU_check = (nxt h a = NULL)"
| "loc_push h a _ = True"

fun loc_new :: "(addr \<rightharpoonup> node) \<Rightarrow> addr \<Rightarrow> addr list \<Rightarrow> addr \<Rightarrow> acquire_node_pc \<Rightarrow> bool" where
  "loc_new h e fs a (AN_pop PO_head) = True"
| "loc_new h e fs a (AN_pop (PO_next n)) = (n = e \<or> n \<in> set fs)"
| "loc_new h e fs a (AN_pop (PO_cas n d)) = (n = e \<and> d = e \<or> n \<in> set fs \<and> nxt h n = d)"
| "loc_new h e fs a (AN_pop (PO_clear n)) = (n \<noteq> e \<and> gcp h n = NULL)"
| "loc_new h e fs a (AN_test n) = (n = e \<or> plain h n)"
| "loc_new h e fs a (AN_add q) = plain h a"

fun loc_release :: "(addr \<rightharpoonup> node) \<Rightarrow> addr \<Rightarrow> release_pc \<Rightarrow> bool" where
  "loc_release h n RE_check = plain h n"
| "loc_release h n RE_store = plain h n"
| "loc_release h n (RE_enqueue EF_check) = (plain h n \<and> ptr h n = NULL)"
| "loc_release h n (RE_enqueue (EF_push q)) = (gcp h n = NULL \<and> ptr h n = NULL \<and> loc_push h n q)"

fun loc_delete :: "(addr \<rightharpoonup> node) \<Rightarrow> addr list \<Rightarrow> addr \<Rightarrow> delete_pc \<Rightarrow> bool" where
  "loc_delete h gs n DE_check = plain h n"
| "loc_delete h gs n DE_load = (plain h n \<and> ptr h n \<noteq> NULL)"
| "loc_delete h gs n (DE_exchange v) = (plain h n \<and> v = ptr h n \<and> v \<noteq> NULL)"
| "loc_delete h gs n (DE_return old) = (old = NULL \<and> gcp h n \<noteq> NULL \<and> nxt h n = NULL)"
| "loc_delete h gs n (DE_enqueue EC_check) = (gcp h n \<noteq> NULL \<and> ptr h n = NULL \<and> nxt h n = NULL)"
| "loc_delete h gs n (DE_enqueue (EC_push q)) = (gcp h n \<noteq> NULL \<and> ptr h n = NULL \<and> loc_push h n q)"
| "loc_delete h gs n (DE_enqueue EC_signal) = (n \<in> set gs)"
| "loc_delete h gs n DE_check2 = (n \<in> set gs)"

text \<open>\<open>before m gs g l\<close>: the link \<open>l\<close> is the head of the gc list or a link of a node in front of \<open>g\<close>.\<close>

definition before :: "addr list \<Rightarrow> addr \<Rightarrow> link \<Rightarrow> bool" where
  "before gs g l \<longleftrightarrow> g \<in> set gs \<and> (l = Head Gc \<or> (\<exists>b. l = Next b \<and> b \<in> set (takeWhile (\<lambda>x. x \<noteq> g) gs)))"

fun loc_rem :: "hp_list \<Rightarrow> addr list \<Rightarrow> addr \<Rightarrow> remove_pc \<Rightarrow> bool" where
  "loc_rem m gs g (RM_test1 l) = before gs g l"
| "loc_rem m gs g (RM_test2 l) = (before gs g l \<and> rd_link l m \<noteq> Ret g)"
| "loc_rem m gs g (RM_advance l) = (before gs g l \<and> rd_link l m \<noteq> Ret g)"
| "loc_rem m gs g (RM_end l) = (before gs g l \<and> rd_link l m = Ret g)"
| "loc_rem m gs g (RM_expected l) = (before gs g l \<and> rd_link l m = Ret g)"
| "loc_rem m gs g (RM_desired l v) = (before gs g l \<and> rd_link l m = Ret g \<and> v = g)"
| "loc_rem m gs g (RM_cas l v d) = (before gs g l \<and> rd_link l m = Ret g \<and> v = g \<and> d = nxt (heap m) g)"
| "loc_rem m gs g RM_clear = True"

fun loc_col :: "hp_list \<Rightarrow> addr list \<Rightarrow> addr list \<Rightarrow> collect_pc \<Rightarrow> bool" where
  "loc_col m ns gs (CO_scan n) = (n = end_node m \<or> n \<in> set ns)"
| "loc_col m ns gs (CO_add n) = (n \<in> set ns)"
| "loc_col m ns gs (CO_link n) = (n \<in> set ns)"
| "loc_col m ns gs CO_gc = sorted (all_haz_ptrs m)"
| "loc_col m ns gs (CO_gc_next g) = ((g = end_node m \<or> g \<in> set gs) \<and> sorted (all_haz_ptrs m))"
| "loc_col m ns gs (CO_gc_object g x) = (g \<in> set gs \<and> nxt (heap m) g = x \<and> sorted (all_haz_ptrs m))"
| "loc_col m ns gs (CO_gc_search g x obj) = (g \<in> set gs \<and> nxt (heap m) g = x \<and> sorted (all_haz_ptrs m) \<and>
     obj = gcp (heap m) g \<and> obj \<noteq> NULL)"
| "loc_col m ns gs (CO_gc_clear g x obj) = (g \<in> set gs \<and> nxt (heap m) g = x \<and> sorted (all_haz_ptrs m) \<and>
     obj = gcp (heap m) g \<and> obj \<noteq> NULL \<and> obj \<notin> set (all_haz_ptrs m))"
| "loc_col m ns gs (CO_gc_delete g x obj) = (g \<in> set gs \<and> nxt (heap m) g = x \<and> sorted (all_haz_ptrs m) \<and>
     gcp (heap m) g = NULL)"
| "loc_col m ns gs (CO_gc_remove g x p) = (sorted (all_haz_ptrs m) \<and> gcp (heap m) g = NULL \<and> ptr (heap m) g = NULL \<and> loc_rem m gs g p \<and>
     (if p = RM_clear then x = end_node m \<or> x \<in> set gs else g \<in> set gs \<and> nxt (heap m) g = x))"
| "loc_col m ns gs (CO_gc_check g x) = (sorted (all_haz_ptrs m) \<and> (x = end_node m \<or> x \<in> set gs) \<and> plain (heap m) g \<and> ptr (heap m) g = NULL)"
| "loc_col m ns gs (CO_gc_free g x p) = (sorted (all_haz_ptrs m) \<and> (x = end_node m \<or> x \<in> set gs) \<and>
     gcp (heap m) g = NULL \<and> ptr (heap m) g = NULL \<and> loc_push (heap m) g p)"
| "loc_col m ns gs _ = True"

text \<open>The node that a call on it may have in another state than \<open>plain\<close>.\<close>

fun busy :: "hz_point \<Rightarrow> addr option" where
  "busy (P_release n q) = Some n"
| "busy (P_delete n q) = Some n"
| "busy _ = None"

fun loc_pt :: "hp_list \<Rightarrow> addr list \<Rightarrow> addr list \<Rightarrow> addr list \<Rightarrow> tid \<Rightarrow> addr list \<Rightarrow> hz_point \<Rightarrow> bool" where
  "loc_pt m ns gs fs t hs (P_new a j q) = (a \<noteq> NULL \<and> loc_new (heap m) (end_node m) fs a q)"
| "loc_pt m ns gs fs t hs (P_acquire n c q) = (n \<in> set hs \<and> cells m c \<noteq> None)"
| "loc_pt m ns gs fs t hs (P_clear n q) = (n \<in> set hs)"
| "loc_pt m ns gs fs t hs (P_release n q) = (n \<in> set hs \<and> loc_release (heap m) n q)"
| "loc_pt m ns gs fs t hs (P_delete n q) = (n \<in> set hs \<and> loc_delete (heap m) gs n q)"
| "loc_pt m ns gs fs t hs (P_collect c q) = (c = t \<and> extra_col q \<inter> set hs = {} \<and> loc_col m ns gs q)"
| "loc_pt m ns gs fs t hs (P_write c v) = True"

fun loc :: "hp_list \<Rightarrow> addr list \<Rightarrow> addr list \<Rightarrow> addr list \<Rightarrow> tid \<Rightarrow> hz_pc \<Rightarrow> bool" where
  "loc m ns gs fs t (H_idle hs) = (\<forall>a\<in>set hs. plain (heap m) a)"
| "loc m ns gs fs t (H_in hs x) = ((\<forall>a\<in>set hs. busy x \<noteq> Some a \<longrightarrow> plain (heap m) a) \<and> loc_pt m ns gs fs t hs x)"

section \<open>The invariant\<close>

definition glob :: "hp_list \<Rightarrow> addr list \<Rightarrow> addr list \<Rightarrow> bool" where
  "glob m gs fs \<longleftrightarrow> end_node m \<noteq> NULL \<and> heap m NULL = None \<and>
     heap m (end_node m) \<noteq> None \<and> ptr (heap m) (end_node m) = NULL \<and> nxt (heap m) (end_node m) = end_node m \<and>
     chain (heap m) next_node (gc_list m) gs (end_node m) \<and> chain (heap m) next_node (free_list m) fs (end_node m) \<and>
     distinct (gs @ fs) \<and>
     (\<forall>a\<in>set fs. ptr (heap m) a = NULL \<and> gcp (heap m) a = NULL) \<and> (\<forall>a\<in>set gs. ptr (heap m) a = NULL)"

definition own_ok :: "hp_list \<Rightarrow> addr list \<Rightarrow> addr list \<Rightarrow> addr \<Rightarrow> bool" where
  "own_ok m gs fs a \<longleftrightarrow> heap m a \<noteq> None \<and> a \<noteq> end_node m \<and> a \<notin> set gs \<and> a \<notin> set fs"

definition lock_ok :: "nat \<Rightarrow> hp_list \<Rightarrow> (tid \<Rightarrow> hz_pc) \<Rightarrow> bool" where
  "lock_ok N m P \<longleftrightarrow> (\<forall>t<N. locked (P t) \<longleftrightarrow> collector_client_lock m = Some (t, 1)) \<and>
     (\<forall>x. collector_client_lock m = Some x \<longrightarrow> (\<exists>t<N. x = (t, 1)))"

definition exclusion :: "nat \<Rightarrow> (tid \<Rightarrow> hz_pc) \<Rightarrow> bool" where
  "exclusion N P \<longleftrightarrow> (\<forall>t<N. \<forall>u<N. t \<noteq> u \<longrightarrow> \<not> (popping (P t) \<and> popping (P u))) \<and>
     (\<forall>t<N. \<forall>u<N. \<not> (deleting (P t) \<and> collecting_hp (P u)))"

definition dz :: "nat \<Rightarrow> hp_list \<Rightarrow> (tid \<Rightarrow> hz_pc) \<Rightarrow> addr list \<Rightarrow> addr list \<Rightarrow> addr list \<Rightarrow> bool" where
  "dz N m P ns gs fs \<longleftrightarrow> glob m gs fs \<and> (\<forall>t<N. loc m ns gs fs t (P t)) \<and>
     (\<forall>t<N. \<forall>a\<in>owns (end_node m) (P t). own_ok m gs fs a) \<and>
     (\<forall>t<N. \<forall>u<N. t \<noteq> u \<longrightarrow> owns (end_node m) (P t) \<inter> owns (end_node m) (P u) = {}) \<and>
     (\<forall>a\<in>set gs. gcp (heap m) a \<noteq> NULL \<or> (\<exists>t<N. clearing (P t) = Some a)) \<and>
     lock_ok N m P \<and> exclusion N P"


section \<open>What the other threads see\<close>

lemma chain_eq_on: "(\<And>a. a \<in> set xs \<Longrightarrow> h' a = h a) \<Longrightarrow> chain h' fld b xs e = chain h fld b xs e"
  by (induction xs arbitrary: b) auto

lemma field_eq: "h' a = h a \<Longrightarrow> ptr h' a = ptr h a" "h' a = h a \<Longrightarrow> gcp h' a = gcp h a" "h' a = h a \<Longrightarrow> nxt h' a = nxt h a"
  "h' a = h a \<Longrightarrow> plain h' a = plain h a"
  by (simp_all add: ptr_def gcp_def nxt_def plain_def)

text \<open>\<open>stable\<close>: a change of the memory and of the lists that a thread at \<open>p\<close> does not notice.\<close>

definition stable :: "hp_list \<Rightarrow> addr list \<Rightarrow> addr list \<Rightarrow> hp_list \<Rightarrow> addr list \<Rightarrow> addr list \<Rightarrow> hz_pc \<Rightarrow> bool" where
  "stable m gs fs m' gs' fs' p \<longleftrightarrow> end_node m' = end_node m \<and> (\<forall>c. cells m c \<noteq> None \<longrightarrow> cells m' c \<noteq> None) \<and>
     (\<forall>a\<in>owns (end_node m) p. heap m' a = heap m a \<and> a \<notin> set gs' \<and> a \<notin> set fs') \<and>
     (popping p \<longrightarrow> (\<forall>a\<in>set fs. a \<in> set fs' \<and> heap m' a = heap m a)) \<and>
     (locked p \<longrightarrow> gs' = gs \<and> gc_list m' = gc_list m \<and> (\<forall>a\<in>set gs. heap m' a = heap m a) \<and> all_haz_ptrs m' = all_haz_ptrs m) \<and>
     (deleting p \<longrightarrow> set gs \<subseteq> set gs')"

lemma loc_push_eq: "h' a = h a \<Longrightarrow> loc_push h' a q = loc_push h a q"
  by (cases q) (simp_all add: field_eq [of h' _ h])

lemma loc_new_stable:
  assumes "loc_new h e fs a q" and "\<And>x. x \<in> extra_new e a q \<Longrightarrow> h' x = h x"
    and "\<And>r x. q = AN_pop r \<Longrightarrow> x \<in> set fs \<Longrightarrow> x \<in> set fs' \<and> h' x = h x"
  shows "loc_new h' e fs' a q"
proof (cases q)
  case (AN_pop r)
  with assms show ?thesis by (cases r) (auto simp: field_eq [of h' _ h])
next
  case (AN_test n)
  with assms(1) assms(2) [of n] show ?thesis by (cases "n = e") (auto simp: field_eq [of h' n h])
qed (use assms in \<open>auto simp: field_eq [of h' _ h] split: if_splits\<close>)

lemma loc_release_stable: "loc_release h n q \<Longrightarrow> h' n = h n \<Longrightarrow> loc_release h' n q"
  by (cases "(h, n, q)" rule: loc_release.cases) (auto simp: field_eq [of h' _ h] loc_push_eq [of h' _ h])

lemma loc_delete_stable:
  assumes "loc_delete h gs n q" and "n \<notin> queued n q \<Longrightarrow> h' n = h n" and "set gs \<subseteq> set gs'"
  shows "loc_delete h' gs' n q"
  using assms by (cases "(h, gs, n, q)" rule: loc_delete.cases) (auto simp: field_eq [of h' _ h] loc_push_eq [of h' _ h])

lemma rd_link_eq:
  assumes "before gs g l" and "gc_list m' = gc_list m" and "\<And>a. a \<in> set gs \<Longrightarrow> heap m' a = heap m a"
  shows "rd_link l m' = rd_link l m"
  using assms by (auto simp: before_def load_def dest: set_takeWhileD)

lemma loc_rem_stable:
  assumes "loc_rem m gs g p" and "gc_list m' = gc_list m" and "\<And>a. a \<in> set gs \<Longrightarrow> heap m' a = heap m a"
  shows "loc_rem m' gs g p"
proof -
  have "before gs g l \<Longrightarrow> rd_link l m' = rd_link l m" for l using rd_link_eq assms(2,3) by blast
  moreover have "before gs g l \<Longrightarrow> nxt (heap m') g = nxt (heap m) g" for l
    using assms(3) by (simp add: before_def field_eq [of "heap m'" _ "heap m"])
  ultimately show ?thesis using assms(1) by (cases p) auto
qed

lemma loc_col_stable:
  assumes "loc_col m ns gs q" and "end_node m' = end_node m" and "all_haz_ptrs m' = all_haz_ptrs m" and "gc_list m' = gc_list m"
    and "\<And>a. a \<in> set gs \<Longrightarrow> heap m' a = heap m a" and "\<And>a. a \<in> extra_col q \<Longrightarrow> heap m' a = heap m a"
  shows "loc_col m' ns gs q"
  using assms loc_rem_stable [of m gs _ _ m']
  by (cases q) (auto simp: field_eq [of "heap m'" _ "heap m"] loc_push_eq [of "heap m'" _ "heap m"] split: if_splits)

lemma queued_self: "a \<in> queued n q \<Longrightarrow> a = n"
  by (cases q) (auto split: if_splits)

lemma loc_stable:
  assumes l: "loc m ns gs fs t p" and s: "stable m gs fs m' gs' fs' p"
  shows "loc m' ns gs' fs' t p"
proof (cases p)
  case (H_idle hs)
  with l s show ?thesis by (auto simp: stable_def field_eq [of "heap m'" _ "heap m"])
next
  case (H_in hs x)
  have own: "\<And>a. a \<in> owns (end_node m) p \<Longrightarrow> heap m' a = heap m a" and e: "end_node m' = end_node m" using s by (auto simp: stable_def)
  have "plain (heap m') a" if "a \<in> set hs" "busy x \<noteq> Some a" for a
  proof -
    have "a \<in> owns (end_node m) p" using that H_in queued_self by (cases x) auto
    with own l H_in that show ?thesis by (simp add: field_eq [of "heap m'" _ "heap m"])
  qed
  moreover have "loc_pt m' ns gs' fs' t hs x"
  proof (cases x)
    case (P_new a j q)
    with l H_in own s show ?thesis by (auto simp: e stable_def intro!: loc_new_stable [of "heap m" "end_node m" fs a q])
  next
    case (P_release n q)
    with l H_in own show ?thesis by (auto intro: loc_release_stable)
  next
    case (P_delete n q)
    with l H_in own s show ?thesis by (auto simp: stable_def intro!: loc_delete_stable [of "heap m" gs n q])
  next
    case (P_collect c q)
    show ?thesis
    proof (cases "locked p")
      case True
      with P_collect l H_in own s show ?thesis by (auto simp: stable_def intro!: loc_col_stable [of m ns gs q])
    next
      case False
      with P_collect H_in l show ?thesis by auto
    qed
  qed (use l H_in s in \<open>auto simp: stable_def\<close>)
  ultimately show ?thesis using H_in by simp
qed


section \<open>Kinds of steps\<close>

text \<open>The general form: thread \<open>t\<close> goes to \<open>q\<close>, and no other thread notices.\<close>

lemma exclusion_mono:
  assumes "exclusion N P" and "\<And>u. popping (Q u) \<Longrightarrow> popping (P u)" "\<And>u. deleting (Q u) \<Longrightarrow> deleting (P u)"
    "\<And>u. collecting_hp (Q u) \<Longrightarrow> collecting_hp (P u)"
  shows "exclusion N Q"
  using assms unfolding exclusion_def by blast

lemma dz_step:
  assumes d: "dz N m P ns gs fs" and t: "t < N" and g: "glob m' gs' fs'" and l: "loc m' ns gs' fs' t q"
    and o: "\<And>a. a \<in> owns (end_node m) q \<Longrightarrow> own_ok m' gs' fs' a"
    and dis: "\<And>u. u < N \<Longrightarrow> u \<noteq> t \<Longrightarrow> owns (end_node m) q \<inter> owns (end_node m) (P u) = {}"
    and st: "\<And>u. u < N \<Longrightarrow> u \<noteq> t \<Longrightarrow> stable m gs fs m' gs' fs' (P u)"
    and e: "end_node m' = end_node m"
    and cl: "\<And>a. a \<in> set gs' \<Longrightarrow> gcp (heap m') a \<noteq> NULL \<or> clearing q = Some a \<or> (\<exists>u<N. u \<noteq> t \<and> clearing (P u) = Some a)"
    and lk: "lock_ok N m' (P(t := q))"
    and fl: "popping q \<Longrightarrow> popping (P t)" "deleting q \<Longrightarrow> deleting (P t)" "collecting_hp q \<Longrightarrow> collecting_hp (P t)"
    and dom: "\<And>a. heap m a \<noteq> None \<Longrightarrow> heap m' a \<noteq> None"
  shows "dz N m' (P(t := q)) ns gs' fs'"
proof -
  have D: "\<And>u v. u < N \<Longrightarrow> v < N \<Longrightarrow> u \<noteq> v \<Longrightarrow> owns (end_node m) (P u) \<inter> owns (end_node m) (P v) = {}" and X: "exclusion N P"
    using d by (simp_all add: dz_def)
  have "loc m' ns gs' fs' u ((P(t := q)) u)" if "u < N" for u
    using l loc_stable [OF _ st [OF that], of ns u] d that by (cases "u = t") (auto simp: dz_def)
  moreover have "own_ok m' gs' fs' a" if "u < N" "a \<in> owns (end_node m) ((P(t := q)) u)" for u a
  proof (cases "u = t")
    case False
    with that have "own_ok m gs fs a" using d by (simp add: dz_def)
    then show ?thesis using st [OF that(1) False] False that dom [of a] e by (auto simp: stable_def own_ok_def)
  qed (use o that in auto)
  moreover have "owns (end_node m) ((P(t := q)) u) \<inter> owns (end_node m) ((P(t := q)) v) = {}" if "u < N" "v < N" "u \<noteq> v" for u v
    using that dis D by (cases "u = t"; cases "v = t") (simp_all add: Int_commute)
  moreover have "gcp (heap m') a \<noteq> NULL \<or> (\<exists>u<N. clearing ((P(t := q)) u) = Some a)" if "a \<in> set gs'" for a
    using cl [OF that] t by auto
  moreover have "exclusion N (P(t := q))"
    using fl by (intro exclusion_mono [OF X]) (auto split: if_splits)
  ultimately show ?thesis using g lk e unfolding dz_def by (simp del: fun_upd_apply)
qed

text \<open>A step that leaves the lists and the lock alone and writes at most to nodes of its thread.\<close>

lemma lock_ok_same:
  "lock_ok N m P \<Longrightarrow> collector_client_lock m' = collector_client_lock m \<Longrightarrow> locked q = locked (P t) \<Longrightarrow> lock_ok N m' (P(t := q))"
  by (simp add: lock_ok_def)

lemma dz_lists:
  assumes "dz N m P ns gs fs" and "t < N"
  shows "glob m gs fs" and "loc m ns gs fs t (P t)" and "a \<in> owns (end_node m) (P t) \<Longrightarrow> own_ok m gs fs a" and "lock_ok N m P"
    and "\<And>u. u < N \<Longrightarrow> u \<noteq> t \<Longrightarrow> locked (P t) \<Longrightarrow> \<not> locked (P u) \<and> \<not> deleting (P u)"
    and "\<And>u. u < N \<Longrightarrow> u \<noteq> t \<Longrightarrow> owns (end_node m) (P t) \<inter> owns (end_node m) (P u) = {}"
proof -
  show "glob m gs fs" "loc m ns gs fs t (P t)" "a \<in> owns (end_node m) (P t) \<Longrightarrow> own_ok m gs fs a" "lock_ok N m P"
    "\<And>u. u < N \<Longrightarrow> u \<noteq> t \<Longrightarrow> owns (end_node m) (P t) \<inter> owns (end_node m) (P u) = {}"
    using assms by (auto simp: dz_def)
  have c: "locked p \<Longrightarrow> collecting_hp p" for p by (cases p rule: locked.cases) auto
  show "\<not> locked (P u) \<and> \<not> deleting (P u)" if "u < N" "u \<noteq> t" "locked (P t)" for u
    using assms that c unfolding dz_def lock_ok_def exclusion_def by (metis option.inject prod.inject)
qed

lemma dz_keep:
  assumes d: "dz N m P ns gs fs" and t: "t < N"
    and h: "gc_list m' = gc_list m" "free_list m' = free_list m" "end_node m' = end_node m"
      "collector_client_lock m' = collector_client_lock m"
    and hp: "\<And>a. a \<notin> owns (end_node m) (P t) \<Longrightarrow> heap m' a = heap m a" "\<And>a. heap m a \<noteq> None \<Longrightarrow> heap m' a \<noteq> None"
    and hz: "all_haz_ptrs m' = all_haz_ptrs m \<or> locked (P t)" and c: "\<And>c. cells m c \<noteq> None \<Longrightarrow> cells m' c \<noteq> None"
    and q: "owns (end_node m) q = owns (end_node m) (P t)" "clearing q = clearing (P t)" "locked q = locked (P t)"
    and fl: "popping q \<Longrightarrow> popping (P t)" "deleting q \<Longrightarrow> deleting (P t)" "collecting_hp q \<Longrightarrow> collecting_hp (P t)"
    and l: "loc m' ns gs fs t q"
  shows "dz N m' (P(t := q)) ns gs fs"
proof -
  note dl = dz_lists [OF d t]
  have own: "a \<notin> owns (end_node m) (P t)" if "a \<in> set gs \<or> a \<in> set fs \<or> a = end_node m" for a
    using dl(3) [of a] that by (auto simp: own_ok_def)
  have eq: "heap m' a = heap m a" if "a \<in> set gs \<or> a \<in> set fs \<or> a = end_node m" for a using hp(1) own [OF that] .
  note fe = field_eq [of "heap m'" _ "heap m", OF eq]
  have "NULL \<notin> owns (end_node m) (P t)" using dl(1) dl(3) [of NULL] by (auto simp: glob_def own_ok_def)
  then have z: "heap m' NULL = heap m NULL" by (rule hp(1))
  have "chain (heap m') next_node b xs (end_node m) = chain (heap m) next_node b xs (end_node m)" if "set xs \<subseteq> set gs \<union> set fs" for b xs
    using that eq by (intro chain_eq_on) blast
  then have "glob m' gs fs" using dl(1) h z fe hp(2) unfolding glob_def by simp
  moreover have "own_ok m' gs fs a" if "a \<in> owns (end_node m) (P t)" for a
    using dl(3) [OF that] hp(2) [of a] h(3) by (auto simp: own_ok_def)
  moreover have "stable m gs fs m' gs fs (P u)" if u: "u < N" "u \<noteq> t" for u
  proof -
    have "heap m' a = heap m a \<and> a \<notin> set gs \<and> a \<notin> set fs" if "a \<in> owns (end_node m) (P u)" for a
      using dl(6) [OF u] that hp(1) [of a] dz_lists(3) [OF d u(1) that] by (auto simp: own_ok_def)
    then show ?thesis using h c eq hz dl(5) [OF u] by (auto simp: stable_def)
  qed
  moreover have "gcp (heap m') a \<noteq> NULL \<or> clearing q = Some a \<or> (\<exists>u<N. u \<noteq> t \<and> clearing (P u) = Some a)" if "a \<in> set gs" for a
    using d that fe(2) [of a] q(2) unfolding dz_def by metis
  ultimately show ?thesis
    using dl(6) [unfolded q(1) [symmetric]] l h(3) fl lock_ok_same [OF dl(4) h(4) q(3)] hp(2)
    by (intro dz_step [OF d t]) (simp_all add: q(1))
qed


lemma not_locked:
  assumes "dz N m P ns gs fs" and "t < N" and "u < N" and "deleting (P t)"
  shows "\<not> locked (P u)"
proof -
  have "locked p \<Longrightarrow> collecting_hp p" for p by (cases p rule: locked.cases) auto
  moreover have "exclusion N P" using assms(1) by (simp add: dz_def)
  ultimately show ?thesis using assms(2-) unfolding exclusion_def by blast
qed

lemma dz_others:
  assumes d: "dz N m P ns gs fs" and u: "u < N" and a: "a \<in> owns (end_node m) (P u)"
  shows "heap m a \<noteq> None" "a \<noteq> end_node m" "a \<notin> set gs" "a \<notin> set fs" "a \<noteq> NULL"
  using dz_lists(3) [OF d u a] dz_lists(1) [OF d u] by (auto simp: own_ok_def glob_def)

text \<open>A successful \<open>push\<close>.\<close>

lemma dz_push_free:
  assumes d: "dz N m P ns gs fs" and t: "t < N" and a: "a \<in> owns (end_node m) (P t)" "nxt (heap m) a = free_list m" "ptr (heap m) a = NULL"
      "gcp (heap m) a = NULL"
    and q: "owns (end_node m) q = owns (end_node m) (P t) - {a}" "clearing q = clearing (P t)" "locked q = locked (P t)"
    and fl: "popping q \<Longrightarrow> popping (P t)" "deleting q \<Longrightarrow> deleting (P t)" "collecting_hp q \<Longrightarrow> collecting_hp (P t)"
    and l: "loc (m\<lparr>free_list := a\<rparr>) ns gs (a # fs) t q"
  shows "dz N (m\<lparr>free_list := a\<rparr>) (P(t := q)) ns gs (a # fs)"
proof (rule dz_step [OF d t _ l])
  note dl = dz_lists [OF d t] and ao = dz_others [OF d t a(1)]
  show "glob (m\<lparr>free_list := a\<rparr>) gs (a # fs)"
    using dl(1) ao a by (auto simp: glob_def nxt_def split: option.splits)
  show "own_ok (m\<lparr>free_list := a\<rparr>) gs (a # fs) b" if "b \<in> owns (end_node m) q" for b
    using dl(3) [of b] that q(1) by (auto simp: own_ok_def)
  fix u assume u: "u < N" "u \<noteq> t"
  show "owns (end_node m) q \<inter> owns (end_node m) (P u) = {}" using dl(6) [OF u] q(1) by blast
  have "b \<noteq> a" if "b \<in> owns (end_node m) (P u)" for b using dl(6) [OF u] a(1) that by blast
  then show "stable m gs fs (m\<lparr>free_list := a\<rparr>) gs (a # fs) (P u)"
    using dz_others [OF d u(1)] by (auto simp: stable_def)
next
  fix b assume "b \<in> set gs"
  then show "gcp (heap (m\<lparr>free_list := a\<rparr>)) b \<noteq> NULL \<or> clearing q = Some b \<or> (\<exists>u<N. u \<noteq> t \<and> clearing (P u) = Some b)"
    using d q(2) unfolding dz_def by simp metis
next
  show "lock_ok N (m\<lparr>free_list := a\<rparr>) (P(t := q))" using lock_ok_same [OF dz_lists(4) [OF d t] _ q(3)] by simp
qed (use fl in simp_all)

lemma dz_push_gc:
  assumes d: "dz N m P ns gs fs" and t: "t < N" and del: "deleting (P t)"
    and a: "a \<in> owns (end_node m) (P t)" "nxt (heap m) a = gc_list m" "ptr (heap m) a = NULL" "gcp (heap m) a \<noteq> NULL"
    and q: "owns (end_node m) q = owns (end_node m) (P t) - {a}" "clearing q = clearing (P t)" "locked q = locked (P t)"
    and fl: "popping q \<Longrightarrow> popping (P t)" "collecting_hp q \<Longrightarrow> collecting_hp (P t)"
    and l: "loc (m\<lparr>gc_list := a\<rparr>) ns (a # gs) fs t q"
  shows "dz N (m\<lparr>gc_list := a\<rparr>) (P(t := q)) ns (a # gs) fs"
proof (rule dz_step [OF d t _ l])
  note dl = dz_lists [OF d t] and ao = dz_others [OF d t a(1)]
  show "glob (m\<lparr>gc_list := a\<rparr>) (a # gs) fs"
    using dl(1) ao a by (auto simp: glob_def nxt_def split: option.splits)
  show "own_ok (m\<lparr>gc_list := a\<rparr>) (a # gs) fs b" if "b \<in> owns (end_node m) q" for b
    using dl(3) [of b] that q(1) by (auto simp: own_ok_def)
  fix u assume u: "u < N" "u \<noteq> t"
  show "owns (end_node m) q \<inter> owns (end_node m) (P u) = {}" using dl(6) [OF u] q(1) by blast
  have "b \<noteq> a" if "b \<in> owns (end_node m) (P u)" for b using dl(6) [OF u] a(1) that by blast
  then show "stable m gs fs (m\<lparr>gc_list := a\<rparr>) (a # gs) fs (P u)"
    using dz_others [OF d u(1)] not_locked [OF d t u(1) del] by (auto simp: stable_def)
next
  fix b assume "b \<in> set (a # gs)"
  then show "gcp (heap (m\<lparr>gc_list := a\<rparr>)) b \<noteq> NULL \<or> clearing q = Some b \<or> (\<exists>u<N. u \<noteq> t \<and> clearing (P u) = Some b)"
    using d q(2) a(4) unfolding dz_def by simp metis
next
  show "lock_ok N (m\<lparr>gc_list := a\<rparr>) (P(t := q))" using lock_ok_same [OF dz_lists(4) [OF d t] _ q(3)] by simp
qed (use fl del in simp_all)

text \<open>A successful \<open>pop\<close> and the allocation of a node.\<close>

lemma dz_pop:
  assumes d: "dz N m P ns gs (n # fs)" and t: "t < N" and pop: "popping (P t)"
    and q: "owns (end_node m) q = insert n (owns (end_node m) (P t))" "clearing q = clearing (P t)" "locked q = locked (P t)"
    and fl: "deleting q \<Longrightarrow> deleting (P t)" "collecting_hp q \<Longrightarrow> collecting_hp (P t)"
    and l: "loc (m\<lparr>free_list := nxt (heap m) n\<rparr>) ns gs fs t q"
  shows "dz N (m\<lparr>free_list := nxt (heap m) n\<rparr>) (P(t := q)) ns gs fs"
proof (rule dz_step [OF d t _ l])
  note dl = dz_lists [OF d t]
  show "glob (m\<lparr>free_list := nxt (heap m) n\<rparr>) gs fs" using dl(1) by (auto simp: glob_def nxt_def)
  have n: "own_ok m gs fs n" using dl(1) by (auto simp: glob_def own_ok_def)
  show "own_ok (m\<lparr>free_list := nxt (heap m) n\<rparr>) gs fs b" if "b \<in> owns (end_node m) q" for b
    using dl(3) [of b] n that q(1) by (auto simp: own_ok_def)
  fix u assume u: "u < N" "u \<noteq> t"
  have "exclusion N P" using d by (simp add: dz_def)
  then have "\<not> popping (P u)" using t u pop unfolding exclusion_def by blast
  then show "stable m gs (n # fs) (m\<lparr>free_list := nxt (heap m) n\<rparr>) gs fs (P u)"
    using dz_others [OF d u(1)] by (auto simp: stable_def)
  show "owns (end_node m) q \<inter> owns (end_node m) (P u) = {}" using dl(6) [OF u] q(1) dz_others(4) [OF d u(1), of n] by auto
next
  fix b assume "b \<in> set gs"
  then show "gcp (heap (m\<lparr>free_list := nxt (heap m) n\<rparr>)) b \<noteq> NULL \<or> clearing q = Some b \<or> (\<exists>u<N. u \<noteq> t \<and> clearing (P u) = Some b)"
    using d q(2) unfolding dz_def by simp metis
next
  show "lock_ok N (m\<lparr>free_list := nxt (heap m) n\<rparr>) (P(t := q))" using lock_ok_same [OF dz_lists(4) [OF d t] _ q(3)] by simp
qed (use fl pop in simp_all)

lemma dz_alloc:
  assumes d: "dz N m P ns gs fs" and t: "t < N" and a: "heap m a = None" "a \<noteq> NULL"
    and q: "owns (end_node m) q = insert a (owns (end_node m) (P t))" "clearing q = clearing (P t)" "locked q = locked (P t)"
    and fl: "popping q \<Longrightarrow> popping (P t)" "deleting q \<Longrightarrow> deleting (P t)" "collecting_hp q \<Longrightarrow> collecting_hp (P t)"
    and l: "loc (new_node a j m) ns gs fs t q"
  shows "dz N (new_node a j m) (P(t := q)) ns gs fs"
proof (rule dz_step [OF d t _ l])
  note dl = dz_lists [OF d t]
  have out: "a \<notin> set gs" "a \<notin> set fs" "a \<noteq> end_node m"
    using dl(1) a(1) chain_dom [of "heap m" next_node "gc_list m" gs "end_node m"] chain_dom [of "heap m" next_node "free_list m" fs "end_node m"]
    by (auto simp: glob_def)
  show "glob (new_node a j m) gs fs"
    using dl(1) out a(2) by (simp add: glob_def new_node_def chain_upd_other)
  show "own_ok (new_node a j m) gs fs b" if "b \<in> owns (end_node m) q" for b
    using dl(3) [of b] out that q(1) by (auto simp: own_ok_def new_node_def)
  fix u assume u: "u < N" "u \<noteq> t"
  have au: "a \<notin> owns (end_node m) (P u)" using dz_others(1) [OF d u(1)] a(1) by blast
  then show "owns (end_node m) q \<inter> owns (end_node m) (P u) = {}" using dl(6) [OF u] q(1) by auto
  show "stable m gs fs (new_node a j m) gs fs (P u)"
    using au out dz_others [OF d u(1)] by (auto simp: stable_def new_node_def)
next
  fix b assume "b \<in> set gs"
  moreover have "gcp (heap (new_node a j m)) b = gcp (heap m) b" if "b \<in> set gs"
    using that dz_lists(1) [OF d t] a(1) chain_dom [of "heap m" next_node "gc_list m" gs "end_node m"] by (auto simp: new_node_def glob_def)
  ultimately show "gcp (heap (new_node a j m)) b \<noteq> NULL \<or> clearing q = Some b \<or> (\<exists>u<N. u \<noteq> t \<and> clearing (P u) = Some b)"
    using d q(2) unfolding dz_def by simp metis
next
  show "lock_ok N (new_node a j m) (P(t := q))" using lock_ok_same [OF dz_lists(4) [OF d t] _ q(3)] by (simp add: new_node_def)
qed (use fl in \<open>auto simp: new_node_def\<close>)


text \<open>The steps of \<open>Collect_hp\<close> that take and release the mutex, take the object out of a node, and take the node off the gc list.\<close>

lemma dz_mutex:
  assumes d: "dz N m P ns gs fs" and t: "t < N"
    and q: "owns (end_node m) q = owns (end_node m) (P t)" "clearing q = clearing (P t)"
    and fl: "popping q \<Longrightarrow> popping (P t)" "deleting q \<Longrightarrow> deleting (P t)" "collecting_hp q \<Longrightarrow> collecting_hp (P t)"
    and l: "loc (m\<lparr>collector_client_lock := L\<rparr>) ns gs fs t q" and L: "lock_ok N (m\<lparr>collector_client_lock := L\<rparr>) (P(t := q))"
  shows "dz N (m\<lparr>collector_client_lock := L\<rparr>) (P(t := q)) ns gs fs"
proof (rule dz_step [OF d t _ l])
  note dl = dz_lists [OF d t]
  show "glob (m\<lparr>collector_client_lock := L\<rparr>) gs fs" using dl(1) by (simp add: glob_def)
  show "own_ok (m\<lparr>collector_client_lock := L\<rparr>) gs fs b" if "b \<in> owns (end_node m) q" for b
    using dl(3) [of b] that q(1) by (auto simp: own_ok_def)
  fix u assume u: "u < N" "u \<noteq> t"
  show "owns (end_node m) q \<inter> owns (end_node m) (P u) = {}" using dl(6) [OF u] q(1) by simp
  show "stable m gs fs (m\<lparr>collector_client_lock := L\<rparr>) gs fs (P u)" using dz_others [OF d u(1)] by (auto simp: stable_def)
next
  fix b assume "b \<in> set gs"
  then show "gcp (heap (m\<lparr>collector_client_lock := L\<rparr>)) b \<noteq> NULL \<or> clearing q = Some b \<or> (\<exists>u<N. u \<noteq> t \<and> clearing (P u) = Some b)"
    using d q(2) unfolding dz_def by simp metis
qed (use fl L in simp_all)

lemma lock_taken:
  assumes "lock_ok N m P" and "collector_client_lock m = None" and "t < N" and "locked q"
  shows "lock_ok N (m\<lparr>collector_client_lock := Some (t, 1)\<rparr>) (P(t := q))"
  using assms by (auto simp: lock_ok_def)

lemma lock_released:
  assumes "lock_ok N m P" and "t < N" and "locked (P t)" and "\<not> locked q"
  shows "collector_client_lock m = Some (t, 1)" and "lock_ok N (m\<lparr>collector_client_lock := None\<rparr>) (P(t := q))"
  using assms by (auto simp: lock_ok_def)

lemma dz_gc_clear:
  assumes d: "dz N m P ns gs fs" and t: "t < N" and lk: "locked (P t)" "locked q"
    and g: "g \<in> set gs" "heap m g = Some n" and none: "clearing (P t) = None"
    and q: "owns (end_node m) q = owns (end_node m) (P t)" "clearing q = Some g"
    and fl: "popping q \<Longrightarrow> popping (P t)" "deleting q \<Longrightarrow> deleting (P t)" "collecting_hp q \<Longrightarrow> collecting_hp (P t)"
    and l: "loc (m\<lparr>heap := (heap m)(g \<mapsto> n\<lparr>gc_pointer := NULL\<rparr>)\<rparr>) ns gs fs t q"
  shows "dz N (m\<lparr>heap := (heap m)(g \<mapsto> n\<lparr>gc_pointer := NULL\<rparr>)\<rparr>) (P(t := q)) ns gs fs"
proof (rule dz_step [OF d t _ l])
  note dl = dz_lists [OF d t]
  have gn: "g \<noteq> end_node m" "g \<noteq> NULL" "g \<notin> set fs"
    using dl(1) g chain_not_end [of "heap m" next_node "gc_list m" gs "end_node m"] by (auto simp: glob_def)
  show "glob (m\<lparr>heap := (heap m)(g \<mapsto> n\<lparr>gc_pointer := NULL\<rparr>)\<rparr>) gs fs"
    using dl(1) g gn by (auto simp: glob_def chain_upd_same field_of)
  show "own_ok (m\<lparr>heap := (heap m)(g \<mapsto> n\<lparr>gc_pointer := NULL\<rparr>)\<rparr>) gs fs b" if "b \<in> owns (end_node m) q" for b
    using dl(3) [of b] that q(1) by (auto simp: own_ok_def)
  fix u assume u: "u < N" "u \<noteq> t"
  show "owns (end_node m) q \<inter> owns (end_node m) (P u) = {}" using dl(6) [OF u] q(1) by simp
  show "stable m gs fs (m\<lparr>heap := (heap m)(g \<mapsto> n\<lparr>gc_pointer := NULL\<rparr>)\<rparr>) gs fs (P u)"
    using dz_others [OF d u(1)] dl(5) [OF u lk(1)] g(1) gn by (auto simp: stable_def)
next
  fix b assume "b \<in> set gs"
  then show "gcp (heap (m\<lparr>heap := (heap m)(g \<mapsto> n\<lparr>gc_pointer := NULL\<rparr>)\<rparr>)) b \<noteq> NULL \<or> clearing q = Some b \<or> (\<exists>u<N. u \<noteq> t \<and> clearing (P u) = Some b)"
    using d q(2) none unfolding dz_def by simp (metis option.distinct(1))
next
  show "lock_ok N (m\<lparr>heap := (heap m)(g \<mapsto> n\<lparr>gc_pointer := NULL\<rparr>)\<rparr>) (P(t := q))"
    using lock_ok_same [OF dz_lists(4) [OF d t]] lk by simp
qed (use fl in simp_all)

text \<open>The link in front of \<open>g\<close>.\<close>

lemma before_split:
  assumes "before gs g l"
  obtains ys zs where "gs = ys @ g # zs" "g \<notin> set ys" "l = Head Gc \<or> (\<exists>y1 b y2. ys = y1 @ b # y2 \<and> l = Next b)"
proof -
  obtain ys zs where gs: "gs = ys @ g # zs" "g \<notin> set ys" using assms split_list_first by (fastforce simp: before_def)
  then have "takeWhile (\<lambda>x. x \<noteq> g) gs = ys" by (auto simp: takeWhile_append)
  with assms have "l = Head Gc \<or> (\<exists>b. l = Next b \<and> b \<in> set ys)" by (auto simp: before_def)
  with gs that show ?thesis by (metis split_list)
qed

lemma before_intro: "gs = ys @ g # zs \<Longrightarrow> g \<notin> set ys \<Longrightarrow> b \<in> set ys \<Longrightarrow> before gs g (Next b)"
  by (auto simp: before_def takeWhile_append)

lemma before_rd:
  assumes "before gs g l" and ch: "chain (heap m) next_node (gc_list m) gs e"
  obtains v where "rd_link l m = Ret v" "v \<in> set gs" "v \<noteq> g \<Longrightarrow> before gs g (Next v)"
    "v = g \<Longrightarrow> distinct gs \<Longrightarrow> \<exists>ys zs. gs = ys @ g # zs \<and> (ys = [] \<and> l = Head Gc \<or> ys \<noteq> [] \<and> l = Next (last ys))"
proof -
  from before_split [OF assms(1)] obtain ys zs where gs: "gs = ys @ g # zs" "g \<notin> set ys"
    and l: "l = Head Gc \<or> (\<exists>y1 b y2. ys = y1 @ b # y2 \<and> l = Next b)" .
  from l show ?thesis
  proof
    assume h: "l = Head Gc"
    show ?thesis
    proof (cases ys)
      case Nil
      with h gs ch that [of g] show ?thesis by simp
    next
      case (Cons y ys')
      with h gs ch that [of y] before_intro [OF gs, of y] show ?thesis by simp
    qed
  next
    assume "\<exists>y1 b y2. ys = y1 @ b # y2 \<and> l = Next b"
    then obtain y1 b y2 where y: "ys = y1 @ b # y2" "l = Next b" by blast
    obtain n where n: "heap m b = Some n" using chain_dom [OF ch] gs y by auto
    have nx: "next_node n = (case y2 @ g # zs of [] \<Rightarrow> e | z # _ \<Rightarrow> z)"
      using chain_next [of "heap m" next_node "gc_list m" y1 b "y2 @ g # zs" e n] ch gs y n by simp
    show ?thesis
    proof (cases y2)
      case Nil
      with nx y n gs that [of g] show ?thesis by fastforce
    next
      case (Cons z y3)
      with nx y n gs that [of z] before_intro [OF gs, of z] show ?thesis by simp
    qed
  qed
qed

lemma dz_unlink:
  assumes d: "dz N m P ns gs fs" and t: "t < N" and lk: "locked (P t)" "locked q"
    and b: "before gs g l" "rd_link l m = Ret g" "heap m g = Some n" "wr_link l (next_node n) m = Ret m'"
    and cl: "clearing (P t) = Some g" "clearing q = None"
    and q: "owns (end_node m) q = insert g (owns (end_node m) (P t))"
    and fl: "popping q \<Longrightarrow> popping (P t)" "deleting q \<Longrightarrow> deleting (P t)" "collecting_hp q \<Longrightarrow> collecting_hp (P t)"
    and l: "loc m' ns (removeAll g gs) fs t q"
  shows "dz N m' (P(t := q)) ns (removeAll g gs) fs"
proof -
  note dl = dz_lists [OF d t]
  have ch: "chain (heap m) next_node (gc_list m) gs (end_node m)" and dist: "distinct gs" using dl(1) by (auto simp: glob_def)
  obtain ys zs where gs: "gs = ys @ g # zs" and ll: "ys = [] \<and> l = Head Gc \<or> ys \<noteq> [] \<and> l = Next (last ys)"
    using before_rd [OF b(1) ch] b(2) dist by (metis ctl.inject(1))
  have rem: "removeAll g gs = ys @ zs" using gs dist by simp
  have gn: "g \<noteq> end_node m" "g \<noteq> NULL" "g \<notin> set fs" "ptr (heap m) g = NULL"
    using dl(1) gs b(3) chain_not_end [OF ch] by (auto simp: glob_def)
  obtain k where m': "ys \<noteq> [] \<Longrightarrow> heap m (last ys) = Some k \<and> m' = m\<lparr>heap := (heap m)(last ys \<mapsto> k\<lparr>next_node := next_node n\<rparr>)\<rparr>"
    "ys = [] \<Longrightarrow> m' = m\<lparr>gc_list := next_node n\<rparr>"
    using ll b(4) by (auto simp: store_def split: option.splits)
  have hp: "heap m' a = heap m a" if "a \<notin> set ys" for a using that m' by (cases "ys = []") auto
  have fld: "ptr (heap m') a = ptr (heap m) a" "gcp (heap m') a = gcp (heap m) a" "heap m' a = None \<longleftrightarrow> heap m a = None" for a
    using m' by (cases "ys = []"; auto simp: field_of)+
  have same: "end_node m' = end_node m" "free_list m' = free_list m" "all_haz_ptrs m' = all_haz_ptrs m" "cells m' = cells m"
    "collector_client_lock m' = collector_client_lock m" using m' by (cases "ys = []"; auto)+
  have "end_node m \<notin> set ys" "NULL \<notin> set ys" using chain_not_end [OF ch] chain_dom [OF ch] gs dl(1) by (auto simp: glob_def)
  note hpe = this [THEN hp]
  have ysfs: "set ys \<inter> set fs = {}" using dl(1) gs by (auto simp: glob_def)
  have "chain (heap m') next_node (gc_list m') (ys @ zs) (end_node m)"
  proof (cases "ys = []")
    case True
    with m' ch gs b(3) show ?thesis by simp
  next
    case False
    with m' chain_unlink [of "heap m" "gc_list m" ys g zs "end_node m" n k] ch gs dist b(3) show ?thesis by simp
  qed
  moreover have "chain (heap m') next_node (free_list m) fs (end_node m) = chain (heap m) next_node (free_list m) fs (end_node m)"
    using ysfs by (intro chain_eq_on hp) auto
  ultimately have "glob m' (ys @ zs) fs"
    using dl(1) gs same hpe by (auto simp: glob_def fld nxt_def)
  moreover have "own_ok m' (ys @ zs) fs a" if "a \<in> owns (end_node m) q" for a
    using dl(3) [of a] that q gs gn fld(3) [of a] b(3) dist by (auto simp: own_ok_def same)
  moreover have "stable m gs fs m' (ys @ zs) fs (P u)" if u: "u < N" "u \<noteq> t" for u
  proof -
    have "heap m' a = heap m a" if "a \<in> set fs" for a using that ysfs by (intro hp) blast
    then show ?thesis using dz_others [OF d u(1)] dl(5) [OF u lk(1)] gs hp by (auto simp: stable_def same)
  qed
  moreover have "owns (end_node m) q \<inter> owns (end_node m) (P u) = {}" if u: "u < N" "u \<noteq> t" for u
    using dl(6) [OF u] q dz_others(3) [OF d u(1), of g] gs by auto
  moreover have "gcp (heap m') a \<noteq> NULL \<or> clearing q = Some a \<or> (\<exists>u<N. u \<noteq> t \<and> clearing (P u) = Some a)" if a: "a \<in> set (ys @ zs)" for a
  proof -
    have "a \<noteq> g" using a gs dist by auto
    moreover have "gcp (heap m) a \<noteq> NULL \<or> (\<exists>u<N. clearing (P u) = Some a)" using d a gs by (simp add: dz_def)
    ultimately show ?thesis using cl fld(2) [of a] by auto
  qed
  moreover have "lock_ok N m' (P(t := q))" using lock_ok_same [OF dl(4) same(5)] lk by simp
  ultimately show ?thesis using l fl fld(3) same(1) unfolding rem by (intro dz_step [OF d t]) auto
qed


text \<open>Steps that only read, and steps that write one node of their thread.\<close>

lemma dz_read:
  assumes "dz N m P ns gs fs" and "t < N"
    and "owns (end_node m) q = owns (end_node m) (P t)" "clearing q = clearing (P t)" "locked q = locked (P t)"
    and "popping q \<Longrightarrow> popping (P t)" "deleting q \<Longrightarrow> deleting (P t)" "collecting_hp q \<Longrightarrow> collecting_hp (P t)"
    and "loc m ns gs fs t q"
  shows "dz N m (P(t := q)) ns gs fs"
  using assms by (intro dz_keep) auto

lemma dz_write:
  assumes "dz N m P ns gs fs" and "t < N" and "a \<in> owns (end_node m) (P t)"
    and "owns (end_node m) q = owns (end_node m) (P t)" "clearing q = clearing (P t)" "locked q = locked (P t)"
    and "popping q \<Longrightarrow> popping (P t)" "deleting q \<Longrightarrow> deleting (P t)" "collecting_hp q \<Longrightarrow> collecting_hp (P t)"
    and "loc (m\<lparr>heap := (heap m)(a \<mapsto> k)\<rparr>) ns gs fs t q"
  shows "dz N (m\<lparr>heap := (heap m)(a \<mapsto> k)\<rparr>) (P(t := q)) ns gs fs"
  using assms by (intro dz_keep [OF assms(1,2)]) auto

end
