(* ===== verification/Hazard_Steps.thy ===== *)
theory Hazard_Steps
  imports Hazard_Discipline
begin

text \<open>
  Every step of every function of \<^verbatim>\<open>HazardPointerList\<close> and \<^verbatim>\<open>HazardPointerNode\<close> keeps the invariant of
  theory \<open>Hazard_Discipline\<close>.
\<close>

section \<open>Steps of the functions\<close>

definition good_step :: "nat \<Rightarrow> hp_list \<Rightarrow> (tid \<Rightarrow> hz_pc) \<Rightarrow> addr list \<Rightarrow> tid \<Rightarrow> (hp_list \<Rightarrow> hp_list \<times> hz_pc ctl) \<Rightarrow> bool" where
  "good_step N m P ns t f \<longleftrightarrow> (\<exists>m' q gs' fs'. f m = (m', Ret q) \<and> dz N m' (P(t := q)) ns gs' fs')"

lemma good_stepI: "f m = (m', Ret q) \<Longrightarrow> dz N m' (P(t := q)) ns gs' fs' \<Longrightarrow> good_step N m P ns t f"
  by (auto simp: good_step_def)

lemma owned:
  assumes "dz N m P ns gs fs" and "t < N" and "a \<in> owns (end_node m) (P t)"
  obtains n where "heap m a = Some n" "ptr (heap m) a = pointer n" "gcp (heap m) a = gc_pointer n" "nxt (heap m) a = next_node n"
  using dz_others(1) [OF assms] by (auto simp: field_of)

lemmas step_simps = calls_atom via_atom calls_via atomics Let_def IsUnqueued_def

lemma acquire_step:
  assumes d: "dz N m P ns gs fs" and t: "t < N" and p: "P t = H_in hs (P_acquire n c q)" and f: "hz_act ops (P t) = Mem f"
  shows "good_step N m P ns t f"
proof -
  note l = dz_lists(2) [OF d t, unfolded p, simplified]
  have "n \<in> owns (end_node m) (P t)" using l p by simp
  from owned [OF d t this] obtain k where k: "heap m n = Some k" "ptr (heap m) n = pointer k" "gcp (heap m) n = gc_pointer k" "nxt (heap m) n = next_node k" .
  show ?thesis
  proof (cases q)
    case AC_check
    have "f m = (m, Ret (H_in hs (P_acquire n c AC_load)))" using f p k l AC_check by (auto simp: step_simps plain_def)
    moreover have "dz N m (P(t := H_in hs (P_acquire n c AC_load))) ns gs fs" using l p by (intro dz_read [OF d t]) auto
    ultimately show ?thesis by (rule good_stepI)
  next
    case AC_load
    then obtain v where "f m = (m, Ret (H_in hs (P_acquire n c (AC_store v))))" using f p k l by (auto simp: step_simps)
    moreover have "dz N m (P(t := H_in hs (P_acquire n c (AC_store v)))) ns gs fs" using l p by (intro dz_read [OF d t]) auto
    ultimately show ?thesis by (rule good_stepI)
  next
    case (AC_store v)
    then have "f m = (m\<lparr>heap := (heap m)(n \<mapsto> k\<lparr>pointer := v\<rparr>)\<rparr>, Ret (H_idle hs))" using f p k by (auto simp: step_simps)
    moreover have "dz N (m\<lparr>heap := (heap m)(n \<mapsto> k\<lparr>pointer := v\<rparr>)\<rparr>) (P(t := H_idle hs)) ns gs fs"
      using l p k by (intro dz_write [OF d t]) (auto simp: plain_def)
    ultimately show ?thesis by (rule good_stepI)
  qed
qed

lemma clear_step:
  assumes d: "dz N m P ns gs fs" and t: "t < N" and p: "P t = H_in hs (P_clear n q)" and f: "hz_act ops (P t) = Mem f"
  shows "good_step N m P ns t f"
proof -
  note l = dz_lists(2) [OF d t, unfolded p, simplified]
  have "n \<in> owns (end_node m) (P t)" using l p by simp
  from owned [OF d t this] obtain k where k: "heap m n = Some k" "ptr (heap m) n = pointer k" "gcp (heap m) n = gc_pointer k" "nxt (heap m) n = next_node k" .
  show ?thesis
  proof (cases q)
    case CL_check
    have "f m = (m, Ret (H_in hs (P_clear n CL_store)))" using f p k l CL_check by (auto simp: step_simps plain_def)
    moreover have "dz N m (P(t := H_in hs (P_clear n CL_store))) ns gs fs" using l p by (intro dz_read [OF d t]) auto
    ultimately show ?thesis by (rule good_stepI)
  next
    case CL_store
    then have "f m = (m\<lparr>heap := (heap m)(n \<mapsto> k\<lparr>pointer := NULL\<rparr>)\<rparr>, Ret (H_idle hs))" using f p k by (auto simp: step_simps)
    moreover have "dz N (m\<lparr>heap := (heap m)(n \<mapsto> k\<lparr>pointer := NULL\<rparr>)\<rparr>) (P(t := H_idle hs)) ns gs fs"
      using l p k by (intro dz_write [OF d t]) (auto simp: plain_def)
    ultimately show ?thesis by (rule good_stepI)
  qed
qed

lemma write_step:
  assumes d: "dz N m P ns gs fs" and t: "t < N" and p: "P t = H_in hs (P_write c v)" and f: "hz_act ops (P t) = Mem f"
  shows "good_step N m P ns t f"
proof -
  have "f m = (m\<lparr>cells := (cells m)(c \<mapsto> v)\<rparr>, Ret (H_idle hs))" using f p by auto
  moreover have "dz N (m\<lparr>cells := (cells m)(c \<mapsto> v)\<rparr>) (P(t := H_idle hs)) ns gs fs"
    using dz_lists(2) [OF d t] p by (intro dz_keep [OF d t]) auto
  ultimately show ?thesis by (rule good_stepI)
qed


lemma loc_push_on: "r \<noteq> PU_check \<Longrightarrow> loc_push h a r"
  by (cases r) simp_all

text \<open>\<open>push\<close> of a node of the thread, called at \<open>at\<close>; it goes on at \<open>fin\<close>.\<close>

lemma push_step:
  assumes d: "dz N m P ns gs fs" and t: "t < N" and a: "a \<in> owns (end_node m) (P t)" and k: "heap m a = Some k"
    and f: "calls at (\<lambda>_. fin) (push a lh r) = Mem f" and r: "loc_push (heap m) a r"
    and own: "\<And>r'. owns (end_node m) (at r') = owns (end_node m) (P t) \<and> clearing (at r') = clearing (P t) \<and> locked (at r') = locked (P t)"
    and fl: "\<And>r'. (popping (at r') \<longrightarrow> popping (P t)) \<and> (deleting (at r') \<longrightarrow> deleting (P t)) \<and> (collecting_hp (at r') \<longrightarrow> collecting_hp (P t))"
    and stay: "\<And>r' v. r' \<noteq> PU_check \<Longrightarrow> loc (m\<lparr>heap := (heap m)(a \<mapsto> k\<lparr>next_node := v\<rparr>)\<rparr>) ns gs fs t (at r')" "loc m ns gs fs t (at PU_read)"
    and fin: "nxt (heap m) a = head_of lh m \<Longrightarrow> dz N (set_head lh a m) (P(t := fin)) ns gs' fs'"
  shows "good_step N m P ns t f"
proof (cases r)
  case PU_check
  then have "f m = (m, Ret (at PU_read))" using f k r by (auto simp: step_simps field_of)
  moreover have "dz N m (P(t := at PU_read)) ns gs fs" using own fl stay(2) by (intro dz_read [OF d t]) auto
  ultimately show ?thesis by (rule good_stepI)
next
  case PU_read
  then have "f m = (m\<lparr>heap := (heap m)(a \<mapsto> k\<lparr>next_node := head_of lh m\<rparr>)\<rparr>, Ret (at PU_cas))" using f k by (auto simp: step_simps)
  moreover have "dz N (m\<lparr>heap := (heap m)(a \<mapsto> k\<lparr>next_node := head_of lh m\<rparr>)\<rparr>) (P(t := at PU_cas)) ns gs fs"
    using own fl stay(1) a by (intro dz_write [OF d t]) auto
  ultimately show ?thesis by (rule good_stepI)
next
  case PU_cas
  show ?thesis
  proof (cases "head_of lh m = next_node k")
    case True
    then have "f m = (set_head lh a m, Ret fin)" using PU_cas f k by (auto simp: step_simps)
    with fin True k show ?thesis by (auto intro: good_stepI simp: field_of)
  next
    case False
    then have "f m = (m\<lparr>heap := (heap m)(a \<mapsto> k\<lparr>next_node := head_of lh m\<rparr>)\<rparr>, Ret (at PU_read))" using PU_cas f k by (auto simp: step_simps)
    moreover have "dz N (m\<lparr>heap := (heap m)(a \<mapsto> k\<lparr>next_node := head_of lh m\<rparr>)\<rparr>) (P(t := at PU_read)) ns gs fs"
      using own fl stay(1) a by (intro dz_write [OF d t]) auto
    ultimately show ?thesis by (rule good_stepI)
  qed
qed

lemma release_step:
  assumes d: "dz N m P ns gs fs" and t: "t < N" and p: "P t = H_in hs (P_release n q)" and f: "hz_act ops (P t) = Mem f"
  shows "good_step N m P ns t f"
proof -
  note l = dz_lists(2) [OF d t, unfolded p, simplified]
  have n: "n \<in> owns (end_node m) (P t)" using l p by simp
  from owned [OF d t this] obtain k where k: "heap m n = Some k" "ptr (heap m) n = pointer k" "gcp (heap m) n = gc_pointer k" "nxt (heap m) n = next_node k" .
  show ?thesis
  proof (cases q)
    case RE_check
    show ?thesis
    proof (cases "pointer k = NULL")
      case True
      then have "f m = (m, Ret (H_idle hs))" using f p k l RE_check by (auto simp: step_simps plain_def give_back_def)
      moreover have "dz N m (P(t := H_idle hs)) ns gs fs" using l p RE_check by (intro dz_read [OF d t]) auto
      ultimately show ?thesis by (rule good_stepI)
    next
      case False
      then have "f m = (m, Ret (H_in hs (P_release n RE_store)))" using f p k l RE_check by (auto simp: step_simps plain_def)
      moreover have "dz N m (P(t := H_in hs (P_release n RE_store))) ns gs fs" using l p RE_check by (intro dz_read [OF d t]) auto
      ultimately show ?thesis by (rule good_stepI)
    qed
  next
    case RE_store
    let ?m = "m\<lparr>heap := (heap m)(n \<mapsto> k\<lparr>pointer := NULL\<rparr>)\<rparr>"
    have "f m = (?m, Ret (H_in hs (P_release n (RE_enqueue EF_check))))" using f p k RE_store by (auto simp: step_simps)
    moreover have "dz N ?m (P(t := H_in hs (P_release n (RE_enqueue EF_check)))) ns gs fs"
      using l p n k RE_store by (intro dz_write [OF d t]) (auto simp: plain_def)
    ultimately show ?thesis by (rule good_stepI)
  next
    case (RE_enqueue r)
    show ?thesis
    proof (cases r)
      case EF_check
      have "f m = (m, Ret (H_in hs (P_release n (RE_enqueue (EF_push PU_check)))))"
        using f p k l RE_enqueue EF_check by (auto simp: step_simps plain_def)
      moreover have "dz N m (P(t := H_in hs (P_release n (RE_enqueue (EF_push PU_check))))) ns gs fs"
        using l p RE_enqueue EF_check by (intro dz_read [OF d t]) (auto simp: plain_def)
      ultimately show ?thesis by (rule good_stepI)
    next
      case (EF_push r')
      have nl: "gcp (heap m) n = NULL" "ptr (heap m) n = NULL" "loc_push (heap m) n r'" and hs: "\<forall>a\<in>set hs. n \<noteq> a \<longrightarrow> plain (heap m) a" "n \<in> set hs"
        using l RE_enqueue EF_push by auto
      have "calls (\<lambda>r. H_in hs (P_release n (RE_enqueue (EF_push r)))) (\<lambda>_. H_idle (removeAll n hs)) (push n Free r') = Mem f"
        using f p RE_enqueue EF_push by (simp add: calls_via give_back_def)
      moreover have "dz N (m\<lparr>free_list := n\<rparr>) (P(t := H_idle (removeAll n hs))) ns gs (n # fs)" if "nxt (heap m) n = free_list m"
        using that nl p n hs by (intro dz_push_free [OF d t n]) auto
      ultimately show ?thesis
        using nl hs p k by (intro push_step [OF d t n k(1), where lh = Free and r = r']) (auto simp: plain_def loc_push_on)
    qed
  qed
qed


lemma delete_step:
  assumes d: "dz N m P ns gs fs" and t: "t < N" and p: "P t = H_in hs (P_delete n q)" and f: "hz_act ops (P t) = Mem f" and q: "n \<notin> queued n q"
  shows "good_step N m P ns t f"
proof -
  note l = dz_lists(2) [OF d t, unfolded p, simplified]
  have n: "n \<in> owns (end_node m) (P t)" using l p q by simp
  from owned [OF d t this] obtain k where k: "heap m n = Some k" "ptr (heap m) n = pointer k" "gcp (heap m) n = gc_pointer k" "nxt (heap m) n = next_node k" .
  show ?thesis
  proof (cases q)
    case DE_check
    show ?thesis
    proof (cases "pointer k = NULL")
      case True
      then have "f m = (m, Ret (H_idle hs))" using f p k l DE_check by (auto simp: step_simps plain_def give_back_def)
      moreover have "dz N m (P(t := H_idle hs)) ns gs fs" using l p DE_check by (intro dz_read [OF d t]) auto
      ultimately show ?thesis by (rule good_stepI)
    next
      case False
      then have "f m = (m, Ret (H_in hs (P_delete n DE_load)))" using f p k l DE_check by (auto simp: step_simps plain_def)
      moreover have "dz N m (P(t := H_in hs (P_delete n DE_load))) ns gs fs" using l p k False DE_check by (intro dz_read [OF d t]) auto
      ultimately show ?thesis by (rule good_stepI)
    qed
  next
    case DE_load
    have "f m = (m, Ret (H_in hs (P_delete n (DE_exchange (pointer k)))))" using f p k DE_load by (auto simp: step_simps)
    moreover have "dz N m (P(t := H_in hs (P_delete n (DE_exchange (pointer k))))) ns gs fs" using l p k DE_load by (intro dz_read [OF d t]) auto
    ultimately show ?thesis by (rule good_stepI)
  next
    case (DE_exchange v)
    let ?m = "m\<lparr>heap := (heap m)(n \<mapsto> k\<lparr>gc_pointer := v\<rparr>)\<rparr>"
    have "f m = (?m, Ret (H_in hs (P_delete n (DE_return (gc_pointer k)))))" using f p k DE_exchange by (auto simp: step_simps)
    moreover have "dz N ?m (P(t := H_in hs (P_delete n (DE_return (gc_pointer k))))) ns gs fs"
      using l p n k DE_exchange by (intro dz_write [OF d t]) (auto simp: plain_def)
    ultimately show ?thesis by (rule good_stepI)
  next
    case (DE_return old)
    let ?m = "m\<lparr>heap := (heap m)(n \<mapsto> k\<lparr>pointer := old\<rparr>)\<rparr>"
    have "f m = (?m, Ret (H_in hs (P_delete n (DE_enqueue EC_check))))" using f p k DE_return by (auto simp: step_simps)
    moreover have "dz N ?m (P(t := H_in hs (P_delete n (DE_enqueue EC_check)))) ns gs fs"
      using l p n k DE_return by (intro dz_write [OF d t]) (auto simp: plain_def)
    ultimately show ?thesis by (rule good_stepI)
  next
    case (DE_enqueue r)
    show ?thesis
    proof (cases r)
      case EC_check
      have "f m = (m, Ret (H_in hs (P_delete n (DE_enqueue (EC_push PU_check)))))"
        using f p k l DE_enqueue EC_check by (auto simp: step_simps)
      moreover have "dz N m (P(t := H_in hs (P_delete n (DE_enqueue (EC_push PU_check))))) ns gs fs"
        using l p DE_enqueue EC_check by (intro dz_read [OF d t]) auto
      ultimately show ?thesis by (rule good_stepI)
    next
      case (EC_push r')
      have nl: "gcp (heap m) n \<noteq> NULL" "ptr (heap m) n = NULL" "loc_push (heap m) n r'" and hs: "\<forall>a\<in>set hs. n \<noteq> a \<longrightarrow> plain (heap m) a" "n \<in> set hs"
        using l DE_enqueue EC_push by auto
      have "calls (\<lambda>r. H_in hs (P_delete n (DE_enqueue (EC_push r)))) (\<lambda>_. H_in hs (P_delete n (DE_enqueue EC_signal))) (push n Gc r') = Mem f"
        using f p DE_enqueue EC_push by (simp add: calls_via)
      moreover have "dz N (m\<lparr>gc_list := n\<rparr>) (P(t := H_in hs (P_delete n (DE_enqueue EC_signal)))) ns (n # gs) fs" if "nxt (heap m) n = gc_list m"
        using that nl p n hs DE_enqueue EC_push by (intro dz_push_gc [OF d t _ n]) auto
      ultimately show ?thesis
        using nl hs p k DE_enqueue EC_push by (intro push_step [OF d t n k(1), where lh = Gc and r = r']) (auto simp: plain_def loc_push_on)
    qed (use q DE_enqueue in simp)
  qed (use q in simp)
qed

lemma delete_end_step:
  assumes d: "dz N m P ns gs fs" and t: "t < N" and p: "P t = H_in hs (P_delete n q)" and f: "hz_act ops (P t) = Mem f" and q: "n \<in> queued n q"
  shows "good_step N m P ns t f"
proof -
  note l = dz_lists(2) [OF d t, unfolded p, simplified]
  from q consider "q = DE_enqueue EC_signal" | "q = DE_check2" by (cases q) (auto split: if_splits)
  then show ?thesis
  proof cases
    case 1
    let ?m = "if collector_thread m then m\<lparr>signals := signals m + 1\<rparr> else m"
    have "f m = (?m, Ret (H_in hs (P_delete n DE_check2)))" using f p 1 by (auto simp: step_simps)
    moreover have "dz N ?m (P(t := H_in hs (P_delete n DE_check2))) ns gs fs"
      using l p 1 by (intro dz_keep [OF d t]) (auto split: if_splits)
    ultimately show ?thesis by (rule good_stepI)
  next
    case 2
    have n: "n \<in> set gs" using l 2 by simp
    have g: "glob m gs fs" by (rule dz_lists(1) [OF d t])
    then obtain k where k: "heap m n = Some k" "pointer k = NULL"
      using n chain_dom [of "heap m" next_node "gc_list m" gs "end_node m"] by (fastforce simp: glob_def field_of)
    then have "f m = (m, Ret (H_idle (removeAll n hs)))" using f p 2 by (auto simp: step_simps give_back_def)
    moreover have "dz N m (P(t := H_idle (removeAll n hs))) ns gs fs"
      using l p 2 by (intro dz_read [OF d t]) auto
    ultimately show ?thesis by (rule good_stepI)
  qed
qed


lemma fs_node:
  assumes "glob m gs fs" and "n \<in> set fs"
  obtains k where "heap m n = Some k" "nxt (heap m) n = next_node k" "n \<noteq> end_node m" "gc_pointer k = NULL"
proof -
  have "chain (heap m) next_node (free_list m) fs (end_node m)" "gcp (heap m) n = NULL" using assms by (auto simp: glob_def)
  with chain_dom [of "heap m" next_node "free_list m" fs "end_node m"] chain_not_end [of "heap m" next_node "free_list m" fs "end_node m"] assms(2) that
  show ?thesis by (fastforce simp: field_of)
qed

lemma pop_step:
  assumes d: "dz N m P ns gs fs" and t: "t < N" and p: "P t = H_in hs (P_new a j (AN_pop q))" and f: "hz_act ops (P t) = Mem f"
  shows "good_step N m P ns t f"
proof -
  note l = dz_lists(2) [OF d t, unfolded p, simplified] and g = dz_lists(1) [OF d t]
  let ?at = "\<lambda>q. H_in hs (P_new a j (AN_pop q))"
  have f': "calls ?at (\<lambda>n. H_in hs (P_new a j (AN_test n))) (pop Free q) = Mem f" using f p by (simp add: calls_via)
  have ch: "chain (heap m) next_node (free_list m) fs (end_node m)" using g by (simp add: glob_def)
  obtain ek where ek: "heap m (end_node m) = Some ek" "next_node ek = end_node m" using g by (fastforce simp: glob_def field_of)
  show ?thesis
  proof (cases q)
    case PO_head
    have "f m = (m, Ret (?at (PO_next (free_list m))))" using f' PO_head by (auto simp: step_simps)
    moreover have "dz N m (P(t := ?at (PO_next (free_list m)))) ns gs fs"
      using l p PO_head ch by (intro dz_read [OF d t]) (auto, cases fs, auto)
    ultimately show ?thesis by (rule good_stepI)
  next
    case (PO_next n)
    then have "n = end_node m \<or> n \<in> set fs" using l by simp
    then obtain k where k: "heap m n = Some k" "n = end_node m \<Longrightarrow> next_node k = end_node m" "nxt (heap m) n = next_node k"
      using ek fs_node [OF g] by (metis field_of(3) option.inject)
    have "f m = (m, Ret (?at (PO_cas n (next_node k))))" using f' PO_next k by (auto simp: step_simps)
    moreover have "dz N m (P(t := ?at (PO_cas n (next_node k)))) ns gs fs"
      using l p PO_next k by (intro dz_read [OF d t]) auto
    ultimately show ?thesis by (rule good_stepI)
  next
    case (PO_cas n n')
    show ?thesis
    proof (cases "free_list m = n")
      case False
      then have "f m = (m, Ret (?at PO_head))" using f' PO_cas by (auto simp: step_simps)
      moreover have "dz N m (P(t := ?at PO_head)) ns gs fs" using l p PO_cas by (intro dz_read [OF d t]) auto
      ultimately show ?thesis by (rule good_stepI)
    next
      case True
      show ?thesis
      proof (cases "n = end_node m")
        case e: True
        then have "n' = n" using l PO_cas chain_not_end [OF ch] by auto
        then have "f m = (m, Ret (H_in hs (P_new a j (AN_test n))))" using f' PO_cas True e by (auto simp: step_simps)
        moreover have "dz N m (P(t := H_in hs (P_new a j (AN_test n)))) ns gs fs" using l p PO_cas e by (intro dz_read [OF d t]) auto
        ultimately show ?thesis by (rule good_stepI)
      next
        case e: False
        then have n: "n \<in> set fs" "n' = nxt (heap m) n" using l PO_cas by auto
        obtain fs' where fs: "fs = n # fs'" using ch True n by (cases fs) auto
        have "f m = (m\<lparr>free_list := nxt (heap m) n\<rparr>, Ret (?at (PO_clear n)))" using f' PO_cas True e n by (auto simp: step_simps)
        moreover have "dz N (m\<lparr>free_list := nxt (heap m) n\<rparr>) (P(t := ?at (PO_clear n))) ns gs fs'"
          using l p PO_cas e g fs by (intro dz_pop [OF d [unfolded fs] t]) (auto simp: glob_def)
        ultimately show ?thesis by (rule good_stepI)
      qed
    qed
  next
    case (PO_clear n)
    have n: "n \<in> owns (end_node m) (P t)" using p PO_clear by simp
    from owned [OF d t this] obtain k where k: "heap m n = Some k" "gcp (heap m) n = gc_pointer k" .
    let ?m = "m\<lparr>heap := (heap m)(n \<mapsto> k\<lparr>next_node := NULL\<rparr>)\<rparr>"
    have "f m = (?m, Ret (H_in hs (P_new a j (AN_test n))))" using f' PO_clear k by (auto simp: step_simps)
    moreover have "dz N ?m (P(t := H_in hs (P_new a j (AN_test n)))) ns gs fs"
      using l p n k PO_clear by (intro dz_write [OF d t]) (auto simp: plain_def)
    ultimately show ?thesis by (rule good_stepI)
  qed
qed

lemma new_step:
  assumes d: "dz N m P ns gs fs" and t: "t < N" and p: "P t = H_in hs (P_new a j r)" and f: "hz_act ops (P t) = Mem f"
    and fr: "fresh_alloc m (P t)"
  shows "good_step N m P ns t f"
proof (cases r)
  case (AN_pop q)
  with pop_step [OF d t _ f] p show ?thesis by simp
next
  case (AN_test n)
  note l = dz_lists(2) [OF d t, unfolded p, simplified]
  show ?thesis
  proof (cases "n = end_node m")
    case True
    then have "f m = (new_node a j m, Ret (H_in hs (P_new a j (AN_add AD_read))))" using f p AN_test by (auto simp: step_simps)
    moreover have h: "heap m a = None" using True fr p AN_test by simp
    moreover have "a \<notin> set hs" using dz_others(1) [OF d t, of a] h p by auto
    ultimately show ?thesis
      using l p AN_test True
      by (intro good_stepI [OF _ dz_alloc [OF d t h, of "H_in hs (P_new a j (AN_add AD_read))" j]])
        (auto simp: new_node_def plain_def HazardPointerNode_ctor_def)
  next
    case False
    then have "f m = (m, Ret (H_idle (n # hs)))" using f p AN_test by (auto simp: step_simps)
    moreover have "dz N m (P(t := H_idle (n # hs))) ns gs fs" using l p AN_test False by (intro dz_read [OF d t]) auto
    ultimately show ?thesis by (rule good_stepI)
  qed
next
  case (AN_add x)
  note l = dz_lists(2) [OF d t, unfolded p, simplified]
  have a: "a \<in> owns (end_node m) (P t)" using p AN_add by simp
  from owned [OF d t this] obtain k where k: "heap m a = Some k" "gcp (heap m) a = gc_pointer k" "nxt (heap m) a = next_node k" .
  let ?m = "m\<lparr>heap := (heap m)(a \<mapsto> k\<lparr>fixed_link := nodes m\<rparr>)\<rparr>"
  have w: "dz N ?m (P(t := H_in hs (P_new a j (AN_add y)))) ns gs fs" for y
    using l p a k AN_add by (intro dz_write [OF d t]) (auto simp: plain_def)
  show ?thesis
  proof (cases x)
    case AD_read
    then have "f m = (?m, Ret (H_in hs (P_new a j (AN_add AD_cas))))" using f p k AN_add by (auto simp: step_simps)
    with w show ?thesis by (rule good_stepI [rotated])
  next
    case AD_cas
    show ?thesis
    proof (cases "nodes m = fixed_link k")
      case True
      then have "f m = (m\<lparr>nodes := a\<rparr>, Ret (H_idle (a # hs)))" using f p k AN_add AD_cas by (auto simp: step_simps)
      moreover have "dz N (m\<lparr>nodes := a\<rparr>) (P(t := H_idle (a # hs))) ns gs fs"
        using l p a AN_add by (intro dz_keep [OF d t]) auto
      ultimately show ?thesis by (rule good_stepI)
    next
      case False
      then have "f m = (?m, Ret (H_in hs (P_new a j (AN_add AD_read))))" using f p k AN_add AD_cas by (auto simp: step_simps)
      with w show ?thesis by (rule good_stepI [rotated])
    qed
  qed
qed


section \<open>Steps of Collect\<close>

lemma gs_node:
  assumes "glob m gs fs" and "n \<in> set gs"
  obtains k where "heap m n = Some k" "nxt (heap m) n = next_node k" "gcp (heap m) n = gc_pointer k" "pointer k = NULL" "ptr (heap m) n = NULL"
    "n \<noteq> end_node m" "n \<noteq> NULL" "next_node k = end_node m \<or> next_node k \<in> set gs" "n \<notin> set fs" "next_node k \<noteq> n"
proof -
  have ch: "chain (heap m) next_node (gc_list m) gs (end_node m)" and p: "ptr (heap m) n = NULL" and dist: "distinct gs" using assms by (auto simp: glob_def)
  obtain ys zs where gs: "gs = ys @ n # zs" using assms(2) split_list by fast
  obtain k where k: "heap m n = Some k" using chain_dom [OF ch] assms(2) by blast
  have "next_node k = (case zs of [] \<Rightarrow> end_node m | z # _ \<Rightarrow> z)" using chain_next [of "heap m" next_node "gc_list m" ys n zs "end_node m" k] ch gs k by simp
  then have "next_node k = end_node m \<or> next_node k \<in> set gs" "next_node k \<noteq> n"
    using gs dist chain_not_end [OF ch] by (auto split: list.splits)
  with k p assms chain_not_end [OF ch] show ?thesis by (intro that [of k]) (auto simp: field_of glob_def)
qed

text \<open>The points of \<open>Collect_hp\<close> before the traversal of the gc list.\<close>

lemma collect_scan_step:
  assumes d: "dz N m P ns gs fs" and t: "t < N" and p: "P t = H_in hs (P_collect c q)" and f: "hz_act ops (P t) = Mem f"
    and ns: "chain (heap m) fixed_link (nodes m) ns (end_node m)"
    and q: "q \<in> {CO_test, CO_lock, CO_nodes, CO_sort, CO_gc, CO_clear, CO_result} \<or> (\<exists>n. q \<in> {CO_scan n, CO_add n, CO_link n}) \<or> (\<exists>r. q = CO_unlock r)"
  shows "good_step N m P ns t f"
proof -
  note l = dz_lists(2) [OF d t, unfolded p, simplified] and g = dz_lists(1) [OF d t]
  let ?at = "\<lambda>q. H_in hs (P_collect c q)"
  have f': "calls ?at (\<lambda>_. H_idle hs) (Collect_hp c q) = Mem f" using f p by simp
  have ct: "c = t" and hs: "\<forall>a\<in>set hs. plain (heap m) a" using l by auto
  have read: "good_step N m P ns t f" if "f m = (m, Ret (?at q'))" "loc_col m ns gs q'" "extra_col q' = extra_col q" "clearing_col q' = clearing_col q"
      "locked (?at q') = locked (?at q)" for q'
  proof (rule good_stepI [where f = f and m = m, OF that(1)])
    show "dz N m (P(t := ?at q')) ns gs fs" using that l p by (intro dz_read [OF d t]) auto
  qed
  have haz: "good_step N m P ns t f" if "f m = (m\<lparr>all_haz_ptrs := hz\<rparr>, Ret (?at q'))" "loc_col (m\<lparr>all_haz_ptrs := hz\<rparr>) ns gs q'"
      "extra_col q' = extra_col q" "clearing_col q' = clearing_col q" "locked (?at q)" "locked (?at q')" for q' hz
  proof (rule good_stepI [where f = f and m = m, OF that(1)])
    show "dz N (m\<lparr>all_haz_ptrs := hz\<rparr>) (P(t := ?at q')) ns gs fs" using that l p by (intro dz_keep [OF d t]) auto
  qed
  have nd: "\<exists>k. heap m n = Some k \<and> (fixed_link k = end_node m \<or> fixed_link k \<in> set ns)" if nn: "n \<in> set ns" for n
  proof -
    obtain ys zs where e: "ns = ys @ n # zs" using nn split_list by fast
    obtain k where "heap m n = Some k" using chain_dom [OF ns] nn by blast
    then show ?thesis using chain_next [of "heap m" fixed_link "nodes m" ys n zs "end_node m" k] ns e by (cases zs) auto
  qed
  show ?thesis
  proof (cases q)
    case CO_test
    show ?thesis
    proof (cases "gc_list m = end_node m")
      case True
      then have "f m = (m, Ret (H_idle hs))" using f' CO_test by (auto simp: step_simps)
      moreover have "dz N m (P(t := H_idle hs)) ns gs fs" using hs p CO_test by (intro dz_read [OF d t]) auto
      ultimately show ?thesis by (rule good_stepI)
    next
      case False
      then have "f m = (m, Ret (?at CO_lock))" using f' CO_test by (auto simp: step_simps)
      then show ?thesis using CO_test by (rule_tac read) auto
    qed
  next
    case CO_lock
    note lk = dz_lists(4) [OF d t]
    show ?thesis
    proof (cases "collector_client_lock m")
      case None
      let ?m = "m\<lparr>collector_client_lock := Some (t, 1)\<rparr>"
      have "f m = (?m, Ret (?at CO_nodes))" using f' CO_lock None ct by (auto simp: step_simps)
      moreover have "dz N ?m (P(t := ?at CO_nodes)) ns gs fs"
        using hs p CO_lock ct lock_taken [OF lk None t, of "?at CO_nodes"] by (intro dz_mutex [OF d t]) auto
      ultimately show ?thesis by (rule good_stepI)
    next
      case (Some x)
      have "\<not> locked (P t)" using p CO_lock by simp
      then obtain u where "x = (u, 1)" "u \<noteq> t" using lk Some t unfolding lock_ok_def by blast
      then have "f m = (m, Ret (?at CO_lock))" using f' CO_lock Some ct by (auto simp: step_simps)
      then show ?thesis using CO_lock by (rule_tac read) auto
    qed
  next
    case CO_nodes
    have "f m = (m, Ret (?at (CO_scan (nodes m))))" using f' CO_nodes by (auto simp: step_simps)
    moreover have "nodes m = end_node m \<or> nodes m \<in> set ns" using ns by (cases ns) auto
    ultimately show ?thesis using CO_nodes by (rule_tac read) auto
  next
    case (CO_scan n)
    show ?thesis
    proof (cases "n = end_node m")
      case True
      then have "f m = (m, Ret (?at CO_sort))" using f' CO_scan by (auto simp: step_simps)
      then show ?thesis using CO_scan by (rule_tac read) auto
    next
      case False
      then have n: "n \<in> set ns" using l CO_scan by simp
      with nd obtain k where "heap m n = Some k" by blast
      with False f' CO_scan have "f m = (m, Ret (?at (if pointer k \<noteq> NULL then CO_add n else CO_link n)))" by (auto simp: step_simps)
      then show ?thesis using CO_scan n by (rule_tac read) (auto split: if_splits)
    qed
  next
    case (CO_add n)
    then have n: "n \<in> set ns" using l by simp
    with nd obtain k where "heap m n = Some k" by blast
    then have "f m = (m\<lparr>all_haz_ptrs := all_haz_ptrs m @ [pointer k]\<rparr>, Ret (?at (CO_link n)))" using f' CO_add by (auto simp: step_simps)
    then show ?thesis using CO_add n by (rule_tac haz) auto
  next
    case (CO_link n)
    then have n: "n \<in> set ns" using l by simp
    with nd obtain k where k: "heap m n = Some k" "fixed_link k = end_node m \<or> fixed_link k \<in> set ns" by blast
    then have "f m = (m, Ret (?at (CO_scan (fixed_link k))))" using f' CO_link by (auto simp: step_simps)
    then show ?thesis using CO_link k by (rule_tac read) auto
  next
    case CO_sort
    then have "f m = (m\<lparr>all_haz_ptrs := sort (all_haz_ptrs m)\<rparr>, Ret (?at CO_gc))" using f' by (auto simp: step_simps)
    then show ?thesis using CO_sort by (rule_tac haz) auto
  next
    case CO_gc
    have "f m = (m, Ret (?at (CO_gc_next (gc_list m))))" using f' CO_gc by (auto simp: step_simps)
    moreover have "gc_list m = end_node m \<or> gc_list m \<in> set gs" using g by (cases gs) (auto simp: glob_def)
    ultimately show ?thesis using CO_gc l by (rule_tac read) auto
  next
    case CO_clear
    then have "f m = (m\<lparr>all_haz_ptrs := []\<rparr>, Ret (?at CO_result))" using f' by (auto simp: step_simps)
    then show ?thesis using CO_clear by (rule_tac haz) auto
  next
    case CO_result
    then have "f m = (m, Ret (?at (CO_unlock (gc_list m = end_node m))))" using f' by (auto simp: step_simps)
    then show ?thesis using CO_result by (rule_tac read) auto
  next
    case (CO_unlock r)
    have lk: "collector_client_lock m = Some (t, 1)" "lock_ok N (m\<lparr>collector_client_lock := None\<rparr>) (P(t := H_idle hs))"
      using lock_released [OF dz_lists(4) [OF d t] t, of "H_idle hs"] p CO_unlock by auto
    let ?m = "m\<lparr>collector_client_lock := None\<rparr>"
    have "f m = (?m, Ret (H_idle hs))" using f' CO_unlock lk by (auto simp: step_simps)
    moreover have "dz N ?m (P(t := H_idle hs)) ns gs fs"
      using hs p CO_unlock lk(2) by (intro dz_mutex [OF d t]) auto
    ultimately show ?thesis by (rule good_stepI)
  qed (use q in auto)
qed


text \<open>The traversal of the gc list.\<close>

lemma gc_object_set:
  assumes d: "dz N m P ns gs fs" and t: "t < N" and l: "locked (P t)" "clearing (P t) = None" and g: "g \<in> set gs"
  shows "gcp (heap m) g \<noteq> NULL"
proof
  assume "gcp (heap m) g = NULL"
  then obtain u where u: "u < N" "clearing (P u) = Some g" using d g by (auto simp: dz_def)
  have "locked (P u)" using u(2) by (cases "P u" rule: locked.cases) auto
  with u l dz_lists(5) [OF d t u(1)] show False by (cases "u = t") auto
qed

lemma wr_link_ok:
  assumes "rd_link ln m = Ret v"
  shows "\<exists>m'. wr_link ln w m = Ret m' \<and> end_node m' = end_node m \<and> all_haz_ptrs m' = all_haz_ptrs m \<and>
    (\<forall>a. ptr (heap m') a = ptr (heap m) a \<and> gcp (heap m') a = gcp (heap m) a \<and> (ln \<noteq> Next a \<longrightarrow> heap m' a = heap m a))"
proof (cases ln)
  case (Head lh)
  then show ?thesis by (cases lh) auto
next
  case (Next b)
  then obtain k where "heap m b = Some k" using assms by (auto simp: load_def split: option.splits)
  with Next field_of [of "heap m" b k] show ?thesis by auto
qed

lemma remove_step:
  assumes d: "dz N m P ns gs fs" and t: "t < N" and p: "P t = H_in hs (P_collect c (CO_gc_remove g x q))" and f: "hz_act ops (P t) = Mem f"
  shows "good_step N m P ns t f"
proof -
  note l = dz_lists(2) [OF d t, unfolded p, simplified] and gl = dz_lists(1) [OF d t]
  let ?at = "\<lambda>q. H_in hs (P_collect c (CO_gc_remove g x q))"
  have f': "calls ?at (\<lambda>_. H_in hs (P_collect c (CO_gc_check g x))) (remove g Gc q) = Mem f" using f p by (simp add: calls_via)
  have ct: "c = t" and hs: "\<forall>a\<in>set hs. plain (heap m) a" and srt: "sorted (all_haz_ptrs m)" "gcp (heap m) g = NULL" "ptr (heap m) g = NULL" and lr: "loc_rem m gs g q"
    using l by auto
  have ch: "chain (heap m) next_node (gc_list m) gs (end_node m)" "end_node m \<notin> set gs" using gl chain_not_end by (auto simp: glob_def)
  show ?thesis
  proof (cases "q = RM_clear")
    case True
    have g: "g \<in> owns (end_node m) (P t)" using p True by simp
    from owned [OF d t this] obtain k where k: "heap m g = Some k" "gcp (heap m) g = gc_pointer k" "ptr (heap m) g = pointer k" .
    let ?m = "m\<lparr>heap := (heap m)(g \<mapsto> k\<lparr>next_node := NULL\<rparr>)\<rparr>"
    have "f m = (?m, Ret (H_in hs (P_collect c (CO_gc_check g x))))" using f' k True by (auto simp: step_simps)
    moreover have "dz N ?m (P(t := H_in hs (P_collect c (CO_gc_check g x)))) ns gs fs"
      using l p g k True by (intro dz_write [OF d t]) (auto simp: plain_def)
    ultimately show ?thesis by (rule good_stepI)
  next
    case nc: False
    have g: "g \<in> set gs" "nxt (heap m) g = x" using l nc by auto
    from gs_node [OF gl g(1)] obtain k where kk: "heap m g = Some k" "nxt (heap m) g = next_node k"
      "next_node k = end_node m \<or> next_node k \<in> set gs" "next_node k \<noteq> g" .
    then have k: "heap m g = Some k" "next_node k = x" "x = end_node m \<or> x \<in> set gs" "x \<noteq> g" using g(2) by simp_all
    have read: "good_step N m P ns t f" if "f m = (m, Ret (?at q'))" "loc_rem m gs g q'" "q' \<noteq> RM_clear" for q'
    proof (rule good_stepI [where f = f and m = m, OF that(1)])
      show "dz N m (P(t := ?at q')) ns gs fs" using that l p nc g by (intro dz_read [OF d t]) auto
    qed
    have link: "\<exists>v. rd_link ln m = Ret v \<and> v \<in> set gs \<and> v \<noteq> end_node m \<and> (v \<noteq> g \<longrightarrow> before gs g (Next v))" if b: "before gs g ln" for ln
      by (rule before_rd [OF b ch(1)]) (use ch(2) in blast)
    show ?thesis
    proof (cases q)
      case (RM_test1 ln)
      then have b: "before gs g ln" using lr by simp
      from link [OF b] obtain v where v: "rd_link ln m = Ret v" by (elim exE conjE)
      then have "f m = (m, Ret (?at (if v \<noteq> g then RM_test2 ln else RM_end ln)))" using f' RM_test1 by (auto simp: step_simps)
      then show ?thesis using v b by (rule_tac read) (auto split: if_splits)
    next
      case (RM_test2 ln)
      then have b: "before gs g ln" "rd_link ln m \<noteq> Ret g" using lr by auto
      from link [OF b(1)] obtain v where v: "rd_link ln m = Ret v" "v \<noteq> end_node m" by (elim exE conjE)
      then have "f m = (m, Ret (?at (RM_advance ln)))" using f' RM_test2 by (auto simp: step_simps)
      then show ?thesis using b by (rule_tac read) auto
    next
      case (RM_advance ln)
      then have b: "before gs g ln" "rd_link ln m \<noteq> Ret g" using lr by auto
      from link [OF b(1)] obtain v where v: "rd_link ln m = Ret v" "v \<noteq> g \<longrightarrow> before gs g (Next v)" by (elim exE conjE)
      then have "f m = (m, Ret (?at (RM_test1 (Next v))))" using f' RM_advance by (auto simp: step_simps)
      then show ?thesis using v b by (rule_tac read) auto
    next
      case (RM_end ln)
      then have "f m = (m, Ret (?at (RM_expected ln)))" using f' lr g(1) ch(2) by (auto simp: step_simps)
      then show ?thesis using lr RM_end by (rule_tac read) auto
    next
      case (RM_expected ln)
      then have "f m = (m, Ret (?at (RM_desired ln g)))" using f' lr by (auto simp: step_simps)
      then show ?thesis using lr RM_expected by (rule_tac read) auto
    next
      case (RM_desired ln v)
      then have "f m = (m, Ret (?at (RM_cas ln g x)))" using f' lr k by (auto simp: step_simps)
      then show ?thesis using lr RM_desired g by (rule_tac read) auto
    next
      case (RM_cas ln v w)
      then have b: "before gs g ln" "rd_link ln m = Ret g" "v = g" "w = next_node k" using lr g k by auto
      from wr_link_ok [OF b(2), of "next_node k"] obtain m' where m': "wr_link ln (next_node k) m = Ret m'"
        and keep: "end_node m' = end_node m" "all_haz_ptrs m' = all_haz_ptrs m"
          "\<forall>a. ptr (heap m') a = ptr (heap m) a \<and> gcp (heap m') a = gcp (heap m) a \<and> (ln \<noteq> Next a \<longrightarrow> heap m' a = heap m a)"
        by (elim exE conjE)
      have pl: "plain (heap m') a" if "a \<in> set hs" for a
      proof -
        have "a \<notin> set gs" using dz_others(3) [OF d t, of a] that p RM_cas by auto
        moreover have "ln = Next bb \<Longrightarrow> bb \<in> set gs" for bb using b(1) by (auto simp: before_def dest: set_takeWhileD)
        ultimately have "heap m' a = heap m a" using keep(3) by blast
        with hs that show ?thesis by (simp add: field_eq [of "heap m'" a "heap m"])
      qed
      have "f m = (m', Ret (?at RM_clear))" using f' RM_cas b m' by (auto simp: step_simps)
      moreover have "dz N m' (P(t := ?at RM_clear)) ns (removeAll g gs) fs"
      proof (rule dz_unlink [OF d t _ _ b(1,2) k(1) m'])
        have "g \<notin> set hs" using dz_others(3) [OF d t, of g] p RM_cas g(1) by auto
        then show "loc m' ns (removeAll g gs) fs t (?at RM_clear)" using k srt ct pl keep by auto
      qed (use p RM_cas in auto)
      ultimately show ?thesis by (rule good_stepI)
    qed (use nc in simp)
  qed
qed

lemma collect_gc_step:
  assumes d: "dz N m P ns gs fs" and t: "t < N" and p: "P t = H_in hs (P_collect c q)" and f: "hz_act ops (P t) = Mem f"
    and q: "\<not> (q \<in> {CO_test, CO_lock, CO_nodes, CO_sort, CO_gc, CO_clear, CO_result} \<or> (\<exists>n. q \<in> {CO_scan n, CO_add n, CO_link n}) \<or> (\<exists>r. q = CO_unlock r))"
  shows "good_step N m P ns t f"
proof -
  note l = dz_lists(2) [OF d t, unfolded p, simplified] and gl = dz_lists(1) [OF d t]
  let ?at = "\<lambda>q. H_in hs (P_collect c q)"
  have f': "calls ?at (\<lambda>_. H_idle hs) (Collect_hp c q) = Mem f" using f p by simp
  have ct: "c = t" and hs: "\<forall>a\<in>set hs. plain (heap m) a" and lc: "loc_col m ns gs q" using l by auto
  have lk: "locked (P t)" using p q by auto
  have read: "good_step N m P ns t f" if "f m = (m, Ret (?at q'))" "loc_col m ns gs q'" "extra_col q' = extra_col q" "clearing_col q' = clearing_col q"
      "locked (?at q')" for q'
  proof (rule good_stepI [where f = f and m = m, OF that(1)])
    show "dz N m (P(t := ?at q')) ns gs fs" using that l p lk by (intro dz_read [OF d t]) auto
  qed
  show ?thesis
  proof (cases q)
    case (CO_gc_next g)
    show ?thesis
    proof (cases "g = end_node m")
      case True
      then have "f m = (m, Ret (?at CO_clear))" using f' CO_gc_next by (auto simp: step_simps)
      then show ?thesis using CO_gc_next by (rule_tac read) auto
    next
      case False
      then have g: "g \<in> set gs" using lc CO_gc_next by simp
      from gs_node [OF gl g] obtain k where k: "heap m g = Some k" "nxt (heap m) g = next_node k" "g \<noteq> NULL" .
      then have "f m = (m, Ret (?at (CO_gc_object g (next_node k))))" using False f' CO_gc_next by (auto simp: step_simps)
      then show ?thesis using CO_gc_next g k lc by (rule_tac read) auto
    qed
  next
    case (CO_gc_object g x)
    then have g: "g \<in> set gs" using lc by simp
    from gs_node [OF gl g] obtain k where k: "heap m g = Some k" "gcp (heap m) g = gc_pointer k" .
    have "gc_pointer k \<noteq> NULL" using gc_object_set [OF d t lk _ g] p CO_gc_object k by simp
    then have "f m = (m, Ret (?at (CO_gc_search g x (gc_pointer k))))" using f' CO_gc_object k by (auto simp: step_simps)
    then show ?thesis using CO_gc_object lc k \<open>gc_pointer k \<noteq> NULL\<close> by (rule_tac read) auto
  next
    case (CO_gc_search g x obj)
    then have g: "g \<in> set gs" using lc by simp
    from gs_node [OF gl g] obtain k where k: "heap m g = Some k" "pointer k = NULL" "nxt (heap m) g = next_node k" "next_node k = end_node m \<or> next_node k \<in> set gs" .
    then have "f m = (m, Ret (?at (if obj \<notin> set (all_haz_ptrs m) then CO_gc_clear g x obj else CO_gc_next x)))"
      using f' CO_gc_search lc by (auto simp: step_simps binary_search_member)
    then show ?thesis using CO_gc_search lc k by (rule_tac read) (auto split: if_splits)
  next
    case (CO_gc_clear g x obj)
    then have g: "g \<in> set gs" using lc by simp
    from gs_node [OF gl g] obtain k where k: "heap m g = Some k" "nxt (heap m) g = next_node k" "g \<notin> set fs" .
    let ?m = "m\<lparr>heap := (heap m)(g \<mapsto> k\<lparr>gc_pointer := NULL\<rparr>)\<rparr>"
    have "g \<notin> set hs" using dz_others(3) [OF d t, of g] p CO_gc_clear g by auto
    have "f m = (?m, Ret (?at (CO_gc_delete g x obj)))" using f' CO_gc_clear k by (auto simp: step_simps)
    moreover have "dz N ?m (P(t := ?at (CO_gc_delete g x obj))) ns gs fs"
      using lk p CO_gc_clear lc k hs ct g \<open>g \<notin> set hs\<close> by (intro dz_gc_clear [OF d t lk _ g k(1)]) (auto simp: plain_def)
    ultimately show ?thesis by (rule good_stepI)
  next
    case (CO_gc_delete g x obj)
    then have g: "g \<in> set gs" using lc by simp
    from gs_node [OF gl g] obtain k where k: "ptr (heap m) g = NULL" .
    let ?m = "m\<lparr>deleted := deleted m @ [obj]\<rparr>" and ?q = "?at (CO_gc_remove g x (RM_test1 (Head Gc)))"
    have "f m = (?m, Ret ?q)" using f' CO_gc_delete by (auto simp: step_simps)
    moreover have "dz N ?m (P(t := ?q)) ns gs fs"
      using p CO_gc_delete lc hs ct g k by (intro dz_keep [OF d t]) (auto simp: before_def)
    ultimately show ?thesis by (rule good_stepI)
  next
    case (CO_gc_remove g x r)
    with remove_step [OF d t _ f] p show ?thesis by simp
  next
    case (CO_gc_check g x)
    obtain k where "heap m (end_node m) = Some k" "pointer k = NULL" using gl by (fastforce simp: glob_def field_of)
    then have "f m = (m, Ret (?at (CO_gc_free g x PU_check)))" using f' CO_gc_check by (auto simp: step_simps)
    then show ?thesis using CO_gc_check lc by (rule_tac read) (auto simp: plain_def)
  next
    case (CO_gc_free g x r)
    have g: "g \<in> owns (end_node m) (P t)" using p CO_gc_free by simp
    from owned [OF d t this] obtain k where k: "heap m g = Some k" "gcp (heap m) g = gc_pointer k" "ptr (heap m) g = pointer k" .
    have nl: "gcp (heap m) g = NULL" "ptr (heap m) g = NULL" "loc_push (heap m) g r" "sorted (all_haz_ptrs m)" "x = end_node m \<or> x \<in> set gs" "g \<notin> set hs"
      using l CO_gc_free by auto
    have "calls (\<lambda>r. ?at (CO_gc_free g x r)) (\<lambda>_. ?at (CO_gc_next x)) (push g Free r) = Mem f"
      using f' CO_gc_free by (simp add: calls_via)
    moreover have "dz N (m\<lparr>free_list := g\<rparr>) (P(t := ?at (CO_gc_next x))) ns gs (g # fs)" if "nxt (heap m) g = free_list m"
      using that nl p g hs ct CO_gc_free by (intro dz_push_free [OF d t g]) auto
    ultimately show ?thesis
      using nl hs p k ct CO_gc_free by (intro push_step [OF d t g k(1), where lh = Free and r = r]) (auto simp: plain_def loc_push_on)
  qed (use q in auto)
qed


section \<open>The machine with rules for the callers\<close>

text \<open>
  An object is on its way out once a thread has called \<open>node_Delete\<close> on a node that protects it, until and after it is
  deleted.
\<close>

fun retiring :: "(addr \<rightharpoonup> node) \<Rightarrow> hz_pc \<Rightarrow> addr set" where
  "retiring h (H_in hs (P_delete n q)) = (if q = DE_check \<or> q = DE_load \<or> (\<exists>v. q = DE_exchange v) then {ptr h n} else {})"
| "retiring h _ = {}"

fun removing :: "hz_pc \<Rightarrow> addr set" where
  "removing (H_in hs (P_collect c (CO_gc_delete g x obj))) = {obj}"
| "removing _ = {}"

definition outgoing :: "nat \<Rightarrow> hp_list \<Rightarrow> (tid \<Rightarrow> hz_pc) \<Rightarrow> addr set" where
  "outgoing N m P = set (deleted m) \<union> gcp (heap m) ` UNIV \<union> (\<Union>t<N. retiring (heap m) (P t) \<union> removing (P t)) - {NULL}"

text \<open>
  The rules. A thread uses only nodes that it has obtained and not given back. No thread calls \<open>AcquireNode\<close> while another
  one is in its \<open>pop\<close>; \<open>node_Delete\<close> and \<open>Collect_hp\<close> do not overlap; an object is retired once and
  after it is unlinked from the cells, and an object on its way out is not linked again. \<^verbatim>\<open>new\<close> returns
  addresses that are not in use, and a thread calls \<open>Collect_hp\<close> under its own identity.
\<close>

fun op_allowed :: "nat \<Rightarrow> hp_list \<Rightarrow> (tid \<Rightarrow> hz_pc) \<Rightarrow> tid \<Rightarrow> addr list \<Rightarrow> hz_op \<Rightarrow> bool" where
  "op_allowed N m P t hs (New a j) = (a \<noteq> NULL \<and> (\<forall>u<N. \<not> popping (P u)))"
| "op_allowed N m P t hs (Acquire n c) = (n \<in> set hs \<and> cells m c \<noteq> None)"
| "op_allowed N m P t hs (Clear n) = (n \<in> set hs)"
| "op_allowed N m P t hs (Release n) = (n \<in> set hs)"
| "op_allowed N m P t hs (Delete n) = (n \<in> set hs \<and> (\<forall>u<N. \<not> collecting_hp (P u)) \<and>
     ptr (heap m) n \<notin> outgoing N m P \<and> (ptr (heap m) n \<noteq> NULL \<longrightarrow> Some (ptr (heap m) n) \<notin> range (cells m)))"
| "op_allowed N m P t hs (Collect_op u) = (u = t \<and> (\<forall>v<N. \<not> deleting (P v)))"
| "op_allowed N m P t hs (Write c v) = True"

definition call_allowed :: "nat \<Rightarrow> hz_op list \<Rightarrow> (hp_list, hz_pc) conf \<Rightarrow> tid \<Rightarrow> nat \<Rightarrow> bool" where
  "call_allowed N ops s t i \<longleftrightarrow> (case pcs s t of H_idle hs \<Rightarrow> i < length ops \<longrightarrow> op_allowed N (mem s) (pcs s) t hs (ops ! i) | _ \<Rightarrow> True)"

fun run_allowed :: "nat \<Rightarrow> hp_list \<Rightarrow> (tid \<Rightarrow> hz_pc) \<Rightarrow> hz_pc \<Rightarrow> bool" where
  "run_allowed N m P (H_in hs (P_write c v)) = (v \<notin> outgoing N m P)"
| "run_allowed N m P p = fresh_alloc m p"

fun event_allowed :: "nat \<Rightarrow> hz_op list \<Rightarrow> (hp_list, hz_pc) conf \<Rightarrow> event \<Rightarrow> bool" where
  "event_allowed N ops s (Run t) = run_allowed N (mem s) (pcs s) (pcs s t)"
| "event_allowed N ops s (Call t i) = call_allowed N ops s t i"
| "event_allowed N ops s ev = True"

definition guarded_step :: "nat \<Rightarrow> hz_op list \<Rightarrow> (hp_list, hz_pc) conf \<Rightarrow> (hp_list, hz_pc) conf \<Rightarrow> bool" where
  "guarded_step N ops s s' \<longleftrightarrow> (\<exists>ev. exec fifo_wake N (hz_act ops) (\<lambda>_ _. 0) s ev = Some s' \<and> event_allowed N ops s ev)"

lemma run_allowed_fresh: "run_allowed N m P p \<Longrightarrow> fresh_alloc m p"
  by (cases "(N, m, P, p)" rule: run_allowed.cases) simp_all

lemma guarded_hz_step: "guarded_step N ops s s' \<Longrightarrow> hz_step N ops s s'"
  unfolding guarded_step_def hz_step_def by (metis event_allowed.simps(1) run_allowed_fresh)

text \<open>What an event does: a call, or a step of a function.\<close>

lemma guarded_cases:
  assumes "guarded_step N ops s s'"
  obtains (call) t hs op where "t < N" "pcs s t = H_idle hs" "op_allowed N (mem s) (pcs s) t hs op"
      "s' = s\<lparr>pcs := (pcs s)(t := H_in hs (hz_enter op)), stat := (stat s)(t := Running)\<rparr>"
  | (step) t f where "t < N" "hz_act ops (pcs s t) = Mem f" "run_allowed N (mem s) (pcs s) (pcs s t)"
      "s' = goto t (snd (f (mem s))) (s\<lparr>mem := fst (f (mem s))\<rparr>)"
proof -
  obtain ev where e: "exec fifo_wake N (hz_act ops) (\<lambda>_ _. 0) s ev = Some s'" and a: "event_allowed N ops s ev"
    using assms by (auto simp: guarded_step_def)
  show ?thesis
  proof (cases ev)
    case (Run t)
    have t: "t < N" using e Run by (auto split: if_splits)
    obtain f where f: "hz_act ops (pcs s t) = Mem f" using e Run by (auto simp: hz_no_futex split: if_splits action.splits)
    show ?thesis using e Run f a t by (intro step [of t f]) (auto simp: split_beta Let_def split: if_splits)
  next
    case (Call t i)
    show ?thesis
    proof (cases "pcs s t")
      case (H_idle hs)
      with e Call have "t < N" "i < length ops" "s' = goto t (Ret (H_in hs (hz_enter (ops ! i)))) s" by (auto split: if_splits)
      with H_idle a Call show ?thesis by (intro call [of t hs "ops ! i"]) (auto simp: call_allowed_def)
    next
      case (H_in hs x)
      with e Call mem_point [of hs x] show ?thesis by (auto split: if_splits)
    qed
  qed (use e in \<open>auto simp: hz_no_futex split: if_splits action.splits\<close>)
qed

lemma dz_call:
  assumes d: "dz N m P ns gs fs" and t: "t < N" and p: "P t = H_idle hs" and a: "op_allowed N m P t hs op"
  shows "dz N m (P(t := H_in hs (hz_enter op))) ns gs fs"
proof -
  let ?q = "H_in hs (hz_enter op)"
  note dl = dz_lists [OF d t]
  have pl: "\<forall>a\<in>set hs. plain (heap m) a" using dl(2) p by simp
  have own: "owns (end_node m) ?q = set hs" "clearing ?q = None" "\<not> locked ?q" by (cases op; simp)+
  have "loc m ns gs fs t ?q" using pl a by (cases op) auto
  moreover have "exclusion N (P(t := ?q))"
  proof -
    have "exclusion N P" using d by (simp add: dz_def)
    then show ?thesis using a t p by (cases op) (auto simp: exclusion_def)
  qed
  moreover have "lock_ok N m (P(t := ?q))" using lock_ok_same [OF dl(4), of m ?q t] own p by simp
  moreover have "owns (end_node m) ((P(t := ?q)) u) = owns (end_node m) (P u)" "clearing ((P(t := ?q)) u) = clearing (P u)" for u
    using own p by simp_all
  moreover have "loc m ns gs fs u ((P(t := ?q)) u)" if "u < N" for u
    using dz_lists(2) [OF d that] \<open>loc m ns gs fs t ?q\<close> by simp
  ultimately show ?thesis using d unfolding dz_def by (simp del: fun_upd_apply owns.simps loc.simps)
qed

lemma dz_run:
  assumes d: "dz N m P ns gs fs" and c: "complete N m P ns" and t: "t < N" and f: "hz_act ops (P t) = Mem f" and a: "run_allowed N m P (P t)"
  shows "good_step N m P ns t f"
proof (cases "P t")
  case (H_idle hs)
  with f show ?thesis by simp
next
  case (H_in hs x)
  have ns: "chain (heap m) fixed_link (nodes m) ns (end_node m)" using c by (simp add: complete_def)
  show ?thesis
  proof (cases x)
    case (P_new a' j r)
    with new_step [OF d t _ f run_allowed_fresh [OF a]] H_in show ?thesis by simp
  next
    case (P_acquire n c' q)
    with acquire_step [OF d t _ f] H_in show ?thesis by simp
  next
    case (P_clear n q)
    with clear_step [OF d t _ f] H_in show ?thesis by simp
  next
    case (P_release n q)
    with release_step [OF d t _ f] H_in show ?thesis by simp
  next
    case (P_delete n q)
    with delete_step [OF d t _ f] delete_end_step [OF d t _ f] H_in show ?thesis by blast
  next
    case (P_collect c' q)
    with collect_scan_step [OF d t _ f ns] collect_gc_step [OF d t _ f] H_in show ?thesis by blast
  next
    case (P_write c' v)
    with write_step [OF d t _ f] H_in show ?thesis by simp
  qed
qed

end
