(* ===== verification/Hazard_Objects.thy ===== *)
theory Hazard_Objects
  imports Hazard_Steps
begin

text \<open>
  The objects that the clients of a \<^verbatim>\<open>HazardPointerList\<close> (\<^verbatim>\<open>src/src/HazardPointer.hpp\<close>) link, retire
  and lose, under the rules of theory \<open>Hazard_Steps\<close>: which steps change what is known of an object,
  and that an object that is linked in a cell is not on its way out.
\<close>

section \<open>Reachable states\<close>

lemma loc_col_more: "loc_col m ns gs q \<Longrightarrow> set ns \<subseteq> set ns' \<Longrightarrow> loc_col m ns' gs q"
  by (cases q) auto

lemma loc_more: "loc m ns gs fs t p \<Longrightarrow> set ns \<subseteq> set ns' \<Longrightarrow> loc m ns' gs fs t p"
proof (cases p)
  case (H_in hs x)
  then show "loc m ns gs fs t p \<Longrightarrow> set ns \<subseteq> set ns' \<Longrightarrow> loc m ns' gs fs t p" by (cases x) (auto intro: loc_col_more)
qed simp

lemma dz_more: "dz N m P ns gs fs \<Longrightarrow> set ns \<subseteq> set ns' \<Longrightarrow> dz N m P ns' gs fs"
  by (simp add: dz_def) (meson loc_more)

definition guarded_inv :: "nat \<Rightarrow> (hp_list, hz_pc) conf \<Rightarrow> addr list \<Rightarrow> bool" where
  "guarded_inv N s ns \<longleftrightarrow> halted s = None \<and> complete N (mem s) (pcs s) ns \<and> (\<exists>gs fs. dz N (mem s) (pcs s) ns gs fs)"

text \<open>A step keeps the invariant; the complete set grows at the front.\<close>

lemma guarded_inv_step:
  assumes i: "guarded_inv N s ns" and st: "guarded_step N ops s s'"
  shows "\<exists>zs. guarded_inv N s' (zs @ ns)"
proof -
  obtain gs fs where c: "complete N (mem s) (pcs s) ns" and d: "dz N (mem s) (pcs s) ns gs fs" and h: "halted s = None"
    using i by (auto simp: guarded_inv_def)
  obtain zs where c': "complete N (mem s') (pcs s') (zs @ ns)" using complete_step [OF c guarded_hz_step [OF st]] by blast
  have "halted s' = None \<and> (\<exists>gs' fs'. dz N (mem s') (pcs s') ns gs' fs')"
    using st
  proof (cases rule: guarded_cases)
    case (call t hs op)
    with dz_call [OF d call(1-3)] h show ?thesis by auto
  next
    case (step t f)
    from dz_run [OF d c step(1-3)] obtain m' q gs' fs' where "f (mem s) = (m', Ret q)" "dz N m' ((pcs s)(t := q)) ns gs' fs'"
      unfolding good_step_def by (elim exE conjE)
    with step(4) h show ?thesis by auto
  qed
  moreover have "dz N (mem s') (pcs s') (zs @ ns) gs' fs'" if "dz N (mem s') (pcs s') ns gs' fs'" for gs' fs'
    using dz_more [OF that] by auto
  ultimately show ?thesis using c' unfolding guarded_inv_def by blast
qed

abbreviation guarded_start :: "addr \<Rightarrow> (addr \<rightharpoonup> addr) \<Rightarrow> (hp_list, hz_pc) conf" where
  "guarded_start e mc \<equiv> start (HazardPointerList_ctor e mc) (H_idle [])"

lemma guarded_inv_start:
  assumes "e \<noteq> NULL"
  shows "guarded_inv N (guarded_start e mc) []"
proof -
  have "dz N (HazardPointerList_ctor e mc) (\<lambda>_. H_idle []) [] [] []"
    using assms by (simp add: dz_def glob_def lock_ok_def exclusion_def HazardPointerList_ctor_def init_def HazardPointerNode_ctor_def)
  moreover have "complete N (HazardPointerList_ctor e mc) (\<lambda>_. H_idle []) []"
    by (simp add: complete_def HazardPointerList_ctor_def init_def)
  ultimately show ?thesis by (auto simp: guarded_inv_def start_def)
qed

section \<open>What a step does to the objects\<close>

text \<open>\<open>eff A m m'\<close>: nothing happens to the objects, except that the pointers of the nodes in \<open>A\<close> change.\<close>

definition eff :: "addr set \<Rightarrow> hp_list \<Rightarrow> hp_list \<Rightarrow> bool" where
  "eff A m m' \<longleftrightarrow> gcp (heap m') = gcp (heap m) \<and> deleted m' = deleted m \<and> cells m' = cells m \<and> all_haz_ptrs m' = all_haz_ptrs m \<and>
     (\<forall>a. a \<notin> A \<longrightarrow> ptr (heap m') a = ptr (heap m) a)"

definition keeps_objs :: "addr set \<Rightarrow> (hp_list, 'n, unit) action \<Rightarrow> bool" where
  "keeps_objs A a \<longleftrightarrow> (case a of Mem f \<Rightarrow> \<forall>s. eff A s (fst (f s)) | _ \<Rightarrow> True)"

lemma eff_refl [simp]: "eff A s s"
  by (simp add: eff_def)

lemma eff_store:
  assumes "store upd a s = Ret s'" and "\<And>n. gc_pointer (upd n) = gc_pointer n" and "a \<in> A \<or> (\<forall>n. pointer (upd n) = pointer n)"
  shows "eff A s s'"
  using assms by (auto simp: store_def eff_def fun_eq_iff field_of split: option.splits)

lemma eff_stores:
  "store (next_node_update g) a s = Ret s' \<Longrightarrow> eff A s s'" "store (fixed_link_update g) a s = Ret s' \<Longrightarrow> eff A s s'"
  "a \<in> A \<Longrightarrow> store (pointer_update g) a s = Ret s' \<Longrightarrow> eff A s s'"
  by (auto intro: eff_store)

lemma keeps_objs_atom:
  assumes "\<And>s n s'. g s = Ret (n, s') \<Longrightarrow> eff A s s'"
  shows "keeps_objs A (atom g)"
  using assms by (auto simp: keeps_objs_def atom_def split: ctl.splits)

lemma keeps_objs_calls: "keeps_objs A a \<Longrightarrow> keeps_objs A (calls at k a)" "keeps_objs A a \<Longrightarrow> keeps_objs A (via at' k' a)"
  by (cases a; auto simp: keeps_objs_def via_def calls_def split_beta Let_def)+

lemma eff_head: "eff A s (set_head lh a s)"
  by (cases lh) (simp_all add: eff_def)

lemma eff_wr_link: "wr_link l v s = Ret s' \<Longrightarrow> eff A s s'"
  by (cases l) (auto simp: eff_head dest: eff_stores)

lemma eff_upd: "eff A s (s\<lparr>nodes := h\<rparr>)" "eff A s (s\<lparr>collector_client_lock := x\<rparr>)"
  "eff A s (s\<lparr>signals := k\<rparr>)"
  by (simp_all add: eff_def)

lemmas eff_rules = bnd_Ret_iff check_Ret_iff eff_head eff_upd

lemma objs_push: "keeps_objs A (push node lh p)"
  by (cases p) (auto intro!: keeps_objs_atom simp: eff_rules Let_def split_beta split: if_splits dest: eff_stores)

lemma objs_remove: "keeps_objs A (remove node lh p)"
  by (cases p) (auto intro!: keeps_objs_atom simp: eff_rules Let_def split_beta split: if_splits dest: eff_stores eff_wr_link)

lemma objs_pop: "keeps_objs A (pop lh p)"
  by (cases p) (auto intro!: keeps_objs_atom simp: eff_rules Let_def split_beta split: if_splits dest: eff_stores)

lemma objs_Add: "keeps_objs A (Add node p)"
  by (cases p) (auto intro!: keeps_objs_atom simp: eff_rules Let_def split_beta split: if_splits dest: eff_stores)

lemma objs_enqueue: "keeps_objs A (EnqueueFreeRecord node p)" "keeps_objs A (EnqueueRecordForCollection node q)"
  by (cases p; auto intro!: keeps_objs_atom keeps_objs_calls objs_push simp: eff_rules)
    (cases q; auto intro!: keeps_objs_atom keeps_objs_calls objs_push simp: eff_rules split: if_splits)

lemma objs_node:
  "keeps_objs {n} (node_Acquire n c p)" "keeps_objs {n} (node_Clear n q)" "keeps_objs {n} (node_Release n r)"
  "(\<And>v. d \<noteq> DE_exchange v) \<Longrightarrow> keeps_objs {n} (node_Delete n d)"
proof -
  show "keeps_objs {n} (node_Acquire n c p)"
    by (cases p) (auto intro!: keeps_objs_atom simp: eff_rules split: if_splits option.splits dest: eff_stores [rotated])
  show "keeps_objs {n} (node_Clear n q)"
    by (cases q) (auto intro!: keeps_objs_atom simp: eff_rules dest: eff_stores [rotated])
  show "keeps_objs {n} (node_Release n r)"
    by (cases r) (auto intro!: keeps_objs_atom keeps_objs_calls objs_enqueue simp: eff_rules split: if_splits dest: eff_stores [rotated])
  show "keeps_objs {n} (node_Delete n d)" if "\<And>v. d \<noteq> DE_exchange v"
    using that by (cases d) (auto intro!: keeps_objs_atom keeps_objs_calls objs_enqueue simp: eff_rules split: if_splits dest: eff_stores [rotated])
qed

lemma objs_Collect:
  assumes "\<And>g x v. q \<noteq> CO_gc_clear g x v \<and> q \<noteq> CO_gc_delete g x v" and "\<And>n. q \<noteq> CO_add n" "q \<noteq> CO_sort" "q \<noteq> CO_clear"
  shows "keeps_objs {} (Collect_hp c q)"
  using assms by (cases q) (auto intro!: keeps_objs_atom keeps_objs_calls objs_push objs_remove simp: eff_rules
      split: if_splits option.splits prod.splits)


section \<open>Objects on their way out\<close>

text \<open>Only calls of \<open>node_Delete\<close> add to them. First the bookkeeping for one thread's step.\<close>

definition leaving :: "hp_list \<Rightarrow> hz_pc \<Rightarrow> addr set" where
  "leaving m p = retiring (heap m) p \<union> removing p"

text \<open>The places of an object on its way out: deleted, waiting on a node, or in the hands of a thread.\<close>

datatype place = Gone nat | Waits addr | Leaves tid

definition places :: "nat \<Rightarrow> hp_list \<Rightarrow> (tid \<Rightarrow> hz_pc) \<Rightarrow> addr \<Rightarrow> place set" where
  "places N m P x = Gone ` {i. i < length (deleted m) \<and> deleted m ! i = x} \<union> Waits ` {a. gcp (heap m) a = x} \<union>
     Leaves ` {t. t < N \<and> x \<in> leaving m (P t)}"

lemma places_iff [simp]: "Gone i \<in> places N m P x \<longleftrightarrow> i < length (deleted m) \<and> deleted m ! i = x"
  "Waits a \<in> places N m P x \<longleftrightarrow> gcp (heap m) a = x" "Leaves t \<in> places N m P x \<longleftrightarrow> t < N \<and> x \<in> leaving m (P t)"
  by (auto simp: places_def)

lemma outgoing_places: "x \<in> outgoing N m P \<longleftrightarrow> x \<noteq> NULL \<and> places N m P x \<noteq> {}"
  by (auto simp: outgoing_def leaving_def places_def in_set_conv_nth image_iff)

text \<open>A step moves an object at most from one place to another one.\<close>

definition moved :: "nat \<Rightarrow> hp_list \<Rightarrow> (tid \<Rightarrow> hz_pc) \<Rightarrow> hp_list \<Rightarrow> (tid \<Rightarrow> hz_pc) \<Rightarrow> place \<Rightarrow> place \<Rightarrow> bool" where
  "moved N m P m' P' a b \<longleftrightarrow> (\<forall>x. x \<noteq> NULL \<longrightarrow> (\<forall>p\<in>places N m' P' x. if p = b then a \<in> places N m P x else p \<noteq> a \<and> p \<in> places N m P x))"

definition moves :: "nat \<Rightarrow> hp_list \<Rightarrow> (tid \<Rightarrow> hz_pc) \<Rightarrow> hp_list \<Rightarrow> (tid \<Rightarrow> hz_pc) \<Rightarrow> bool" where
  "moves N m P m' P' \<longleftrightarrow> (\<exists>a b. moved N m P m' P' a b)"

lemma moves_outgoing: "moves N m P m' P' \<Longrightarrow> outgoing N m' P' \<subseteq> outgoing N m P"
  unfolding moves_def moved_def subset_iff outgoing_places by (metis empty_iff equals0I)

definition one_place :: "nat \<Rightarrow> hp_list \<Rightarrow> (tid \<Rightarrow> hz_pc) \<Rightarrow> bool" where
  "one_place N m P \<longleftrightarrow> (\<forall>x. x \<noteq> NULL \<longrightarrow> (\<forall>p\<in>places N m P x. \<forall>q\<in>places N m P x. p = q))"

lemma moves_one_place: "moves N m P m' P' \<Longrightarrow> one_place N m P \<Longrightarrow> one_place N m' P'"
  unfolding moves_def moved_def one_place_def by metis

lemma stays:
  assumes t: "t < N" and u: "\<And>u. u < N \<Longrightarrow> u \<noteq> t \<Longrightarrow> leaving m' (P u) = leaving m (P u)"
    and s: "deleted m' = deleted m" "gcp (heap m') = gcp (heap m)" "leaving m' q \<subseteq> leaving m (P t)"
  shows "moves N m P m' (P(t := q))"
proof -
  have "p \<in> places N m P x" if "p \<in> places N m' (P(t := q)) x" for p x
    using that s u t by (cases p) (auto split: if_splits)
  then have "moved N m P m' (P(t := q)) (Leaves t) (Leaves t)"
    unfolding moved_def by (metis (full_types))
  then show ?thesis by (auto simp: moves_def)
qed

text \<open>The others do not notice: their nodes are not those that the step writes.\<close>

lemma leaving_other:
  assumes d: "dz N m P ns gs fs" and u: "u < N" and a: "\<And>b. b \<in> owns (end_node m) (P u) \<Longrightarrow> ptr (heap m') b = ptr (heap m) b"
  shows "leaving m' (P u) = leaving m (P u)"
proof (cases "\<exists>hs n q. P u = H_in hs (P_delete n q)")
  case True
  then obtain hs n q where p: "P u = H_in hs (P_delete n q)" by blast
  then have n: "n \<in> set hs" using dz_lists(2) [OF d u] by simp
  show ?thesis
  proof (cases "q = DE_check \<or> q = DE_load \<or> (\<exists>v. q = DE_exchange v)")
    case True
    then have "n \<in> owns (end_node m) (P u)" using p n by auto
    with a p show ?thesis by (simp add: leaving_def)
  qed (use p in \<open>simp add: leaving_def\<close>)
next
  case False
  then have "retiring h (P u) = {}" for h by (cases "(h, P u)" rule: retiring.cases) auto
  then show ?thesis by (simp add: leaving_def)
qed

lemma calls_leaving:
  assumes "calls at ret a = Mem f" and "f m = (m', Ret q)" and "\<And>x. leaving m' (at x) = {}" and "\<And>r. leaving m' (ret r) = {}"
  shows "leaving m' q = {}"
  using assms(1,2) by (rule calls_Mem_Ret) (use assms(3,4) in \<open>auto split: cont.splits\<close>)

lemma eff_outgoing:
  assumes d: "dz N m P ns gs fs" and t: "t < N" and e: "eff A m m'" and A: "\<And>a. a \<in> A \<Longrightarrow> a \<in> owns (end_node m) (P t) \<or> a \<in> set gs"
    and q: "leaving m' q \<subseteq> leaving m (P t)"
  shows "moves N m P m' (P(t := q))"
proof (rule stays [OF t])
  fix u assume u: "u < N" "u \<noteq> t"
  have "b \<notin> A" if "b \<in> owns (end_node m) (P u)" for b
    using A [of b] that dz_lists(6) [OF d t u] dz_others(3) [OF d u(1) that] by blast
  then show "leaving m' (P u) = leaving m (P u)" using leaving_other [OF d u(1)] e unfolding eff_def by blast
qed (use e q in \<open>auto simp: eff_def\<close>)

text \<open>\<open>outside p m m'\<close>: what a step of a function other than \<open>Collect_hp\<close> leaves alone.\<close>

definition outside :: "hz_pc \<Rightarrow> hp_list \<Rightarrow> hp_list \<Rightarrow> bool" where
  "outside p m m' \<longleftrightarrow> deleted m' = deleted m \<and> all_haz_ptrs m' = all_haz_ptrs m \<and> (deleting p \<or> gcp (heap m') = gcp (heap m))"

lemma eff_outside: "eff A m m' \<Longrightarrow> cells m' = cells m \<and> outside p m m'"
  by (simp add: eff_def outside_def)

lemma keeps_objsD: "keeps_objs A a \<Longrightarrow> a = Mem f \<Longrightarrow> f m = (m', c) \<Longrightarrow> eff A m m'"
  by (auto simp: keeps_objs_def) (metis fst_conv)


lemma delete_outgoing:
  assumes d: "dz N m P ns gs fs" and t: "t < N" and p: "P t = H_in hs (P_delete n q)"
    and f: "hz_act ops (P t) = Mem f" "f m = (m', Ret q')"
  shows "moves N m P m' (P(t := q')) \<and> cells m' = cells m \<and> outside (P t) m m'"
proof -
  note l = dz_lists(2) [OF d t, unfolded p, simplified]
  have f': "calls (\<lambda>q. H_in hs (P_delete n q)) (\<lambda>ok. H_idle (give_back n ok hs)) (node_Delete n q) = Mem f" using f p by simp
  have nn: "n \<in> owns (end_node m) (P t) \<or> n \<in> set gs" using l p by (cases q) (auto split: if_splits)
  show ?thesis
  proof (cases "q = DE_check \<or> q = DE_load \<or> (\<exists>v. q = DE_exchange v)")
    case True
    then have "n \<in> owns (end_node m) (P t)" using l p by auto
    from owned [OF d t this] obtain k where k: "heap m n = Some k" "ptr (heap m) n = pointer k" "gcp (heap m) n = gc_pointer k" .
    show ?thesis
    proof (cases "\<exists>v. q = DE_exchange v")
      case True
      then obtain v where q: "q = DE_exchange v" by blast
      have m': "m' = m\<lparr>heap := (heap m)(n \<mapsto> k\<lparr>gc_pointer := v\<rparr>)\<rparr>" "q' = H_in hs (P_delete n (DE_return (gc_pointer k)))"
        using f' f(2) q k by (auto simp: step_simps)
      have v: "v = pointer k" using l q k by simp
      have "moves N m P m' (P(t := q'))"
      proof -
        have "leaving m' (P u) = leaving m (P u)" if "u < N" "u \<noteq> t" for u
          using k m' by (intro leaving_other [OF d that(1)]) simp
        moreover have "leaving m' q' = {}" "leaving m (P t) = {v}" using m' v k p q by (simp_all add: leaving_def)
        ultimately have "if y = Waits n then Leaves t \<in> places N m P x else y \<noteq> Leaves t \<and> y \<in> places N m P x"
          if "y \<in> places N m' (P(t := q')) x" for x y
          using that m' t by (cases y) (auto split: if_splits)
        then show ?thesis unfolding moves_def moved_def by blast
      qed
      with m' p show ?thesis by (simp add: outside_def)
    next
      case False
      then have m': "m' = m" "q' = H_idle hs \<or> q' = H_in hs (P_delete n DE_load) \<or> (\<exists>v. q' = H_in hs (P_delete n (DE_exchange v)))"
        using True f' f(2) k l by (auto simp: step_simps give_back_def plain_def split: if_splits)
      have "moves N m P m' (P(t := q'))"
        using m' p True by (intro eff_outgoing [OF d t, of "{}"]) (auto simp: leaving_def)
      with m' p show ?thesis by (simp add: outside_def)
    qed
  next
    case False
    then have e: "eff {n} m m'" using keeps_objsD [OF keeps_objs_calls(1) [OF objs_node(4)] f' f(2)] by blast
    have "leaving m' q' = {}"
    proof -
      from f' f(2) obtain g x where g: "node_Delete n q = Mem g" "g m = (m', Ret x)" and q': "q' = after (\<lambda>q. H_in hs (P_delete n q)) (\<lambda>ok. H_idle (give_back n ok hs)) x"
        by (rule calls_Mem_Ret)
      have "y \<noteq> DE_check \<and> y \<noteq> DE_load \<and> (\<forall>v. y \<noteq> DE_exchange v)" if y: "x = Goto y" for y
      proof (cases q)
        case (DE_enqueue r)
        then have "calls (\<lambda>r. Goto (DE_enqueue r)) (\<lambda>_. Goto DE_check2) (EnqueueRecordForCollection n r) = Mem g" using g(1) by (simp add: via_def)
        from this g(2) show ?thesis by (rule calls_Mem_Ret) (use y in \<open>auto split: cont.splits\<close>)
      qed (use y g False in \<open>auto simp: atom_def ctl_rules split: ctl.splits prod.splits\<close>)
      with q' show ?thesis by (cases x) (auto simp: leaving_def)
    qed
    then have "moves N m P m' (P(t := q'))"
      using nn by (intro eff_outgoing [OF d t e]) auto
    with eff_outside [OF e] show ?thesis by blast
  qed
qed


lemma removing_none: "(\<And>g z v. y \<noteq> CO_gc_delete g z v) \<Longrightarrow> removing (H_in hs (P_collect c y)) = {}"
  by (cases y) auto

lemma collect_outgoing:
  assumes d: "dz N m P ns gs fs" and t: "t < N" and p: "P t = H_in hs (P_collect c q)"
    and f: "hz_act ops (P t) = Mem f" "f m = (m', Ret q')"
  shows "moves N m P m' (P(t := q')) \<and> cells m' = cells m"
proof -
  note l = dz_lists(2) [OF d t, unfolded p, simplified] and gl = dz_lists(1) [OF d t]
  have f': "calls (\<lambda>q. H_in hs (P_collect c q)) (\<lambda>_. H_idle hs) (Collect_hp c q) = Mem f" using f p by simp
  consider (cl) g x obj where "q = CO_gc_clear g x obj" | (del) g x obj where "q = CO_gc_delete g x obj"
    | (haz) "(\<exists>n. q = CO_add n) \<or> q = CO_sort \<or> q = CO_clear"
    | (other) "\<And>g x v. q \<noteq> CO_gc_clear g x v \<and> q \<noteq> CO_gc_delete g x v" "\<And>n. q \<noteq> CO_add n" "q \<noteq> CO_sort" "q \<noteq> CO_clear" by blast
  then show ?thesis
  proof cases
    case cl
    then have g: "g \<in> set gs" "obj = gcp (heap m) g" using l by auto
    from gs_node [OF gl g(1)] obtain k where k: "heap m g = Some k" "gcp (heap m) g = gc_pointer k" "ptr (heap m) g = NULL" "pointer k = NULL" .
    have m': "m' = m\<lparr>heap := (heap m)(g \<mapsto> k\<lparr>gc_pointer := NULL\<rparr>)\<rparr>" "q' = H_in hs (P_collect c (CO_gc_delete g x obj))"
      using f' f(2) cl k by (auto simp: step_simps)
    have "moves N m P m' (P(t := q'))"
    proof -
      have "leaving m' (P u) = leaving m (P u)" if "u < N" "u \<noteq> t" for u
        using k m' by (intro leaving_other [OF d that(1)]) simp
      moreover have "leaving m' q' = {obj}" using m' by (simp add: leaving_def)
      ultimately have "if y = Leaves t then Waits g \<in> places N m P z else y \<noteq> Waits g \<and> y \<in> places N m P z"
        if "y \<in> places N m' (P(t := q')) z" "z \<noteq> NULL" for z y
        using that m' g by (cases y) (auto split: if_splits)
      then show ?thesis unfolding moves_def moved_def by blast
    qed
    with m' show ?thesis by simp
  next
    case del
    have m': "m' = m\<lparr>deleted := deleted m @ [obj]\<rparr>" "q' = H_in hs (P_collect c (CO_gc_remove g x (RM_test1 (Head Gc))))"
      using f' f(2) del by (auto simp: step_simps)
    have "moves N m P m' (P(t := q'))"
    proof -
      have "leaving m' (P u) = leaving m (P u)" if "u < N" "u \<noteq> t" for u
        using m' by (intro leaving_other [OF d that(1)]) simp
      moreover have "leaving m' q' = {}" "leaving m (P t) = {obj}" using m' p del by (simp_all add: leaving_def)
      ultimately have "if y = Gone (length (deleted m)) then Leaves t \<in> places N m P z else y \<noteq> Leaves t \<and> y \<in> places N m P z"
        if "y \<in> places N m' (P(t := q')) z" for z y
        using that m' t by (cases y) (auto simp: nth_append split: if_splits)
      then show ?thesis unfolding moves_def moved_def by blast
    qed
    with m' show ?thesis by simp
  next
    case haz
    then obtain z q2 where m': "m' = m\<lparr>all_haz_ptrs := z\<rparr>" "q' = H_in hs (P_collect c q2)" "removing q' = {}"
      using f' f(2) by (auto simp: step_simps bnd_Ret_iff split: ctl.splits prod.splits)
    have "moves N m P m' (P(t := q'))"
      using m' by (intro stays [OF t] leaving_other [OF d]) (auto simp: leaving_def)
    with m' show ?thesis by simp
  next
    case other
    have e: "eff {} m m'" using keeps_objsD [OF keeps_objs_calls(1) [OF objs_Collect [OF other]] f' f(2)] .
    from f' f(2) obtain h x where h: "Collect_hp c q = Mem h" "h m = (m', Ret x)" and q': "q' = after (\<lambda>q. H_in hs (P_collect c q)) (\<lambda>_. H_idle hs) x"
      by (rule calls_Mem_Ret)
    have "y \<noteq> CO_gc_delete g z v" if y: "x = Goto y" for y g z v
    proof (cases q)
      case (CO_gc_remove g z r)
      then have "calls (\<lambda>r. Goto (CO_gc_remove g z r)) (\<lambda>_. Goto (CO_gc_check g z)) (remove g Gc r) = Mem h" using h(1) by (simp add: via_def)
      from this h(2) show ?thesis by (rule calls_Mem_Ret) (use y in \<open>auto split: cont.splits\<close>)
    next
      case (CO_gc_free g z r)
      then have "calls (\<lambda>r. Goto (CO_gc_free g z r)) (\<lambda>_. Goto (CO_gc_next z)) (push g Free r) = Mem h" using h(1) by (simp add: via_def)
      from this h(2) show ?thesis by (rule calls_Mem_Ret) (use y in \<open>auto split: cont.splits\<close>)
    qed (use y h other(1) in \<open>auto simp: atom_def ctl_rules split: ctl.splits prod.splits if_splits option.splits\<close>)
    then have "leaving m' q' = {}" using q' by (cases x) (auto simp: leaving_def removing_none)
    then have "moves N m P m' (P(t := q'))" by (intro eff_outgoing [OF d t e]) auto
    with e show ?thesis by (simp add: eff_def)
  qed
qed


lemma new_outgoing:
  assumes d: "dz N m P ns gs fs" and t: "t < N" and p: "P t = H_in hs (P_new a j q)" and fr: "fresh_alloc m (P t)"
    and f: "hz_act ops (P t) = Mem f" "f m = (m', Ret q')"
  shows "moves N m P m' (P(t := q')) \<and> cells m' = cells m \<and> outside (P t) m m'"
proof -
  have f': "calls (\<lambda>q. H_in hs (P_new a j q)) (\<lambda>n. H_idle (n # hs)) (AcquireNode a j q) = Mem f" using f p by simp
  have lv: "leaving m' q' = {}" using f' f(2) by (rule calls_leaving) (simp_all add: leaving_def)
  have e: "eff {} m m'"
  proof (cases q)
    case (AN_test n)
    show ?thesis
    proof (cases "n = end_node m")
      case True
      then have "m' = new_node a j m" "heap m a = None" using f' f(2) AN_test fr p by (auto simp: step_simps)
      then show ?thesis by (auto simp: eff_def new_node_def HazardPointerNode_ctor_def fun_eq_iff gcp_def ptr_def)
    qed (use f' f(2) AN_test in \<open>auto simp: step_simps\<close>)
  next
    case (AN_pop r)
    then show ?thesis using keeps_objsD [OF _ f' f(2), of "{}"] by (auto intro: keeps_objs_calls objs_pop)
  next
    case (AN_add r)
    then show ?thesis using keeps_objsD [OF _ f' f(2), of "{}"] by (auto intro: keeps_objs_calls objs_Add)
  qed
  with eff_outgoing [OF d t e, of q'] eff_outside [OF e] lv show ?thesis by blast
qed

lemma node_outgoing:
  assumes d: "dz N m P ns gs fs" and t: "t < N" and n: "n \<in> owns (end_node m) (P t)"
    and a: "calls at ret a = Mem f" "f m = (m', Ret q')" "keeps_objs {n} a"
    and lv: "\<And>x. leaving m' (at x) = {}" "\<And>r. leaving m' (ret r) = {}"
  shows "moves N m P m' (P(t := q')) \<and> cells m' = cells m \<and> outside (P t) m m'"
proof -
  have e: "eff {n} m m'" using keeps_objsD [OF keeps_objs_calls(1) [OF a(3)] a(1,2)] .
  moreover have "leaving m' q' = {}" using a(1,2) lv by (rule calls_leaving)
  ultimately show ?thesis using eff_outgoing [OF d t e, of q'] eff_outside [OF e] n by simp
qed

lemma run_outgoing:
  assumes d: "dz N m P ns gs fs" and t: "t < N" and al: "run_allowed N m P (P t)"
    and f: "hz_act ops (P t) = Mem f" "f m = (m', Ret q')"
  shows "moves N m P m' (P(t := q')) \<and>
    (cells m' = cells m \<or> (\<exists>hs c v. P t = H_in hs (P_write c v) \<and> cells m' = (cells m)(c \<mapsto> v) \<and> v \<notin> outgoing N m P)) \<and> (collecting_hp (P t) \<or> outside (P t) m m')"
proof (cases "P t")
  case (H_in hs x)
  note l = dz_lists(2) [OF d t, unfolded H_in, simplified]
  show ?thesis
  proof (cases x)
    case (P_new a j q)
    with new_outgoing [OF d t _ run_allowed_fresh [OF al] f] H_in show ?thesis by blast
  next
    case (P_acquire n c q)
    have "calls (\<lambda>q. H_in hs (P_acquire n c q)) (\<lambda>_. H_idle hs) (node_Acquire n c q) = Mem f" using f(1) H_in P_acquire by simp
    from node_outgoing [OF d t _ this f(2) objs_node(1)] H_in P_acquire l show ?thesis by (simp add: leaving_def)
  next
    case (P_clear n q)
    have "calls (\<lambda>q. H_in hs (P_clear n q)) (\<lambda>_. H_idle hs) (node_Clear n q) = Mem f" using f(1) H_in P_clear by simp
    from node_outgoing [OF d t _ this f(2) objs_node(2)] H_in P_clear l show ?thesis by (simp add: leaving_def)
  next
    case (P_release n q)
    have "calls (\<lambda>q. H_in hs (P_release n q)) (\<lambda>ok. H_idle (give_back n ok hs)) (node_Release n q) = Mem f" using f(1) H_in P_release by simp
    from node_outgoing [OF d t _ this f(2) objs_node(3)] H_in P_release l show ?thesis by (simp add: leaving_def)
  next
    case (P_delete n q)
    with delete_outgoing [OF d t _ f] H_in show ?thesis by blast
  next
    case (P_collect c q)
    with collect_outgoing [OF d t _ f] H_in show ?thesis by simp
  next
    case (P_write c v)
    with H_in f have m': "m' = m\<lparr>cells := (cells m)(c \<mapsto> v)\<rparr>" "q' = H_idle hs" by auto
    have "moves N m P m' (P(t := q'))"
      using m' by (intro stays [OF t] leaving_other [OF d]) (auto simp: leaving_def)
    moreover have "v \<notin> outgoing N m P" using al H_in P_write by simp
    ultimately show ?thesis using m' H_in P_write by (auto simp: outside_def)
  qed
qed (use f in simp)

text \<open>Objects that are linked are not on their way out, and no object is so twice.\<close>

definition linked_safe :: "nat \<Rightarrow> (hp_list, hz_pc) conf \<Rightarrow> bool" where
  "linked_safe N s \<longleftrightarrow> (\<forall>c x. cells (mem s) c = Some x \<longrightarrow> x \<notin> outgoing N (mem s) (pcs s)) \<and> one_place N (mem s) (pcs s)"

lemma call_places:
  assumes p: "P t = H_idle hs" and al: "op_allowed N m P t hs op" and x: "x \<noteq> NULL" and y: "y \<in> places N m (P(t := H_in hs (hz_enter op))) x"
  shows "y \<in> places N m P x \<or> y = Leaves t \<and> places N m P x = {} \<and> Some x \<notin> range (cells m)"
proof (cases "y = Leaves t")
  case True
  then have "x \<in> leaving m (H_in hs (hz_enter op))" using y by simp
  then obtain n where "op = Delete n" "x = ptr (heap m) n" by (cases op) (simp_all add: leaving_def)
  then have "x \<notin> outgoing N m P" "Some x \<notin> range (cells m)" using al x by simp_all
  with True x show ?thesis by (simp add: outgoing_places)
next
  case False
  with y show ?thesis by (cases y) simp_all
qed

lemma linked_safe_step:
  assumes i: "guarded_inv N s ns" and ls: "linked_safe N s" and st: "guarded_step N ops s s'"
  shows "linked_safe N s'"
proof -
  obtain gs fs where c: "complete N (mem s) (pcs s) ns" and d: "dz N (mem s) (pcs s) ns gs fs" using i by (auto simp: guarded_inv_def)
  have cl: "\<And>k x. cells (mem s) k = Some x \<Longrightarrow> x \<notin> outgoing N (mem s) (pcs s)" and one: "one_place N (mem s) (pcs s)"
    using ls by (auto simp: linked_safe_def)
  from st show ?thesis
  proof (cases rule: guarded_cases)
    case (call t hs op)
    let ?P = "(pcs s)(t := H_in hs (hz_enter op))"
    note pl = call_places [where P = "pcs s", OF call(2,3)]
    have "x \<notin> outgoing N (mem s) ?P" if k: "cells (mem s) k = Some x" for k x
    proof
      assume "x \<in> outgoing N (mem s) ?P"
      then obtain y where "x \<noteq> NULL" "y \<in> places N (mem s) ?P x" by (auto simp: outgoing_places)
      from pl [OF this] cl [OF k] this(1) k show False by (auto simp: outgoing_places) (metis rangeI)
    qed
    moreover have "one_place N (mem s) ?P" unfolding one_place_def
    proof (intro allI impI ballI)
      fix x y z assume x: "x \<noteq> NULL" and yz: "y \<in> places N (mem s) ?P x" "z \<in> places N (mem s) ?P x"
      from pl [OF x yz(1)] pl [OF x yz(2)] one x show "y = z" unfolding one_place_def by blast
    qed
    moreover have "mem s' = mem s" "pcs s' = ?P" using call(4) by simp_all
    ultimately show ?thesis by (simp add: linked_safe_def)
  next
    case (step t f)
    from dz_run [OF d c step(1-3)] obtain m' q where f: "f (mem s) = (m', Ret q)" unfolding good_step_def by (elim exE conjE)
    have s': "mem s' = m'" "pcs s' = (pcs s)(t := q)" using step(4) f by simp_all
    note ro = run_outgoing [OF d step(1,3,2) f]
    then have sub: "outgoing N m' ((pcs s)(t := q)) \<subseteq> outgoing N (mem s) (pcs s)" using moves_outgoing by blast
    have "x \<notin> outgoing N (mem s) (pcs s)" if k: "cells m' k = Some x" for k x
      using ro cl k by (auto split: if_splits)
    with sub s' moves_one_place [OF _ one] ro show ?thesis by (auto simp: linked_safe_def)
  qed
qed

end
