(* ===== verification/Hazard_Guarded.thy ===== *)
theory Hazard_Guarded
  imports Hazard_Objects
begin

text \<open>
  What the rules of theory \<open>Hazard_Steps\<close> give the clients of a \<^verbatim>\<open>HazardPointerList\<close>
  (\<^verbatim>\<open>src/src/HazardPointer.hpp\<close>) in every interleaving: no assertion fails and no access faults, no node is
  given to two threads, and an object is not deleted while a node protects it, from the moment on at which the
  client has checked, as the comment on \<^verbatim>\<open>Acquire\<close> asks it to, that the object is still linked.
\<close>

section \<open>What Collect knows of a protected object\<close>

text \<open>
  Node \<open>k\<close> protects object \<open>x\<close>. Before \<^verbatim>\<open>Collect\<close> has visited \<open>k\<close> it will find \<open>x\<close> there; afterwards \<open>x\<close> is in
  its list of hazard pointers, unless nobody has retired \<open>x\<close>: then it stays so until \<^verbatim>\<open>Collect\<close> is done, as
  \<^verbatim>\<open>Delete\<close> does not overlap it.
\<close>

definition covered :: "hp_list \<Rightarrow> addr \<Rightarrow> bool" where
  "covered m x \<longleftrightarrow> x \<notin> range (gcp (heap m)) \<or> x \<in> set (all_haz_ptrs m)"

definition rest_from :: "addr list \<Rightarrow> addr \<Rightarrow> addr list" where
  "rest_from ns n = dropWhile (\<lambda>a. a \<noteq> n) ns"

fun guard_col :: "hp_list \<Rightarrow> addr list \<Rightarrow> addr \<Rightarrow> addr \<Rightarrow> collect_pc \<Rightarrow> bool" where
  "guard_col m ns x k (CO_scan n) = (covered m x \<or> k \<in> set (rest_from ns n))"
| "guard_col m ns x k (CO_add n) = (covered m x \<or> k \<in> set (rest_from ns n))"
| "guard_col m ns x k (CO_link n) = (covered m x \<or> k \<in> set (tl (rest_from ns n)))"
| "guard_col m ns x k (CO_gc_delete g y obj) = (covered m x \<and> obj \<noteq> x)"
| "guard_col m ns x k CO_test = True"
| "guard_col m ns x k CO_lock = True"
| "guard_col m ns x k CO_nodes = True"
| "guard_col m ns x k CO_result = True"
| "guard_col m ns x k (CO_unlock r) = True"
| "guard_col m ns x k q = covered m x"

fun guard_at :: "hp_list \<Rightarrow> addr list \<Rightarrow> addr \<Rightarrow> addr \<Rightarrow> hz_pc \<Rightarrow> bool" where
  "guard_at m ns x k (H_in hs (P_collect c q)) = guard_col m ns x k q"
| "guard_at m ns x k _ = True"

lemma guard_outside: "\<not> collecting_hp p \<Longrightarrow> guard_at m ns x k p"
  by (cases p rule: collecting_hp.cases) auto

lemma guard_unlocked: "\<not> locked p \<Longrightarrow> guard_at m ns x k p"
  by (cases p rule: collecting_hp.cases) auto

lemma guard_unretired: "x \<notin> range (gcp (heap m)) \<Longrightarrow> x \<notin> removing p \<Longrightarrow> guard_at m ns x k p"
proof (cases p rule: collecting_hp.cases)
  case (1 hs c q)
  moreover assume "x \<notin> range (gcp (heap m))" "x \<notin> removing p"
  ultimately show ?thesis by (cases q) (auto simp: covered_def)
qed auto

lemma guard_same:
  assumes "gcp (heap m') = gcp (heap m)" and "all_haz_ptrs m' = all_haz_ptrs m"
  shows "guard_at m' ns x k p = guard_at m ns x k p"
proof (cases p rule: collecting_hp.cases)
  case (1 hs c q)
  with assms show ?thesis by (cases q) (simp_all add: covered_def)
qed auto

subsection \<open>The walk over the complete set\<close>

lemma rest_from_grow: "n \<notin> set zs \<Longrightarrow> rest_from (zs @ ns) n = rest_from ns n"
  unfolding rest_from_def by (rule dropWhile_append2) auto

lemma rest_from_here: "n \<in> set ns \<Longrightarrow> rest_from ns n = n # tl (rest_from ns n)"
  unfolding rest_from_def by (induction ns) auto

lemma rest_from_start: "chain h fld b ns e \<Longrightarrow> rest_from ns b = ns"
  by (cases ns) (auto simp: rest_from_def)

lemma rest_from_end: "e \<notin> set ns \<Longrightarrow> rest_from ns e = []"
  by (auto simp: rest_from_def)

lemma rest_from_split: "n \<notin> set ys \<Longrightarrow> rest_from (ys @ n # zs) n = n # zs"
  by (simp add: rest_from_grow) (simp add: rest_from_def)

lemma rest_from_next:
  assumes ch: "chain h fld b ns e" and "distinct ns" and "n \<in> set ns" and "h n = Some r" and "e \<notin> set ns"
  shows "rest_from ns (fld r) = tl (rest_from ns n)"
proof -
  obtain ys zs where ns: "ns = ys @ n # zs" "n \<notin> set ys" using assms(3) split_list_first by fastforce
  have v: "fld r = (case zs of [] \<Rightarrow> e | z # _ \<Rightarrow> z)" using chain_next [of h fld b ys n zs e r] ch assms(4) ns(1) by simp
  show ?thesis
  proof (cases zs)
    case Nil
    with v assms(5) ns show ?thesis by (simp add: rest_from_end rest_from_split)
  next
    case (Cons a as)
    have "a \<notin> set (ys @ [n])" using assms(2) ns Cons by auto
    then have "rest_from ((ys @ [n]) @ a # as) a = a # as" by (rule rest_from_split)
    with v ns Cons show ?thesis by (simp add: rest_from_split)
  qed
qed

lemma guard_grow:
  assumes "guard_at m ns x k p" and "loc m ns gs fs t p" and "distinct (zs @ ns)" and "end_node m \<notin> set (zs @ ns)"
  shows "guard_at m (zs @ ns) x k p"
proof (cases p rule: collecting_hp.cases)
  case (1 hs c q)
  have "rest_from (zs @ ns) n = rest_from ns n" if "n = end_node m \<or> n \<in> set ns" for n
    using that assms(3,4) by (intro rest_from_grow) auto
  with assms(1,2) 1 show ?thesis by (cases q) auto
qed auto

subsection \<open>Steps\<close>

text \<open>A step of \<^verbatim>\<open>Collect\<close> does not delete \<open>x\<close> and keeps what it knows; without the mutex it changes nothing.\<close>

definition still_guarded :: "hp_list \<Rightarrow> hp_list \<Rightarrow> addr list \<Rightarrow> addr \<Rightarrow> addr \<Rightarrow> hz_pc \<Rightarrow> hz_pc \<Rightarrow> bool" where
  "still_guarded m m' ns x k p q \<longleftrightarrow> x \<notin> set (deleted m') \<and> guard_at m' ns x k q \<and>
     (locked p \<or> gcp (heap m') = gcp (heap m) \<and> all_haz_ptrs m' = all_haz_ptrs m)"

lemma scan_guard:
  assumes d: "dz N m P ns gs fs" and c: "complete N m P ns" and t: "t < N" and p: "P t = H_in hs (P_collect u q)"
    and f: "hz_act ops (P t) = Mem f" "f m = (m', Ret q')" and k: "ptr (heap m) k = x" "k \<in> set ns" "x \<noteq> NULL"
    and g: "guard_at m ns x k (P t)" and nd: "x \<notin> set (deleted m)"
    and q: "(\<exists>n. q = CO_scan n \<or> q = CO_add n \<or> q = CO_link n)"
  shows "still_guarded m m' ns x k (P t) q'"
proof -
  note l = dz_lists(2) [OF d t, unfolded p, simplified]
  have ch: "chain (heap m) fixed_link (nodes m) ns (end_node m)" "distinct ns" using c by (simp_all add: complete_def)
  note ne = chain_not_end [OF ch(1)]
  have f': "calls (\<lambda>q. H_in hs (P_collect u q)) (\<lambda>_. H_idle hs) (Collect_hp u q) = Mem f" using f p by simp
  have node: "\<exists>r. heap m n = Some r" if "n \<in> set ns" for n using chain_dom [OF ch(1)] that by auto
  show ?thesis
  proof (cases q)
    case (CO_scan n)
    show ?thesis
    proof (cases "n = end_node m")
      case True
      then show ?thesis using f' f(2) nd g p CO_scan rest_from_end [OF ne] by (auto simp: step_simps still_guarded_def)
    next
      case False
      then have n: "n \<in> set ns" using l CO_scan by simp
      from node [OF n] obtain r where r: "heap m n = Some r" by blast
      then have "k = n \<Longrightarrow> pointer r \<noteq> NULL" using k by (auto simp: field_of)
      with False r show ?thesis using f' f(2) nd g p CO_scan rest_from_here [OF n] by (auto simp: step_simps still_guarded_def split: if_splits) (metis set_ConsD)
    qed
  next
    case (CO_add n)
    then have n: "n \<in> set ns" using l by simp
    from node [OF n] obtain r where r: "heap m n = Some r" by blast
    have "f m = (m\<lparr>all_haz_ptrs := all_haz_ptrs m @ [pointer r]\<rparr>, Ret (H_in hs (P_collect u (CO_link n))))"
      using r f' CO_add by (auto simp: step_simps)
    moreover have "k = n \<Longrightarrow> pointer r = x" using r k by (auto simp: field_of)
    moreover have "k \<in> set (rest_from ns n) \<Longrightarrow> k = n \<or> k \<in> set (tl (rest_from ns n))" using rest_from_here [OF n] by (metis set_ConsD)
    ultimately show ?thesis using f(2) nd g p CO_add by (auto simp: covered_def still_guarded_def)
  next
    case (CO_link n)
    then have n: "n \<in> set ns" using l by simp
    from node [OF n] obtain r where r: "heap m n = Some r" by blast
    show ?thesis using r f' f(2) nd g p CO_link rest_from_next [OF ch n r ne] by (auto simp: step_simps still_guarded_def)
  qed (use q in auto)
qed

lemma sweep_guard:
  assumes d: "dz N m P ns gs fs" and c: "complete N m P ns" and t: "t < N" and p: "P t = H_in hs (P_collect u q)"
    and f: "hz_act ops (P t) = Mem f" "f m = (m', Ret q')" and k: "ptr (heap m) k = x" "k \<in> set ns" "x \<noteq> NULL"
    and g: "guard_at m ns x k (P t)" and nd: "x \<notin> set (deleted m)"
    and q: "(\<exists>h y obj. q = CO_gc_clear h y obj) \<or> (\<exists>h y r. q = CO_gc_remove h y r) \<or> (\<exists>h y r. q = CO_gc_free h y r)"
  shows "still_guarded m m' ns x k (P t) q'"
proof -
  note l = dz_lists(2) [OF d t, unfolded p, simplified] and gl = dz_lists(1) [OF d t]
  have f': "calls (\<lambda>q. H_in hs (P_collect u q)) (\<lambda>_. H_idle hs) (Collect_hp u q) = Mem f" using f p by simp
  show ?thesis
  proof (cases q)
    case (CO_gc_clear h y obj)
    then have h: "h \<in> set gs" "obj = gcp (heap m) h" "obj \<notin> set (all_haz_ptrs m)" using l by auto
    from gs_node [OF gl h(1)] obtain r where r: "heap m h = Some r" "gcp (heap m) h = gc_pointer r" .
    have m': "m' = m\<lparr>heap := (heap m)(h \<mapsto> r\<lparr>gc_pointer := NULL\<rparr>)\<rparr>" "q' = H_in hs (P_collect u (CO_gc_delete h y obj))"
      using f' f(2) CO_gc_clear r by (auto simp: step_simps)
    have cov: "covered m x" using g p CO_gc_clear by simp
    then have "obj \<noteq> x" using h by (auto simp: covered_def)
    moreover have "covered m' x" using cov k(3) m'(1) by (auto simp: covered_def)
    ultimately show ?thesis using m' nd p CO_gc_clear by (simp add: still_guarded_def)
  next
    case (CO_gc_remove h y r)
    have e: "eff {} m m'" using keeps_objsD [OF keeps_objs_calls(1) [OF objs_Collect] f' f(2)] CO_gc_remove by simp
    have "calls (\<lambda>r. H_in hs (P_collect u (CO_gc_remove h y r))) (\<lambda>_. H_in hs (P_collect u (CO_gc_check h y))) (remove h Gc r) = Mem f"
      using f' CO_gc_remove by (simp add: calls_via)
    from this f(2) have "guard_at m' ns x k q' = covered m' x" by (rule calls_Mem_Ret) (auto split: cont.splits)
    with e nd g p CO_gc_remove show ?thesis by (simp add: eff_def covered_def still_guarded_def)
  next
    case (CO_gc_free h y r)
    have e: "eff {} m m'" using keeps_objsD [OF keeps_objs_calls(1) [OF objs_Collect] f' f(2)] CO_gc_free by simp
    have "calls (\<lambda>r. H_in hs (P_collect u (CO_gc_free h y r))) (\<lambda>_. H_in hs (P_collect u (CO_gc_next y))) (push h Free r) = Mem f"
      using f' CO_gc_free by (simp add: calls_via)
    from this f(2) have "guard_at m' ns x k q' = covered m' x" by (rule calls_Mem_Ret) (auto split: cont.splits)
    with e nd g p CO_gc_free show ?thesis by (simp add: eff_def covered_def still_guarded_def)
  qed (use q in auto)
qed

lemma collect_guard:
  assumes d: "dz N m P ns gs fs" and c: "complete N m P ns" and t: "t < N" and p: "P t = H_in hs (P_collect u q)"
    and f: "hz_act ops (P t) = Mem f" "f m = (m', Ret q')" and k: "ptr (heap m) k = x" "k \<in> set ns" "x \<noteq> NULL"
    and g: "guard_at m ns x k (P t)" and nd: "x \<notin> set (deleted m)"
  shows "still_guarded m m' ns x k (P t) q'"
proof -
  have f': "calls (\<lambda>q. H_in hs (P_collect u q)) (\<lambda>_. H_idle hs) (Collect_hp u q) = Mem f" using f p by simp
  have ns: "rest_from ns (nodes m) = ns" using c rest_from_start by (auto simp: complete_def)
  consider "\<exists>n. q = CO_scan n \<or> q = CO_add n \<or> q = CO_link n"
    | "(\<exists>h y obj. q = CO_gc_clear h y obj) \<or> (\<exists>h y r. q = CO_gc_remove h y r) \<or> (\<exists>h y r. q = CO_gc_free h y r)"
    | (other) "\<And>n. q \<noteq> CO_scan n \<and> q \<noteq> CO_add n \<and> q \<noteq> CO_link n" "\<And>h y obj. q \<noteq> CO_gc_clear h y obj"
        "\<And>h y r. q \<noteq> CO_gc_remove h y r" "\<And>h y r. q \<noteq> CO_gc_free h y r" by blast
  then show ?thesis
  proof cases
    case other
    show ?thesis
    proof (cases "q = CO_lock")
      case True
      then have "f m = (m', Ret (H_in hs (P_collect u CO_nodes))) \<or> f m = (m', Ret (H_in hs (P_collect u CO_lock)))" "deleted m' = deleted m"
          "heap m' = heap m" "all_haz_ptrs m' = all_haz_ptrs m"
        using f' f(2) by (auto simp: step_simps split: option.splits if_splits)
      with f(2) nd show ?thesis by (auto simp: still_guarded_def)
    qed (use f' f(2) nd g p k(2) ns other in \<open>cases q; auto simp: step_simps bnd_Ret_iff covered_def still_guarded_def
        split: if_splits ctl.splits prod.splits\<close>)
  qed (use scan_guard [OF assms] sweep_guard [OF assms] in simp_all)
qed

text \<open>One step of the machine.\<close>

lemma calls_out:
  assumes "calls at ret a = Mem f" and "f m = (m', Ret q)" and "\<And>y. \<not> collecting_hp (at y)" and "\<And>r. \<not> collecting_hp (ret r)"
  shows "\<not> collecting_hp q"
  using assms(1,2) by (rule calls_Mem_Ret) (use assms(3,4) in \<open>auto split: cont.splits\<close>)

lemma run_stays_out:
  assumes f: "hz_act ops p = Mem f" "f m = (m', Ret q)" and p: "\<not> collecting_hp p"
  shows "\<not> collecting_hp q"
proof -
  obtain hs x where x: "p = H_in hs x" using f(1) by (cases p) auto
  then have a: "hz_point_act hs x = Mem f" using f(1) by simp
  show ?thesis
  proof (cases x)
    case (P_write c v)
    with a f(2) show ?thesis by auto
  qed (use a f(2) p x in \<open>auto elim!: calls_out [THEN notE]\<close>)
qed

definition protects :: "nat \<Rightarrow> (hp_list, hz_pc) conf \<Rightarrow> addr list \<Rightarrow> addr \<Rightarrow> addr \<Rightarrow> bool" where
  "protects N s ns k x \<longleftrightarrow> k \<in> set ns \<and> ptr (heap (mem s)) k = x \<and> x \<noteq> NULL \<and> x \<notin> set (deleted (mem s)) \<and>
     (\<forall>t<N. guard_at (mem s) ns x k (pcs s t))"

lemma protects_run:
  assumes d: "dz N m P ns gs fs" and c: "complete N m P ns" and t: "t < N" and al: "run_allowed N m P (P t)"
    and f: "hz_act ops (P t) = Mem f" "f m = (m', Ret q')" and k: "ptr (heap m) k = x" "k \<in> set ns" "x \<noteq> NULL"
    and g: "\<And>u. u < N \<Longrightarrow> guard_at m ns x k (P u)" and nd: "x \<notin> set (deleted m)"
  shows "x \<notin> set (deleted m') \<and> (\<forall>u<N. guard_at m' ns x k ((P(t := q')) u))"
proof -
  have own: "x \<notin> set (deleted m') \<and> guard_at m' ns x k q' \<and> (locked (P t) \<or> deleting (P t) \<or> gcp (heap m') = gcp (heap m) \<and> all_haz_ptrs m' = all_haz_ptrs m)"
  proof (cases "collecting_hp (P t)")
    case True
    then obtain hs u q where "P t = H_in hs (P_collect u q)" by (cases "P t" rule: collecting_hp.cases) auto
    from collect_guard [OF d c t this f k g [OF t] nd] show ?thesis by (auto simp: still_guarded_def)
  next
    case False
    then have o: "outside (P t) m m'" using run_outgoing [OF d t al f] by simp
    moreover have "\<not> collecting_hp q'" using run_stays_out [OF f False] .
    ultimately show ?thesis using nd guard_outside by (auto simp: outside_def)
  qed
  have "guard_at m' ns x k (P u)" if u: "u < N" "u \<noteq> t" for u
  proof (cases "locked (P u)")
    case True
    then have "\<not> locked (P t)" "\<not> deleting (P t)" using dz_lists(5) [OF d u(1) t] u(2) by auto
    with own guard_same [of m' m ns x k "P u"] g [OF u(1)] show ?thesis by simp
  qed (rule guard_unlocked)
  with own show ?thesis by auto
qed

lemma protects_step:
  assumes i: "guarded_inv N s ns" and pr: "protects N s ns k x" and st: "guarded_step N ops s s'" and x: "ptr (heap (mem s')) k = x"
  shows "\<exists>zs. guarded_inv N s' (zs @ ns) \<and> protects N s' (zs @ ns) k x"
proof -
  obtain gs fs where c: "complete N (mem s) (pcs s) ns" and d: "dz N (mem s) (pcs s) ns gs fs" using i by (auto simp: guarded_inv_def)
  have k: "ptr (heap (mem s)) k = x" "k \<in> set ns" "x \<noteq> NULL" and nd: "x \<notin> set (deleted (mem s))"
    and g: "\<And>u. u < N \<Longrightarrow> guard_at (mem s) ns x k (pcs s u)" using pr by (auto simp: protects_def)
  obtain gs' fs' where d': "dz N (mem s') (pcs s') ns gs' fs'" and g': "x \<notin> set (deleted (mem s'))" "\<forall>u<N. guard_at (mem s') ns x k (pcs s' u)"
    using st
  proof (cases rule: guarded_cases)
    case (call t hs op)
    have "guard_at (mem s) ns x k (H_in hs (hz_enter op))" by (cases op) simp_all
    with g have "\<forall>u<N. guard_at (mem s) ns x k (((pcs s)(t := H_in hs (hz_enter op))) u)" by simp
    with that dz_call [OF d call(1-3)] nd call(4) show ?thesis by simp
  next
    case (step t f)
    from dz_run [OF d c step(1-3)] obtain m' q gs' fs' where f: "f (mem s) = (m', Ret q)" "dz N m' ((pcs s)(t := q)) ns gs' fs'"
      unfolding good_step_def by (elim exE conjE)
    with that protects_run [OF d c step(1,3,2) f(1) k g nd] step(4) show ?thesis by simp
  qed
  obtain zs where i': "guarded_inv N s' (zs @ ns)" using guarded_inv_step [OF i st] by blast
  then have c': "complete N (mem s') (pcs s') (zs @ ns)" by (simp add: guarded_inv_def)
  have "distinct (zs @ ns)" "end_node (mem s') \<notin> set (zs @ ns)"
    using c' chain_not_end [of "heap (mem s')" fixed_link "nodes (mem s')" "zs @ ns"] by (simp_all add: complete_def)
  then have "\<forall>u<N. guard_at (mem s') (zs @ ns) x k (pcs s' u)" using g'(2) guard_grow dz_lists(2) [OF d'] by blast
  with g'(1) k x i' show ?thesis by (auto simp: protects_def)
qed

lemma protects_reach:
  assumes "reach s (\<lambda>a b. guarded_step N ops a b \<and> ptr (heap (mem b)) k = x) s'" and "guarded_inv N s ns" and "protects N s ns k x"
  shows "\<exists>ns'. guarded_inv N s' ns' \<and> protects N s' ns' k x"
  using assms
proof (induction rule: reach.induct)
  case (reach_step a b)
  then obtain ns' where "guarded_inv N a ns'" "protects N a ns' k x" by blast
  with protects_step [OF this] reach_step.hyps(2) show ?case by blast
qed blast

lemma distinct_filter_nth:
  assumes "\<And>i j. i < length xs \<Longrightarrow> j < length xs \<Longrightarrow> xs ! i = xs ! j \<Longrightarrow> P (xs ! i) \<Longrightarrow> i = j"
  shows "distinct (filter P xs)"
  using assms
proof (induction xs)
  case (Cons x xs)
  have "distinct (filter P xs)" using Cons.prems [of "Suc _" "Suc _"] by (intro Cons.IH) auto
  moreover have "x \<notin> set xs" if "P x" using Cons.prems [of 0 "Suc _"] that by (auto simp: in_set_conv_nth)
  ultimately show ?case by simp
qed simp

lemma guarded_reach:
  assumes "reach (guarded_start e mc) (guarded_step N ops) s" and "e \<noteq> NULL"
  shows "\<exists>ns. guarded_inv N s ns \<and> linked_safe N s"
  using assms(1)
proof (induction rule: reach.induct)
  case reach_init
  have "outgoing N (HazardPointerList_ctor e mc) (\<lambda>_. H_idle []) = {}"
    by (auto simp: outgoing_def HazardPointerList_ctor_def init_def HazardPointerNode_ctor_def gcp_def)
  moreover from this have "one_place N (HazardPointerList_ctor e mc) (\<lambda>_. H_idle [])" unfolding one_place_def by (metis empty_iff outgoing_places)
  ultimately have "linked_safe N (guarded_start e mc)" by (simp add: linked_safe_def start_def)
  with guarded_inv_start [OF assms(2)] show ?case by blast
next
  case (reach_step a b)
  then obtain ns where i: "guarded_inv N a ns" "linked_safe N a" by blast
  from guarded_inv_step [OF i(1) reach_step.hyps(2)] linked_safe_step [OF i reach_step.hyps(2)] show ?case by blast
qed

lemma one_placeD: "one_place N m P \<Longrightarrow> x \<noteq> NULL \<Longrightarrow> p \<in> places N m P x \<Longrightarrow> q \<in> places N m P x \<Longrightarrow> p = q"
  unfolding one_place_def by blast

lemma deleted_once:
  assumes "linked_safe N s"
  shows "distinct (filter (\<lambda>x. x \<noteq> NULL) (deleted (mem s)))"
proof (rule distinct_filter_nth)
  fix i j assume ij: "i < length (deleted (mem s))" "j < length (deleted (mem s))" "deleted (mem s) ! i = deleted (mem s) ! j" "deleted (mem s) ! i \<noteq> NULL"
  then have "Gone i \<in> places N (mem s) (pcs s) (deleted (mem s) ! i)" "Gone j \<in> places N (mem s) (pcs s) (deleted (mem s) ! i)" by simp_all
  moreover have "one_place N (mem s) (pcs s)" using assms by (simp add: linked_safe_def)
  ultimately have "Gone i = Gone j" using ij(4) by (intro one_placeD)
  then show "i = j" by simp
qed

section \<open>Concrete runs\<close>

text \<open>
  The rules speak of all nodes and all cells. On a run whose nodes and cells have known addresses \<open>As\<close> and \<open>Cs\<close> they can be
  computed.
\<close>

definition known :: "addr list \<Rightarrow> addr list \<Rightarrow> (hp_list, hz_pc) conf \<Rightarrow> bool" where
  "known As Cs s \<longleftrightarrow> dom (heap (mem s)) \<subseteq> set As \<and> dom (cells (mem s)) \<subseteq> set Cs"

definition outgoing_in :: "addr list \<Rightarrow> nat \<Rightarrow> hp_list \<Rightarrow> (tid \<Rightarrow> hz_pc) \<Rightarrow> addr set" where
  "outgoing_in As N m P = set (deleted m) \<union> gcp (heap m) ` set As \<union> (\<Union>t\<in>set [0..<N]. retiring (heap m) (P t) \<union> removing (P t)) - {NULL}"

lemma outgoing_in_all: "dom (heap m) \<subseteq> set As \<Longrightarrow> outgoing N m P \<subseteq> outgoing_in As N m P"
  by (auto simp: outgoing_def outgoing_in_def gcp_def image_iff split: option.splits) blast+

lemma retiring_code [code]:
  "retiring h (H_in hs (P_delete n q)) = (case q of DE_check \<Rightarrow> {ptr h n} | DE_load \<Rightarrow> {ptr h n} | DE_exchange v \<Rightarrow> {ptr h n} | _ \<Rightarrow> {})"
  "retiring h (H_idle hs) = {}" "retiring h (H_in hs (P_new a j p1)) = {}" "retiring h (H_in hs (P_acquire n c p2)) = {}"
  "retiring h (H_in hs (P_clear n p3)) = {}" "retiring h (H_in hs (P_release n p4)) = {}" "retiring h (H_in hs (P_collect t p5)) = {}"
  "retiring h (H_in hs (P_write c v)) = {}"
  by (cases q) simp_all

fun op_ok :: "addr list \<Rightarrow> addr list \<Rightarrow> nat \<Rightarrow> hp_list \<Rightarrow> (tid \<Rightarrow> hz_pc) \<Rightarrow> tid \<Rightarrow> addr list \<Rightarrow> hz_op \<Rightarrow> bool" where
  "op_ok As Cs N m P t hs (New a j) = (a \<noteq> NULL \<and> (\<forall>u\<in>set [0..<N]. \<not> popping (P u)))"
| "op_ok As Cs N m P t hs (Acquire n c) = (n \<in> set hs \<and> cells m c \<noteq> None)"
| "op_ok As Cs N m P t hs (Clear n) = (n \<in> set hs)"
| "op_ok As Cs N m P t hs (Release n) = (n \<in> set hs)"
| "op_ok As Cs N m P t hs (Delete n) = (n \<in> set hs \<and> (\<forall>u\<in>set [0..<N]. \<not> collecting_hp (P u)) \<and>
     ptr (heap m) n \<notin> outgoing_in As N m P \<and> (\<forall>c\<in>set Cs. cells m c \<noteq> Some (ptr (heap m) n)))"
| "op_ok As Cs N m P t hs (Collect_op u) = (u = t \<and> (\<forall>v\<in>set [0..<N]. \<not> deleting (P v)))"
| "op_ok As Cs N m P t hs (Write c v) = True"

fun run_ok :: "addr list \<Rightarrow> addr list \<Rightarrow> nat \<Rightarrow> hp_list \<Rightarrow> (tid \<Rightarrow> hz_pc) \<Rightarrow> hz_pc \<Rightarrow> bool" where
  "run_ok As Cs N m P (H_in hs (P_write c v)) = (c \<in> set Cs \<and> v \<notin> outgoing_in As N m P)"
| "run_ok As Cs N m P (H_in hs (P_new a j (AN_test n))) = (n = end_node m \<longrightarrow> heap m a = None \<and> a \<in> set As)"
| "run_ok As Cs N m P p = True"

fun event_ok :: "addr list \<Rightarrow> addr list \<Rightarrow> nat \<Rightarrow> hz_op list \<Rightarrow> (hp_list, hz_pc) conf \<Rightarrow> event \<Rightarrow> bool" where
  "event_ok As Cs N ops s (Run t) = run_ok As Cs N (mem s) (pcs s) (pcs s t)"
| "event_ok As Cs N ops s (Call t i) = (case pcs s t of H_idle hs \<Rightarrow> i < length ops \<longrightarrow> op_ok As Cs N (mem s) (pcs s) t hs (ops ! i) | _ \<Rightarrow> True)"
| "event_ok As Cs N ops s ev = True"

lemma event_ok_allowed:
  assumes "known As Cs s" and "event_ok As Cs N ops s ev"
  shows "event_allowed N ops s ev"
proof -
  have out: "outgoing N (mem s) (pcs s) \<subseteq> outgoing_in As N (mem s) (pcs s)" using assms(1) outgoing_in_all by (simp add: known_def)
  have op: "op_allowed N (mem s) (pcs s) t hs op" if "op_ok As Cs N (mem s) (pcs s) t hs op" for t hs op
  proof (cases op)
    case (Delete n)
    have "cells (mem s) c \<noteq> Some (ptr (heap (mem s)) n)" for c using that Delete assms(1) by (cases "c \<in> set Cs") (auto simp: known_def dom_def)
    then have "Some (ptr (heap (mem s)) n) \<notin> range (cells (mem s))" by (metis rangeE)
    with that Delete out show ?thesis by auto
  qed (use that in auto)
  have run: "run_allowed N (mem s) (pcs s) p" if "run_ok As Cs N (mem s) (pcs s) p" for p
    using that out by (cases "(As, Cs, N, mem s, pcs s, p)" rule: run_ok.cases) auto
  show ?thesis using assms(2) op run by (cases ev) (auto simp: call_allowed_def split: hz_pc.splits)
qed

lemma known_step:
  assumes i: "guarded_inv N s ns" and kn: "known As Cs s" and ok: "event_ok As Cs N ops s ev"
    and ex: "exec fifo_wake N (hz_act ops) (\<lambda>_ _. 0) s ev = Some s'"
  shows "known As Cs s'"
proof (cases ev)
  case (Run t)
  obtain gs fs where c: "complete N (mem s) (pcs s) ns" and d: "dz N (mem s) (pcs s) ns gs fs" using i by (auto simp: guarded_inv_def)
  have t: "t < N" using ex Run by (auto split: if_splits)
  have al: "run_allowed N (mem s) (pcs s) (pcs s t)" using event_ok_allowed [OF kn ok] Run by simp
  obtain f where f: "hz_act ops (pcs s t) = Mem f" using ex Run by (auto simp: hz_no_futex split: if_splits action.splits)
  from dz_run [OF d c t f al] obtain m' q where m': "f (mem s) = (m', Ret q)" unfolding good_step_def by (elim exE conjE)
  have s': "mem s' = m'" using ex Run f m' by (auto split: if_splits)
  have "dom (cells m') \<subseteq> set Cs" using run_outgoing [OF d t al f m'] kn ok Run by (auto simp: known_def dom_def subset_iff split: if_splits)
  moreover have "dom (heap m') \<subseteq> set As"
  proof (cases "quiet (pcs s t)")
    case True
    from fixed_same_dom [of "mem s" m'] quiet_step [OF True f m'] have "dom (heap m') = dom (heap (mem s))" by (auto simp: dom_def)
    with kn show ?thesis by (simp add: known_def)
  next
    case False
    then obtain hs a j r where r: "pcs s t = H_in hs (P_new a j r)" "\<And>y. r \<noteq> AN_pop y" by (auto simp: quiet_def)
    show ?thesis
    proof (cases r)
      case (AN_test n)
      then show ?thesis using f m' r ok Run kn by (auto simp: step_simps known_def new_node_def dom_def subset_iff split: if_splits)
    next
      case (AN_add y)
      then show ?thesis using f m' r kn
        by (cases y) (auto simp: step_simps known_def store_def bnd_Ret_iff dom_def subset_iff split: if_splits ctl.splits prod.splits option.splits)
    qed (use r in auto)
  qed
  ultimately show ?thesis using s' by (simp add: known_def)
next
  case (Call t j)
  then have "mem s' = mem s" using ex by (auto split: if_splits action.splits)
  with kn show ?thesis by (simp add: known_def)
qed (use ex in \<open>auto simp: hz_no_futex split: if_splits action.splits\<close>)

fun guarded_run :: "((hp_list, hz_pc) conf \<Rightarrow> bool) \<Rightarrow> addr list \<Rightarrow> addr list \<Rightarrow> nat \<Rightarrow> hz_op list \<Rightarrow> (hp_list, hz_pc) conf \<Rightarrow> event list
    \<Rightarrow> (hp_list, hz_pc) conf option" where
  "guarded_run Q As Cs N ops s [] = Some s"
| "guarded_run Q As Cs N ops s (ev # evs) =
     (if event_ok As Cs N ops s ev
      then case exec fifo_wake N (hz_act ops) (\<lambda>_ _. 0) s ev of None \<Rightarrow> None
        | Some s' \<Rightarrow> if Q s' then guarded_run Q As Cs N ops s' evs else None
      else None)"

lemma guarded_run_reach:
  assumes "guarded_run Q As Cs N ops s evs = Some s'" and "guarded_inv N s ns" and "known As Cs s"
    and "reach s0 (\<lambda>a b. guarded_step N ops a b \<and> Q b) s"
  shows "known As Cs s' \<and> reach s0 (\<lambda>a b. guarded_step N ops a b \<and> Q b) s'"
  using assms
proof (induction evs arbitrary: s ns)
  case (Cons ev evs)
  obtain s1 where s1: "exec fifo_wake N (hz_act ops) (\<lambda>_ _. 0) s ev = Some s1" "guarded_run Q As Cs N ops s1 evs = Some s'"
      "event_ok As Cs N ops s ev" "Q s1"
    using Cons.prems(1) by (auto split: if_splits option.splits)
  then have st: "guarded_step N ops s s1" using event_ok_allowed [OF Cons.prems(3)] by (auto simp: guarded_step_def)
  from guarded_inv_step [OF Cons.prems(2) st] obtain zs where i: "guarded_inv N s1 (zs @ ns)" by blast
  have "reach s0 (\<lambda>a b. guarded_step N ops a b \<and> Q b) s1" using reach_step [OF Cons.prems(4)] st s1(4) by blast
  with Cons.IH [OF s1(2) i known_step [OF Cons.prems(2,3) s1(3,1)]] show ?case .
qed simp

text \<open>
  A run of three threads: thread 2 has retired object 88, thread 0 is in the scan of its call of \<^verbatim>\<open>Collect\<close> when thread 1
  protects object 77 with node 2. Thread 2 unlinks 77 at once, retires it after the call, and
  \<^verbatim>\<open>Collect\<close> runs again.
\<close>

definition guard_ops :: "hz_op list" where
  "guard_ops = [New 2 0, New 3 0, New 4 0, Acquire 2 10, Acquire 3 10, Acquire 4 11, Write 10 99, Write 11 98, Delete 3, Delete 4, Collect_op 0]"

definition call_of :: "tid \<Rightarrow> nat \<Rightarrow> nat \<Rightarrow> event list" where
  "call_of t i n = Call t i # replicate n (Run t)"

definition guard_first :: "event list" where
  "guard_first = call_of 1 0 6 @ call_of 2 1 6 @ call_of 2 4 3 @ call_of 2 2 6 @ call_of 2 5 3 @ call_of 2 7 1 @ call_of 2 9 10 @
     call_of 0 10 4 @ call_of 1 3 3"

definition guard_second :: "event list" where
  "guard_second = call_of 2 6 1 @ replicate 29 (Run 0) @ call_of 2 8 10 @ call_of 0 10 20"

definition guard_run :: "((hp_list, hz_pc) conf \<Rightarrow> bool) \<Rightarrow> (hp_list, hz_pc) conf \<Rightarrow> event list \<Rightarrow> (hp_list, hz_pc) conf option" where
  "guard_run Q = guarded_run Q [1, 2, 3, 4] [10, 11] 3 guard_ops"

definition guard_start :: "(hp_list, hz_pc) conf" where
  "guard_start = start (HazardPointerList_ctor 1 [10 \<mapsto> 77, 11 \<mapsto> 88]) (H_idle [])"

definition guard_checked :: "(hp_list, hz_pc) conf \<Rightarrow> bool" where
  "guard_checked s \<longleftrightarrow> pcs s 1 = H_idle [2] \<and> ptr (heap (mem s)) 2 = 77 \<and> cells (mem s) 10 = Some 77"

lemma guard_run_start:
  assumes "guard_run (\<lambda>_. True) guard_start evs = Some s"
  shows "reach guard_start (guarded_step 3 guard_ops) s" and "known [1, 2, 3, 4] [10, 11] s"
proof -
  have i: "guarded_inv 3 guard_start []" unfolding guard_start_def by (rule guarded_inv_start) simp
  have "known [1, 2, 3, 4] [10, 11] guard_start"
    by (auto simp: guard_start_def known_def start_def HazardPointerList_ctor_def init_def dom_def split: if_splits)
  from guarded_run_reach [OF assms [unfolded guard_run_def] i this reach_init]
  show "reach guard_start (guarded_step 3 guard_ops) s" "known [1, 2, 3, 4] [10, 11] s" by simp_all
qed

section \<open>Every interleaving under the rules\<close>

text \<open>
  C5: Any number of threads use one list at the same time and keep to the rules (no two in the \<^verbatim>\<open>pop\<close> of
  \<^verbatim>\<open>AcquireNode\<close>, \<^verbatim>\<open>Delete\<close> and \<^verbatim>\<open>Collect\<close> do not overlap, retired objects are unlinked first
  and not linked again). Then in every interleaving of their accesses no assertion of the code fails
  and no access faults; the gc list and the free list end at the end node and share no node; a node
  belongs to one thread or to one of the two lists; an object that is linked in a cell has not been deleted, and no
  object is deleted twice.
\<close>

theorem hp_guarded_no_fault:
  assumes "reach (start (HazardPointerList_ctor e mc) (H_idle [])) (guarded_step N ops) s" and "e \<noteq> NULL"
  shows "halted s = None \<and>
    (\<exists>gs fs. chain (heap (mem s)) next_node (gc_list (mem s)) gs (end_node (mem s)) \<and>
       chain (heap (mem s)) next_node (free_list (mem s)) fs (end_node (mem s)) \<and> distinct (gs @ fs) \<and>
       (\<forall>t<N. owns (end_node (mem s)) (pcs s t) \<inter> set (gs @ fs) = {})) \<and>
    (\<forall>t<N. \<forall>u<N. t \<noteq> u \<longrightarrow> owns (end_node (mem s)) (pcs s t) \<inter> owns (end_node (mem s)) (pcs s u) = {}) \<and>
    (\<forall>c x. cells (mem s) c = Some x \<longrightarrow> x \<noteq> NULL \<longrightarrow> x \<notin> set (deleted (mem s))) \<and>
    distinct (filter (\<lambda>x. x \<noteq> NULL) (deleted (mem s)))"
proof -
  from guarded_reach [OF assms] obtain ns where i: "guarded_inv N s ns" and ls: "linked_safe N s" by blast
  obtain gs fs where d: "dz N (mem s) (pcs s) ns gs fs" using i by (auto simp: guarded_inv_def)
  have gl: "glob (mem s) gs fs" using d by (simp add: dz_def)
  have own: "owns (end_node (mem s)) (pcs s t) \<inter> set (gs @ fs) = {}" if "t < N" for t
    using dz_others(3,4) [OF d that] by auto
  have linked: "x \<notin> set (deleted (mem s))" if "cells (mem s) c = Some x" "x \<noteq> NULL" for c x
    using ls that by (auto simp: linked_safe_def outgoing_def)
  have two: "owns (end_node (mem s)) (pcs s t) \<inter> owns (end_node (mem s)) (pcs s u) = {}" if "t < N" "u < N" "t \<noteq> u" for t u
    using dz_lists(6) [OF d that(1,2)] that(3) by simp
  have "chain (heap (mem s)) next_node (gc_list (mem s)) gs (end_node (mem s))" "chain (heap (mem s)) next_node (free_list (mem s)) fs (end_node (mem s))"
    "distinct (gs @ fs)" using gl by (simp_all add: glob_def)
  moreover have "halted s = None" using i by (simp add: guarded_inv_def)
  ultimately show ?thesis using own linked two deleted_once [OF ls] by blast
qed

theorem hp_guarded_no_fault_witness:
  "\<exists>s. guard_run (\<lambda>_. True) guard_start (guard_first @ guard_second) = Some s \<and> halted s = None \<and>
    (\<exists>gs fs. chain (heap (mem s)) next_node (gc_list (mem s)) gs (end_node (mem s)) \<and>
       chain (heap (mem s)) next_node (free_list (mem s)) fs (end_node (mem s)) \<and> distinct (gs @ fs)) \<and>
    deleted (mem s) = [88] \<and> gcp (heap (mem s)) 3 = 77 \<and> pcs s 1 = H_idle [2]"
proof -
  have "check_run (\<lambda>s. deleted (mem s) = [88] \<and> gcp (heap (mem s)) 3 = 77 \<and> pcs s 1 = H_idle [2])
      (guard_run (\<lambda>_. True) guard_start (guard_first @ guard_second))" by code_simp
  from check_runD [OF this] obtain s where s: "guard_run (\<lambda>_. True) guard_start (guard_first @ guard_second) = Some s"
      "deleted (mem s) = [88]" "gcp (heap (mem s)) 3 = 77" "pcs s 1 = H_idle [2]"
    by (elim exE conjE)
  from hp_guarded_no_fault [OF guard_run_start(1) [OF s(1), unfolded guard_start_def]] s show ?thesis by auto
qed

text \<open>
  C2: The promise of hazard pointers under the same rules, with any number of threads that acquire,
  unlink, retire and collect at the same time: once a thread holds a node that points to an object and
  then finds the object still linked in a cell, no \<^verbatim>\<open>Collect\<close>, also one that was running already,
  deletes the object for as long as the node points to it, whoever unlinks and retires it meanwhile.
\<close>

theorem hp_guarded_protects:
  assumes "reach (start (HazardPointerList_ctor e mc) (H_idle [])) (guarded_step N ops) s" and "e \<noteq> NULL"
    and "t < N" and "pcs s t = H_idle hs" and "k \<in> set hs" and "ptr (heap (mem s)) k = x" and "x \<noteq> NULL" and "cells (mem s) c = Some x"
    and "reach s (\<lambda>a b. guarded_step N ops a b \<and> ptr (heap (mem b)) k = x) s'"
  shows "x \<notin> set (deleted (mem s'))"
proof -
  from guarded_reach [OF assms(1,2)] obtain ns where i: "guarded_inv N s ns" and ls: "linked_safe N s" by blast
  obtain gs fs where c: "complete N (mem s) (pcs s) ns" and d: "dz N (mem s) (pcs s) ns gs fs" using i by (auto simp: guarded_inv_def)
  have k: "k \<in> owns (end_node (mem s)) (pcs s t)" using assms(4,5) by simp
  have "adding (pcs s u) \<noteq> Some k" if u: "u < N" for u
  proof (cases "u = t")
    case False
    then have "k \<notin> owns (end_node (mem s)) (pcs s u)" using dz_lists(6) [OF d assms(3) u] k by blast
    then show ?thesis by (cases "pcs s u" rule: adding.cases) auto
  qed (use assms(4) in simp)
  then have "k \<in> set ns" using c dz_others(1,2) [OF d assms(3) k] unfolding complete_def by blast
  moreover have out: "x \<notin> outgoing N (mem s) (pcs s)" using ls assms(8) by (simp add: linked_safe_def)
  then have "x \<notin> set (deleted (mem s))" "x \<notin> range (gcp (heap (mem s)))" "\<And>u. u < N \<Longrightarrow> x \<notin> removing (pcs s u)"
    using assms(7) by (auto simp: outgoing_def)
  ultimately have "protects N s ns k x" using assms(6,7) guard_unretired by (simp add: protects_def)
  from protects_reach [OF assms(9) i this] show ?thesis by (auto simp: protects_def)
qed

theorem hp_guarded_protects_witness:
  "\<exists>s s'. guard_run (\<lambda>_. True) guard_start guard_first = Some s \<and> cells (mem s) 10 = Some 77 \<and>
    guard_run (\<lambda>s. ptr (heap (mem s)) 2 = 77) s guard_second = Some s' \<and> gcp (heap (mem s')) 3 = 77 \<and> 77 \<notin> set (deleted (mem s'))"
proof -
  have "check_run (\<lambda>s. guard_checked s \<and>
        check_run (\<lambda>s'. gcp (heap (mem s')) 3 = 77) (guard_run (\<lambda>s. ptr (heap (mem s)) 2 = 77) s guard_second))
      (guard_run (\<lambda>_. True) guard_start guard_first)"
    by code_simp
  from check_runD [OF this] obtain s where s: "guard_run (\<lambda>_. True) guard_start guard_first = Some s" "guard_checked s"
      "check_run (\<lambda>s'. gcp (heap (mem s')) 3 = 77) (guard_run (\<lambda>s. ptr (heap (mem s)) 2 = 77) s guard_second)"
    by (elim exE conjE)
  from check_runD [OF s(3)] obtain s' where s': "guard_run (\<lambda>s. ptr (heap (mem s)) 2 = 77) s guard_second = Some s'" "gcp (heap (mem s')) 3 = 77"
    by (elim exE conjE)
  note r = guard_run_start [OF s(1)]
  have c: "pcs s 1 = H_idle [2]" "ptr (heap (mem s)) 2 = 77" "cells (mem s) 10 = Some 77" using s(2) by (simp_all add: guard_checked_def)
  from guarded_reach [OF r(1) [unfolded guard_start_def]] obtain ns where "guarded_inv 3 s ns" by auto
  from guarded_run_reach [OF s'(1) [unfolded guard_run_def] this r(2) reach_init]
  have r': "reach s (\<lambda>a b. guarded_step 3 guard_ops a b \<and> ptr (heap (mem b)) 2 = 77) s'" by simp
  have "77 \<notin> set (deleted (mem s'))"
    by (rule hp_guarded_protects [OF r(1) [unfolded guard_start_def] _ _ c(1) _ c(2) _ c(3) r']) simp_all
  with s(1) c(3) s' show ?thesis by blast
qed

end
