(* ===== verification/Collector.thy ===== *)
theory Collector
  imports Solo
begin

text \<open>
  \<^verbatim>\<open>CollectorThread\<close> (\<^verbatim>\<open>src/src/HazardPointer.hpp\<close>, \<^verbatim>\<open>src/src/HazardPointer.cpp\<close>): the
  thread that collects the garbage of its registered clients, and the functions that register and
  deregister a client while it runs. Every shared access is a step; accesses made while
  \<^verbatim>\<open>data_lock\<close> is held are grouped where no other thread can look. A client is a number.

  The virtual functions of a client, \<^verbatim>\<open>HaveDeletes\<close> and \<^verbatim>\<open>Collect\<close>, are arguments: functions
  \<open>have_dels\<close> and \<open>collect\<close> on the client's own data. So is the class \<^verbatim>\<open>BinarySemaphore\<close>, which the
  repository includes from a file it does not contain: \<open>sem_post\<close> is the effect of
  \<^verbatim>\<open>Post\<close>, and \<open>sem_take\<close> the effect of \<^verbatim>\<open>Wait\<close>, or \<^const>\<open>None\<close> while
  \<^verbatim>\<open>Wait\<close> blocks.
\<close>

section \<open>Data\<close>

definition k_UNREGISTERED :: nat where "k_UNREGISTERED = 0"
definition k_REGISTERED :: nat where "k_REGISTERED = 1"
definition k_COLLECTING :: nat where "k_COLLECTING = 2"
definition k_DELETING :: nat where "k_DELETING = 3"

lemmas client_states = k_UNREGISTERED_def k_REGISTERED_def k_COLLECTING_def k_DELETING_def

text \<open>
  The collector and, as functions of the client, the members of \<^verbatim>\<open>CollectorClientInterface\<close>:
  \<^verbatim>\<open>state\<close>, whether \<^verbatim>\<open>collector_thread\<close> is set, and the client's data. \<open>thrd\<close> says
  whether \<^verbatim>\<open>thrd\<close> is not null, \<open>running\<close> whether the thread it was set to has not ended.
\<close>

record ('b, 'd) ct =
  clients :: "nat list"
  clientsID :: "32 word list"
  data_lock :: bool
  id_value :: "32 word"
  active :: bool
  thrd :: bool
  running :: bool
  sema :: 'b
  cl_state :: "nat \<Rightarrow> nat"
  cl_thread :: "nat \<Rightarrow> bool"
  cl_data :: "nat \<Rightarrow> 'd"

type_synonym ('b, 'd, 'p, 'r) ct_code = "'p \<Rightarrow> (('b, 'd) ct, ('p, 'r) cont, unit) action"

text \<open>
  The constructor up to the start of the thread; the members of no client are touched. The assignment of the new
  thread to \<^verbatim>\<open>thrd\<close> comes after the thread has started and is a step of its own (\<open>O_new\<close> below).
\<close>

definition CollectorThread_ctor :: "'b \<Rightarrow> (nat \<Rightarrow> 'd) \<Rightarrow> ('b, 'd) ct" where
  "CollectorThread_ctor b d = \<lparr>clients = [], clientsID = [], data_lock = False, id_value = 0, active = True, thrd = False,
     running = True, sema = b, cl_state = (\<lambda>_. 0), cl_thread = (\<lambda>_. False), cl_data = d\<rparr>"

text \<open>Construction of a client object: \<^verbatim>\<open>state = 0\<close>, \<^verbatim>\<open>collector_thread = NULL\<close>.\<close>

definition client_ctor :: "nat \<Rightarrow> ('b, 'd) ct \<Rightarrow> ('b, 'd) ct" where
  "client_ctor c s = s\<lparr>cl_state := (cl_state s)(c := 0), cl_thread := (cl_thread s)(c := False)\<rparr>"

definition set_state :: "nat \<Rightarrow> nat \<Rightarrow> ('b, 'd) ct \<Rightarrow> ('b, 'd) ct" where
  "set_state c v s = s\<lparr>cl_state := (cl_state s)(c := v)\<rparr>"

text \<open>Acquiring \<^verbatim>\<open>data_lock\<close>: a thread that finds it taken tries again.\<close>

definition lock_data :: "'p \<Rightarrow> 'p \<Rightarrow> (('b, 'd) ct, ('p, 'r) cont, unit) action" where
  "lock_data here there = atom (\<lambda>s. if data_lock s then Ret (Goto here, s) else Ret (Goto there, s\<lparr>data_lock := True\<rparr>))"

section \<open>RegisterClient and DeregisterClient\<close>

datatype register_pc = RG_state | RG_thread | RG_lock | RG_push | RG_store | RG_set | RG_unlock

fun RegisterClient :: "nat \<Rightarrow> ('b, 'd, register_pc, unit) ct_code" where
  "RegisterClient c RG_state = atom (\<lambda>s.
     if k_UNREGISTERED \<noteq> cl_state s c then bnd (check False ''false'') (\<lambda>_. Ret (Goto RG_thread, s))
     else Ret (Goto RG_thread, s))"
| "RegisterClient c RG_thread = atom (\<lambda>s.
     bnd (check (\<not> cl_thread s c) ''client.collector_thread == NULL'') (\<lambda>_. Ret (Goto RG_lock, s)))"
| "RegisterClient c RG_lock = lock_data RG_lock RG_push"
| "RegisterClient c RG_push = atom (\<lambda>s. let v = id_value s + 1
     in Ret (Goto RG_store, s\<lparr>clients := clients s @ [c], id_value := v, clientsID := clientsID s @ [v]\<rparr>))"
| "RegisterClient c RG_store = atom (\<lambda>s. Ret (Goto RG_set, set_state c k_REGISTERED s))"
| "RegisterClient c RG_set = atom (\<lambda>s. Ret (Goto RG_unlock, s\<lparr>cl_thread := (cl_thread s)(c := True)\<rparr>))"
| "RegisterClient c RG_unlock = atom (\<lambda>s. Ret (Done (), s\<lparr>data_lock := False\<rparr>))"

text \<open>The index of the first occurrence of a client, as the loop of \<^verbatim>\<open>DeregisterClient\<close> finds it.\<close>

fun find_client :: "nat list \<Rightarrow> nat \<Rightarrow> nat \<Rightarrow> nat option" where
  "find_client [] c ix = None"
| "find_client (x # xs) c ix = (if x = c then Some ix else find_client xs c (ix + 1))"

definition erase_at :: "nat \<Rightarrow> 'a list \<Rightarrow> 'a list" where
  "erase_at i xs = take i xs @ drop (Suc i) xs"

datatype deregister_pc = DR_cas | DR_check nat | DR_lock | DR_find | DR_erase nat | DR_store | DR_unlock

fun DeregisterClient :: "nat \<Rightarrow> ('b, 'd, deregister_pc, unit) ct_code" where
  "DeregisterClient c DR_cas = atom (\<lambda>s. let (ok, expected, v) = cas (cl_state s c) k_REGISTERED k_DELETING
     in Ret (if ok then Goto DR_lock else Goto (DR_check expected), set_state c v s))"
| "DeregisterClient c (DR_check expected) = atom (\<lambda>s.
     bnd (check (expected = k_COLLECTING) ''expected == k_COLLECTING'') (\<lambda>_. Ret (Goto DR_cas, s)))"
| "DeregisterClient c DR_lock = lock_data DR_lock DR_find"
| "DeregisterClient c DR_find = atom (\<lambda>s. case find_client (clients s) c 0 of
       None \<Rightarrow> bnd (check False ''false'') (\<lambda>_. Ret (Goto DR_unlock, s))
     | Some ix \<Rightarrow> Ret (Goto (DR_erase ix), s))"
| "DeregisterClient c (DR_erase ix) = atom (\<lambda>s.
     Ret (Goto DR_store, s\<lparr>clients := erase_at ix (clients s), clientsID := erase_at ix (clientsID s)\<rparr>))"
| "DeregisterClient c DR_store = atom (\<lambda>s. Ret (Goto DR_unlock, set_state c k_UNREGISTERED s))"
| "DeregisterClient c DR_unlock = atom (\<lambda>s. Ret (Done (), s\<lparr>data_lock := False\<rparr>))"

section \<open>Collect, Run, Stop and Signal\<close>

text \<open>
  \<open>Collect_ct\<close>; the arguments of a point are the index of the loop under the lock,
  \<^verbatim>\<open>curr_id\<close> and \<^verbatim>\<open>pending\<close>. The body of \<^verbatim>\<open>clientp->Collect()\<close> is one step.
\<close>

datatype collect_ct_pc =
    CC_lock "32 word" bool
  | CC_for nat "32 word" bool
  | CC_have nat "32 word" bool
  | CC_cas nat "32 word" bool
  | CC_unlock "nat option" "32 word" bool
  | CC_client nat "32 word" bool
  | CC_back nat "32 word" bool

fun Collect_ct :: "('d \<Rightarrow> bool) \<Rightarrow> ('d \<Rightarrow> bool \<times> 'd) \<Rightarrow> ('b, 'd, collect_ct_pc, bool) ct_code" where
  "Collect_ct have_dels collect (CC_lock curr_id pending) = lock_data (CC_lock curr_id pending) (CC_for 0 curr_id pending)"
| "Collect_ct have_dels collect (CC_for ix curr_id pending) = atom (\<lambda>s.
     Ret (if ix < length (clientsID s)
          then if clientsID s ! ix \<le> curr_id then Goto (CC_for (ix + 1) curr_id pending)
               else Goto (CC_have ix (clientsID s ! ix) pending)
          else Goto (CC_unlock None curr_id pending), s))"
| "Collect_ct have_dels collect (CC_have ix curr_id pending) = atom (\<lambda>s.
     if ix < length (clients s)
     then Ret (if \<not> have_dels (cl_data s (clients s ! ix)) then Goto (CC_for (ix + 1) curr_id pending)
               else Goto (CC_cas ix curr_id pending), s)
     else Stop (Bad_deref ''clients''))"
| "Collect_ct have_dels collect (CC_cas ix curr_id pending) = atom (\<lambda>s.
     if ix < length (clients s)
     then let c = clients s ! ix; (ok, expected, v) = cas (cl_state s c) k_REGISTERED k_COLLECTING
          in if ok then Ret (Goto (CC_unlock (Some c) curr_id pending), set_state c v s)
             else bnd (check (expected = k_DELETING) ''expected == k_DELETING'')
               (\<lambda>_. Ret (Goto (CC_for (ix + 1) curr_id pending), s))
     else Stop (Bad_deref ''clients''))"
| "Collect_ct have_dels collect (CC_unlock clientp curr_id pending) = atom (\<lambda>s.
     Ret (case clientp of None \<Rightarrow> Done pending | Some c \<Rightarrow> Goto (CC_client c curr_id pending), s\<lparr>data_lock := False\<rparr>))"
| "Collect_ct have_dels collect (CC_client c curr_id pending) = atom (\<lambda>s. let (r, d) = collect (cl_data s c)
     in Ret (Goto (CC_back c curr_id (if \<not> r then True else pending)), s\<lparr>cl_data := (cl_data s)(c := d)\<rparr>))"
| "Collect_ct have_dels collect (CC_back c curr_id pending) = atom (\<lambda>s.
     let (ok, expected, v) = cas (cl_state s c) k_COLLECTING k_REGISTERED
     in if ok then Ret (Goto (CC_lock curr_id pending), set_state c v s)
        else bnd (check False ''false'') (\<lambda>_. Ret (Goto (CC_lock curr_id pending), s)))"

text \<open>\<^verbatim>\<open>Run\<close>; the 100 ms sleep before \<^verbatim>\<open>Post\<close> has no effect on the state.\<close>

datatype run_pc = RN_test | RN_collect collect_ct_pc | RN_post | RN_wait | RN_exit | RN_end

fun Run_ct :: "('b \<Rightarrow> 'b) \<Rightarrow> ('b \<Rightarrow> 'b option) \<Rightarrow> ('d \<Rightarrow> bool) \<Rightarrow> ('d \<Rightarrow> bool \<times> 'd) \<Rightarrow> ('b, 'd, run_pc, unit) ct_code" where
  "Run_ct sem_post sem_take have_dels collect RN_test = atom (\<lambda>s.
     Ret (if active s then Goto (RN_collect (CC_lock 0 False)) else Goto RN_exit, s))"
| "Run_ct sem_post sem_take have_dels collect (RN_collect p) =
     via RN_collect (\<lambda>pending. if pending then Goto RN_post else Goto RN_wait) (Collect_ct have_dels collect p)"
| "Run_ct sem_post sem_take have_dels collect RN_post = atom (\<lambda>s. Ret (Goto RN_wait, s\<lparr>sema := sem_post (sema s)\<rparr>))"
| "Run_ct sem_post sem_take have_dels collect RN_wait = atom (\<lambda>s. Ret (case sem_take (sema s) of
       None \<Rightarrow> (Goto RN_wait, s) | Some b \<Rightarrow> (Goto RN_test, s\<lparr>sema := b\<rparr>)))"
| "Run_ct sem_post sem_take have_dels collect RN_exit = atom (\<lambda>s. Ret (Goto RN_end, s\<lparr>thrd := False\<rparr>))"
| "Run_ct sem_post sem_take have_dels collect RN_end = atom (\<lambda>s. Ret (Done (), s\<lparr>running := False\<rparr>))"

definition Signal :: "('b \<Rightarrow> 'b) \<Rightarrow> ('b, 'd) ct \<Rightarrow> ('b, 'd) ct" where
  "Signal sem_post s = s\<lparr>sema := sem_post (sema s)\<rparr>"

text \<open>\<^verbatim>\<open>Stop(join)\<close>; \<^verbatim>\<open>thrd\<close> is read once for the test and once for the call of \<^verbatim>\<open>join\<close>.\<close>

datatype stop_pc = SP_active | SP_signal | SP_test | SP_call | SP_join

fun Stop_ct :: "('b \<Rightarrow> 'b) \<Rightarrow> bool \<Rightarrow> ('b, 'd, stop_pc, unit) ct_code" where
  "Stop_ct sem_post join SP_active = atom (\<lambda>s. Ret (Goto SP_signal, s\<lparr>active := False\<rparr>))"
| "Stop_ct sem_post join SP_signal = atom (\<lambda>s. Ret (Goto SP_test, Signal sem_post s))"
| "Stop_ct sem_post join SP_test = atom (\<lambda>s. Ret (if join \<and> thrd s then Goto SP_call else Done (), s))"
| "Stop_ct sem_post join SP_call = atom (\<lambda>s. if thrd s then Ret (Goto SP_join, s) else Stop (Bad_deref ''thrd''))"
| "Stop_ct sem_post join SP_join = atom (\<lambda>s. Ret (if running s then Goto SP_join else Done (), s))"

datatype dtor_ct_pc = DC_stop stop_pc | DC_lock | DC_for nat | DC_clear

fun CollectorThread_dtor :: "('b \<Rightarrow> 'b) \<Rightarrow> ('b, 'd, dtor_ct_pc, unit) ct_code" where
  "CollectorThread_dtor sem_post (DC_stop p) = via DC_stop (\<lambda>_. Goto DC_lock) (Stop_ct sem_post True p)"
| "CollectorThread_dtor sem_post DC_lock = lock_data DC_lock (DC_for 0)"
| "CollectorThread_dtor sem_post (DC_for ix) = atom (\<lambda>s.
     if ix < length (clients s)
     then bnd (check (cl_thread s (clients s ! ix)) ''collector_thread == this'')
       (\<lambda>_. Ret (Goto (DC_for (ix + 1)), s\<lparr>cl_thread := (cl_thread s)(clients s ! ix := False)\<rparr>))
     else Ret (Goto DC_clear, s))"
| "CollectorThread_dtor sem_post DC_clear = atom (\<lambda>s. Ret (Done (), s\<lparr>clients := [], clientsID := [], data_lock := False\<rparr>))"

section \<open>Threads\<close>

text \<open>
  Thread 0 runs \<^verbatim>\<open>Run\<close>; thread 1 completes the constructor and may call \<^verbatim>\<open>Stop\<close>; every other thread \<open>c\<close>
  constructs its client \<open>c\<close> and registers it (as the constructor of a list does), retires objects (\<open>retire\<close>
  on the client's data, then \<^verbatim>\<open>Signal\<close>), deregisters it and destroys it, and starts again. The clients, \<open>N - 2\<close> of them, use the collector as its interface has it: what happens
  when a client that was deregistered is registered again without being constructed anew, or when the collector is
  destroyed, are theorems about these functions alone (theories \<open>Collector_Safety\<close>, \<open>Collector_Collect\<close>).
\<close>

datatype ct_pc =
    T_run run_pc | T_end
  | O_new | O_idle | O_stop stop_pc
  | K_none nat | K_ctor nat | K_register nat register_pc
  | K_live nat | K_retire nat | K_signal nat | K_deregister nat deregister_pc

record ('b, 'd) ct_env =
  e_post :: "'b \<Rightarrow> 'b"
  e_take :: "'b \<Rightarrow> 'b option"
  e_have :: "'d \<Rightarrow> bool"
  e_collect :: "'d \<Rightarrow> bool \<times> 'd"
  e_retire :: "'d \<Rightarrow> 'd"
  e_join :: bool

fun ct_act :: "('b, 'd) ct_env \<Rightarrow> ct_pc \<Rightarrow> (('b, 'd) ct, ct_pc, unit) action" where
  "ct_act E (T_run p) = calls T_run (\<lambda>_. T_end) (Run_ct (e_post E) (e_take E) (e_have E) (e_collect E) p)"
| "ct_act E T_end = Client []"
| "ct_act E O_new = Mem (\<lambda>s. (s\<lparr>thrd := True\<rparr>, Ret O_idle))"
| "ct_act E O_idle = Client [O_stop SP_active]"
| "ct_act E (O_stop p) = calls O_stop (\<lambda>_. O_idle) (Stop_ct (e_post E) (e_join E) p)"
| "ct_act E (K_none c) = Client [K_ctor c]"
| "ct_act E (K_ctor c) = Mem (\<lambda>s. (client_ctor c s, Ret (K_register c RG_state)))"
| "ct_act E (K_register c p) = calls (K_register c) (\<lambda>_. K_live c) (RegisterClient c p)"
| "ct_act E (K_live c) = Client [K_retire c, K_deregister c DR_cas]"
| "ct_act E (K_retire c) = Mem (\<lambda>s. (s\<lparr>cl_data := (cl_data s)(c := e_retire E (cl_data s c))\<rparr>, Ret (K_signal c)))"
| "ct_act E (K_signal c) = Mem (\<lambda>s. (Signal (e_post E) s, Ret (K_live c)))"
| "ct_act E (K_deregister c p) = calls (K_deregister c) (\<lambda>_. K_none c) (DeregisterClient c p)"

definition ct_start :: "'b \<Rightarrow> (nat \<Rightarrow> 'd) \<Rightarrow> (('b, 'd) ct, ct_pc) conf" where
  "ct_start b d = (start (CollectorThread_ctor b d) O_idle)\<lparr>pcs :=
     (\<lambda>t. if t = 0 then T_run RN_test else if t = 1 then O_new else K_none t)\<rparr>"

end
