(* ===== verification/Collector_Safety.thy ===== *)
theory Collector_Safety
  imports Collector
begin

text \<open>
  The invariant of the collector thread and its clients (theory \<open>Collector\<close>) in every
  interleaving: the two vectors stay parallel, a client's state tells where its thread is, and
  the collector is inside a client's \<^verbatim>\<open>Collect\<close> only while the client's
  \<^verbatim>\<open>DeregisterClient\<close> has not got past its compare-and-exchange.
\<close>

section \<open>The invariant\<close>

fun in_lock :: "ct_pc \<Rightarrow> bool" where
  "in_lock (T_run (RN_collect (CC_for _ _ _))) = True"
| "in_lock (T_run (RN_collect (CC_have _ _ _))) = True"
| "in_lock (T_run (RN_collect (CC_cas _ _ _))) = True"
| "in_lock (T_run (RN_collect (CC_unlock _ _ _))) = True"
| "in_lock (K_register _ p) = (p \<in> {RG_push, RG_store, RG_set, RG_unlock})"
| "in_lock (K_deregister _ p) = (case p of DR_find \<Rightarrow> True | DR_erase _ \<Rightarrow> True | DR_store \<Rightarrow> True | DR_unlock \<Rightarrow> True | _ \<Rightarrow> False)"
| "in_lock _ = False"

definition lock_inv :: "nat \<Rightarrow> bool \<Rightarrow> (tid \<Rightarrow> ct_pc) \<Rightarrow> bool" where
  "lock_inv N l P \<longleftrightarrow> (l \<longleftrightarrow> (\<exists>t<N. in_lock (P t))) \<and> (\<forall>t<N. \<forall>u<N. in_lock (P t) \<longrightarrow> in_lock (P u) \<longrightarrow> t = u)"

text \<open>The client that the collector is at: between the two changes of its state.\<close>

fun collecting :: "ct_pc \<Rightarrow> nat option" where
  "collecting (T_run (RN_collect (CC_unlock c _ _))) = c"
| "collecting (T_run (RN_collect (CC_client c _ _))) = Some c"
| "collecting (T_run (RN_collect (CC_back c _ _))) = Some c"
| "collecting _ = None"

datatype phase = Absent | Fresh | Listed | Live | Leaving

fun register_phase :: "register_pc \<Rightarrow> phase" where
  "register_phase RG_store = Listed"
| "register_phase RG_set = Live"
| "register_phase RG_unlock = Live"
| "register_phase _ = Fresh"

fun deregister_phase :: "deregister_pc \<Rightarrow> phase" where
  "deregister_phase DR_cas = Live"
| "deregister_phase (DR_check _) = Live"
| "deregister_phase DR_store = Absent"
| "deregister_phase DR_unlock = Absent"
| "deregister_phase _ = Leaving"

fun phase_of :: "ct_pc \<Rightarrow> phase" where
  "phase_of (K_register _ p) = register_phase p"
| "phase_of (K_live _) = Live"
| "phase_of (K_retire _) = Live"
| "phase_of (K_signal _) = Live"
| "phase_of (K_deregister _ p) = deregister_phase p"
| "phase_of _ = Absent"

fun deregister_inv :: "('b, 'd) ct \<Rightarrow> nat \<Rightarrow> deregister_pc \<Rightarrow> bool" where
  "deregister_inv m c (DR_check e) = (e = k_COLLECTING)"
| "deregister_inv m c (DR_erase ix) = (ix < length (clients m) \<and> clients m ! ix = c)"
| "deregister_inv m c _ = True"

fun client_of :: "ct_pc \<Rightarrow> nat option" where
  "client_of (K_none c) = Some c"
| "client_of (K_ctor c) = Some c"
| "client_of (K_register c _) = Some c"
| "client_of (K_live c) = Some c"
| "client_of (K_retire c) = Some c"
| "client_of (K_signal c) = Some c"
| "client_of (K_deregister c _) = Some c"
| "client_of _ = None"

definition client_inv :: "('b, 'd) ct \<Rightarrow> nat option \<Rightarrow> nat \<Rightarrow> ct_pc \<Rightarrow> bool" where
  "client_inv m col c p \<longleftrightarrow> client_of p = Some c \<and> (col = Some c \<longrightarrow> phase_of p = Live) \<and>
     (c \<in> set (clients m) \<longleftrightarrow> phase_of p \<in> {Listed, Live, Leaving}) \<and>
     (case phase_of p of
        Absent \<Rightarrow> True
      | Fresh \<Rightarrow> cl_state m c = k_UNREGISTERED \<and> \<not> cl_thread m c
      | Listed \<Rightarrow> cl_state m c = k_UNREGISTERED
      | Live \<Rightarrow> cl_state m c = (if col = Some c then k_COLLECTING else k_REGISTERED)
      | Leaving \<Rightarrow> cl_state m c = k_DELETING) \<and>
     (\<forall>q. p = K_deregister c q \<longrightarrow> deregister_inv m c q)"

fun scan_inv :: "nat \<Rightarrow> ('b, 'd) ct \<Rightarrow> ct_pc \<Rightarrow> bool" where
  "scan_inv N m (T_run (RN_collect (CC_have ix _ _))) = (ix < length (clients m))"
| "scan_inv N m (T_run (RN_collect (CC_cas ix _ _))) = (ix < length (clients m))"
| "scan_inv N m (T_run p) = (\<forall>c. collecting (T_run p) = Some c \<longrightarrow> 2 \<le> c \<and> c < N)"
| "scan_inv N m p = (p = T_end)"

fun owner_inv :: "ct_pc \<Rightarrow> bool" where
  "owner_inv O_new = True"
| "owner_inv O_idle = True"
| "owner_inv (O_stop p) = True"
| "owner_inv _ = False"

definition tables_inv :: "nat \<Rightarrow> ('b, 'd) ct \<Rightarrow> bool" where
  "tables_inv N m \<longleftrightarrow> distinct (clients m) \<and> length (clientsID m) = length (clients m) \<and> set (clients m) \<subseteq> {2..<N}"

definition ct_inv :: "nat \<Rightarrow> ('b, 'd) ct \<Rightarrow> (tid \<Rightarrow> ct_pc) \<Rightarrow> bool" where
  "ct_inv N m P \<longleftrightarrow> lock_inv N (data_lock m) P \<and> tables_inv N m \<and>
     (0 < N \<longrightarrow> scan_inv N m (P 0)) \<and> (1 < N \<longrightarrow> owner_inv (P 1)) \<and>
     (\<forall>c. 2 \<le> c \<longrightarrow> c < N \<longrightarrow> client_inv m (collecting (P 0)) c (P c))"

section \<open>The data lock\<close>

lemma lock_same:
  "lock_inv N l P \<Longrightarrow> in_lock q = in_lock (P t) \<Longrightarrow> lock_inv N l (P(t := q))"
  unfolding lock_inv_def by (metis fun_upd_apply)

lemma lock_acquire:
  "lock_inv N False P \<Longrightarrow> t < N \<Longrightarrow> in_lock q \<Longrightarrow> lock_inv N True (P(t := q))"
  unfolding lock_inv_def by auto

lemma lock_release:
  "lock_inv N l P \<Longrightarrow> t < N \<Longrightarrow> in_lock (P t) \<Longrightarrow> \<not> in_lock q \<Longrightarrow> lock_inv N False (P(t := q))"
  unfolding lock_inv_def by auto

lemma lock_alone:
  "lock_inv N l P \<Longrightarrow> t < N \<Longrightarrow> u < N \<Longrightarrow> in_lock (P t) \<Longrightarrow> in_lock (P u) \<Longrightarrow> t = u"
  unfolding lock_inv_def by blast

section \<open>Steps of a client's thread and of the collector\<close>

text \<open>A thread of a client changes its own client; the vectors only under the lock.\<close>

lemma scan_inv_frame:
  "clients m' = clients m \<or> \<not> in_lock p \<Longrightarrow> scan_inv N m p \<Longrightarrow> scan_inv N m' p"
  by (cases "(N, m, p)" rule: scan_inv.cases) auto

lemma ct_inv_client:
  assumes inv: "ct_inv N m P" and t: "2 \<le> t" "t < N"
    and new: "lock_inv N (data_lock m') (P(t := q))" "tables_inv N m'" "client_inv m' (collecting (P 0)) t q"
    and frame: "\<And>c. c \<noteq> t \<Longrightarrow> cl_state m' c = cl_state m c \<and> cl_thread m' c = cl_thread m c \<and>
        (c \<in> set (clients m') \<longleftrightarrow> c \<in> set (clients m))"
    and lk: "clients m' = clients m \<or> in_lock (P t)"
  shows "ct_inv N m' (P(t := q))"
proof -
  have P0: "(P(t := q)) 0 = P 0" "(P(t := q)) (Suc 0) = P 1" using t by auto
  have l: "lock_inv N (data_lock m) P" using inv by (simp add: ct_inv_def)
  have "clients m' = clients m \<or> \<not> in_lock (P 0)" using lk lock_alone [OF l t(2), of 0] t by auto
  then have "scan_inv N m' (P 0)" by (rule scan_inv_frame) (use inv t in \<open>simp add: ct_inv_def\<close>)
  moreover have "client_inv m' (collecting (P 0)) c (P c)" if c: "2 \<le> c" "c < N" "c \<noteq> t" for c
  proof -
    have i: "client_inv m (collecting (P 0)) c (P c)" using inv c by (simp add: ct_inv_def)
    have "deregister_inv m' c q'" if d: "P c = K_deregister c q'" for q'
    proof (cases "clients m' = clients m")
      case True
      have "deregister_inv m c q'" using i d by (simp add: client_inv_def)
      with True show ?thesis by (cases q') auto
    next
      case False
      then have "\<not> in_lock (P c)" using lk lock_alone [OF l t(2) c(2)] c(3) by blast
      moreover have "deregister_inv m c q'" using i d by (simp add: client_inv_def)
      ultimately show ?thesis using d by (cases q') auto
    qed
    with i frame [OF c(3)] show ?thesis by (simp add: client_inv_def split: phase.splits)
  qed
  ultimately show ?thesis using inv new P0 t unfolding ct_inv_def by auto
qed

lemma ct_inv_collector:
  assumes inv: "ct_inv N m P" and t: "0 < N"
    and new: "lock_inv N (data_lock m') (P(0 := q))" "scan_inv N m' q" "clients m' = clients m" "clientsID m' = clientsID m"
    and cl: "\<And>c. 2 \<le> c \<Longrightarrow> c < N \<Longrightarrow> client_inv m' (collecting q) c (P c)"
  shows "ct_inv N m' (P(0 := q))"
  using assms unfolding ct_inv_def tables_inv_def by auto

text \<open>The collector changes nothing of its clients but the state of the one it is at.\<close>

lemma client_inv_frame:
  assumes "client_inv m col c p" and "clients m' = clients m" "cl_state m' c = cl_state m c" "cl_thread m' c = cl_thread m c"
  shows "client_inv m' col c p"
proof -
  have "deregister_inv m' c q = deregister_inv m c q" for q by (cases q) (simp_all add: assms(2))
  with assms show ?thesis by (simp add: client_inv_def split: phase.splits)
qed

lemma client_inv_other: "client_inv m col c p \<Longrightarrow> (col' = Some c) = (col = Some c) \<Longrightarrow> client_inv m col' c p"
  by (simp add: client_inv_def split: phase.splits)

lemma collector_same:
  assumes inv: "ct_inv N m P" and t: "0 < N"
    and "lock_inv N (data_lock m') (P(0 := q))" "scan_inv N m' q" "collecting q = collecting (P 0)"
    and "clients m' = clients m" "clientsID m' = clientsID m" "cl_state m' = cl_state m" "cl_thread m' = cl_thread m"
  shows "ct_inv N m' (P(0 := q))"
proof (rule ct_inv_collector [OF inv t assms(3,4,6,7)])
  fix c
  assume "2 \<le> c" "c < N"
  then have "client_inv m (collecting (P 0)) c (P c)" using inv by (simp add: ct_inv_def)
  then show "client_inv m' (collecting q) c (P c)"
    unfolding assms(5) by (rule client_inv_frame) (use assms in simp_all)
qed

section \<open>Every step keeps the invariant\<close>

lemmas ct_points = Let_def calls_atom via_atom lock_data_def atomics set_state_def Signal_def client_ctor_def

text \<open>\<open>ct_goes E N m P t\<close>: the next step of thread \<open>t\<close>, if it is a memory access, succeeds and keeps the invariant.\<close>

definition ct_goes :: "('b, 'd) ct_env \<Rightarrow> nat \<Rightarrow> ('b, 'd) ct \<Rightarrow> (tid \<Rightarrow> ct_pc) \<Rightarrow> tid \<Rightarrow> bool" where
  "ct_goes E N m P t \<longleftrightarrow> (\<forall>f. ct_act E (P t) = Mem f \<longrightarrow> (\<exists>m' q. f m = (m', Ret q) \<and> ct_inv N m' (P(t := q))))"

lemma collector_scan_step:
  assumes inv: "ct_inv N m P" and t: "0 < N" and p: "P 0 = T_run (RN_collect (CC_cas ix cur pend))"
  shows "ct_goes E N m P 0"
proof -
  have l: "lock_inv N (data_lock m) P" and s: "ix < length (clients m)" and tb: "tables_inv N m"
    using inv t p by (auto simp: ct_inv_def)
  define c where "c = clients m ! ix"
  have mem: "c \<in> set (clients m)" using s by (simp add: c_def)
  then have c: "2 \<le> c" "c < N" using tb by (auto simp: tables_inv_def)
  have ci: "client_inv m None c (P c)" using inv c p by (auto simp: ct_inv_def)
  have nl: "\<not> in_lock (P c)" using lock_alone [OF l t c(2)] p c by auto
  then have "phase_of (P c) \<noteq> Listed" by (cases "P c" rule: phase_of.cases) (auto elim: register_phase.elims deregister_phase.elims)
  with ci mem have ph: "phase_of (P c) = Live \<or> phase_of (P c) = Leaving" by (auto simp: client_inv_def)
  show ?thesis
  proof (cases "phase_of (P c) = Live")
    case True
    then have st: "cl_state m c = k_REGISTERED" using ci by (simp add: client_inv_def)
    let ?m = "set_state c k_COLLECTING m" and ?q = "T_run (RN_collect (CC_unlock (Some c) cur pend))"
    have "ct_inv N ?m (P(0 := ?q))"
    proof (rule ct_inv_collector [OF inv t])
      show "lock_inv N (data_lock ?m) (P(0 := ?q))" using lock_same [OF l, of ?q 0] p by (simp add: set_state_def)
      fix b
      assume b: "2 \<le> b" "b < N"
      show "client_inv ?m (collecting ?q) b (P b)"
      proof (cases "b = c")
        case eq: True
        have "deregister_inv ?m c x = deregister_inv m c x" for x by (cases x) (simp_all add: set_state_def)
        with ci True eq show ?thesis by (simp add: client_inv_def set_state_def)
      next
        case False
        have "client_inv m None b (P b)" using inv b p by (auto simp: ct_inv_def)
        then have "client_inv ?m None b (P b)" by (rule client_inv_frame) (use False in \<open>simp_all add: set_state_def\<close>)
        then show ?thesis by (rule client_inv_other) (use False in simp)
      qed
    qed (use c in \<open>simp_all add: set_state_def\<close>)
    with st s show ?thesis by (simp add: ct_goes_def p ct_points c_def)
  next
    case False
    with ph ci have "cl_state m c = k_DELETING" by (simp add: client_inv_def)
    moreover have "ct_inv N m (P(0 := T_run (RN_collect (CC_for (ix + 1) cur pend))))"
      by (rule collector_same [OF inv t]) (use lock_same [OF l] p in simp_all)
    ultimately show ?thesis using s by (simp add: ct_goes_def p ct_points c_def client_states)
  qed
qed

lemma collector_back_step:
  assumes inv: "ct_inv N m P" and t: "0 < N" and p: "P 0 = T_run (RN_collect (CC_back c cur pend))"
  shows "ct_goes E N m P 0"
proof -
  have l: "lock_inv N (data_lock m) P" and c: "2 \<le> c" "c < N"
    using inv t p by (auto simp: ct_inv_def)
  have ci: "client_inv m (Some c) c (P c)" using inv c p by (auto simp: ct_inv_def)
  then have st: "phase_of (P c) = Live" "cl_state m c = k_COLLECTING" by (auto simp: client_inv_def)
  let ?m = "set_state c k_REGISTERED m" and ?q = "T_run (RN_collect (CC_lock cur pend))"
  have "ct_inv N ?m (P(0 := ?q))"
  proof (rule ct_inv_collector [OF inv t])
    show "lock_inv N (data_lock ?m) (P(0 := ?q))" using lock_same [OF l, of ?q 0] p by (simp add: set_state_def)
    fix b
    assume b: "2 \<le> b" "b < N"
    show "client_inv ?m (collecting ?q) b (P b)"
    proof (cases "b = c")
      case True
      have "deregister_inv ?m c x = deregister_inv m c x" for x by (cases x) (simp_all add: set_state_def)
      with ci st True show ?thesis by (simp add: client_inv_def set_state_def)
    next
      case False
      have "client_inv m (Some c) b (P b)" using inv b p by (auto simp: ct_inv_def)
      then have "client_inv ?m (Some c) b (P b)" by (rule client_inv_frame) (use False in \<open>simp_all add: set_state_def\<close>)
      then show ?thesis by (rule client_inv_other) (use False in simp)
    qed
  qed (use c in \<open>simp_all add: set_state_def\<close>)
  with st show ?thesis by (simp add: ct_goes_def p ct_points)
qed

lemma collector_collect_step:
  assumes inv: "ct_inv N m P" and t: "0 < N" and p: "P 0 = T_run (RN_collect q)"
  shows "ct_goes E N m P 0"
proof (cases q)
  case (CC_lock cur pend)
  have "ct_inv N m P" "data_lock m \<Longrightarrow> P(0 := T_run (RN_collect q)) = P" using inv p by auto
  moreover have "ct_inv N (m\<lparr>data_lock := True\<rparr>) (P(0 := T_run (RN_collect (CC_for 0 cur pend))))" if "\<not> data_lock m"
    by (rule collector_same [OF inv t]) (use inv t p CC_lock that lock_acquire [of N P 0] in \<open>auto simp: ct_inv_def\<close>)
  ultimately show ?thesis using p CC_lock by (simp add: ct_goes_def ct_points)
next
  case (CC_for ix cur pend)
  have "ct_inv N m (P(0 := T_run (RN_collect q')))"
    if "q' = CC_for (ix + 1) cur pend \<or> q' = CC_unlock None cur pend \<or> (\<exists>i. q' = CC_have ix i pend) \<and> ix < length (clientsID m)" for q'
    by (rule collector_same [OF inv t]) (use inv p CC_for that in \<open>auto simp: ct_inv_def tables_inv_def intro!: lock_same\<close>)
  with p CC_for show ?thesis by (simp add: ct_goes_def ct_points)
next
  case (CC_have ix cur pend)
  have s: "ix < length (clients m)" using inv t p CC_have by (auto simp: ct_inv_def)
  have "ct_inv N m (P(0 := T_run (RN_collect q')))" if "q' = CC_for (ix + 1) cur pend \<or> q' = CC_cas ix cur pend" for q'
    by (rule collector_same [OF inv t]) (use inv p CC_have that s in \<open>auto simp: ct_inv_def intro!: lock_same\<close>)
  with p CC_have s show ?thesis by (simp add: ct_goes_def ct_points)
next
  case (CC_cas ix cur pend)
  with collector_scan_step [OF inv t] p show ?thesis by simp
next
  case (CC_unlock c cur pend)
  have l: "lock_inv N (data_lock m) P" using inv by (simp add: ct_inv_def)
  have "ct_inv N (m\<lparr>data_lock := False\<rparr>) (P(0 := q'))"
    if "q' = (case c of None \<Rightarrow> T_run (if pend then RN_post else RN_wait) | Some b \<Rightarrow> T_run (RN_collect (CC_client b cur pend)))" for q'
    by (rule collector_same [OF inv t])
      (use inv t p CC_unlock that lock_release [OF l t] in \<open>auto simp: ct_inv_def split: option.splits\<close>)
  with p CC_unlock show ?thesis by (cases c) (auto simp: ct_goes_def ct_points)
next
  case (CC_client c cur pend)
  have "ct_inv N (m\<lparr>cl_data := d\<rparr>) (P(0 := T_run (RN_collect (CC_back c cur pend'))))" for d pend'
    by (rule collector_same [OF inv t]) (use inv t p CC_client in \<open>auto simp: ct_inv_def intro!: lock_same\<close>)
  with p CC_client show ?thesis by (auto simp: ct_goes_def ct_points split_beta)
next
  case (CC_back c cur pend)
  with collector_back_step [OF inv t] p show ?thesis by simp
qed

lemma collector_step:
  assumes inv: "ct_inv N m P" and t: "0 < N" and p: "P 0 = T_run p"
  shows "ct_goes E N m P 0"
proof (cases p)
  case RN_test
  have "ct_inv N m (P(0 := T_run q))" if "q = RN_collect (CC_lock 0 False) \<or> q = RN_exit" for q
    by (rule collector_same [OF inv t]) (use inv t p RN_test that in \<open>auto simp: ct_inv_def intro!: lock_same\<close>)
  with p RN_test show ?thesis by (simp add: ct_goes_def ct_points)
next
  case (RN_collect q)
  with collector_collect_step [OF inv t] p show ?thesis by simp
next
  case RN_post
  have "ct_inv N (m\<lparr>sema := b\<rparr>) (P(0 := T_run RN_wait))" for b
    by (rule collector_same [OF inv t]) (use inv t p RN_post in \<open>auto simp: ct_inv_def intro!: lock_same\<close>)
  with p RN_post show ?thesis by (simp add: ct_goes_def ct_points)
next
  case RN_wait
  have "ct_inv N (m\<lparr>sema := b\<rparr>) (P(0 := T_run RN_test))" for b
    by (rule collector_same [OF inv t]) (use inv t p RN_wait in \<open>auto simp: ct_inv_def intro!: lock_same\<close>)
  moreover have "P(0 := T_run RN_wait) = P" using p RN_wait by auto
  ultimately show ?thesis using p RN_wait inv by (auto simp: ct_goes_def ct_points split: option.splits)
next
  case RN_exit
  have "ct_inv N (m\<lparr>thrd := False\<rparr>) (P(0 := T_run RN_end))"
    by (rule collector_same [OF inv t]) (use inv t p RN_exit in \<open>auto simp: ct_inv_def intro!: lock_same\<close>)
  with p RN_exit show ?thesis by (simp add: ct_goes_def ct_points)
next
  case RN_end
  have "ct_inv N (m\<lparr>running := False\<rparr>) (P(0 := T_end))"
    by (rule collector_same [OF inv t]) (use inv t p RN_end in \<open>auto simp: ct_inv_def intro!: lock_same\<close>)
  with p RN_end show ?thesis by (simp add: ct_goes_def ct_points)
qed

lemma find_client_Some: "find_client xs c k = Some i \<Longrightarrow> k \<le> i \<and> i - k < length xs \<and> xs ! (i - k) = c"
proof (induction xs arbitrary: k)
  case (Cons x xs)
  show ?case
  proof (cases "x = c")
    case False
    with Cons.IH [of "k + 1"] Cons.prems have "k + 1 \<le> i" "i - (k + 1) < length xs" "xs ! (i - (k + 1)) = c" by auto
    then show ?thesis by (auto simp: nth_Cons' Suc_le_eq)
  qed (use Cons.prems in auto)
qed simp

lemma find_client_None: "find_client xs c k = None \<longleftrightarrow> c \<notin> set xs"
  by (induction xs arbitrary: k) auto

lemma erase_at_props:
  assumes "i < length xs" and "distinct xs"
  shows "distinct (erase_at i xs)" and "set (erase_at i xs) = set xs - {xs ! i}"
proof -
  have xs: "xs = take i xs @ xs ! i # drop (Suc i) xs" using assms(1) by (rule id_take_nth_drop)
  then have "distinct (take i xs @ xs ! i # drop (Suc i) xs)" using assms(2) by simp
  then show "distinct (erase_at i xs)" by (auto simp: erase_at_def)
  have "set xs = set (take i xs) \<union> {xs ! i} \<union> set (drop (Suc i) xs)" by (subst xs) auto
  moreover have "xs ! i \<notin> set (take i xs)" "xs ! i \<notin> set (drop (Suc i) xs)"
    using \<open>distinct (take i xs @ xs ! i # drop (Suc i) xs)\<close> by auto
  ultimately show "set (erase_at i xs) = set xs - {xs ! i}" by (auto simp: erase_at_def)
qed

lemma length_erase_at: "i < length xs \<Longrightarrow> length (erase_at i xs) = length xs - 1"
  by (simp add: erase_at_def)

text \<open>A step of a client's thread that leaves the two vectors alone.\<close>

lemma client_same:
  assumes inv: "ct_inv N m P" and t: "2 \<le> t" "t < N"
    and "lock_inv N (data_lock m') (P(t := q))" "clients m' = clients m" "clientsID m' = clientsID m"
    and "\<And>c. c \<noteq> t \<Longrightarrow> cl_state m' c = cl_state m c \<and> cl_thread m' c = cl_thread m c"
    and "client_inv m' (collecting (P 0)) t q"
  shows "ct_inv N m' (P(t := q))"
  by (rule ct_inv_client [OF inv t]) (use assms in \<open>auto simp: ct_inv_def tables_inv_def\<close>)

lemma register_step:
  assumes inv: "ct_inv N m P" and t: "2 \<le> t" "t < N" and p: "P t = K_register t p"
  shows "ct_goes E N m P t"
proof -
  have l: "lock_inv N (data_lock m) P" and tb: "tables_inv N m" and ci: "client_inv m (collecting (P 0)) t (P t)"
    using inv t by (auto simp: ct_inv_def)
  note same = client_same [OF inv t]
  note cd = ci [unfolded p client_inv_def]
  show ?thesis
  proof (cases p)
    case RG_state
    have "ct_inv N m (P(t := K_register t RG_thread))"
      by (rule same) (use cd RG_state lock_same [OF l] p in \<open>auto simp: client_inv_def\<close>)
    with cd RG_state show ?thesis by (simp add: ct_goes_def p ct_points)
  next
    case RG_thread
    have "ct_inv N m (P(t := K_register t RG_lock))"
      by (rule same) (use cd RG_thread lock_same [OF l] p in \<open>auto simp: client_inv_def\<close>)
    with cd RG_thread show ?thesis by (simp add: ct_goes_def p ct_points check_def)
  next
    case RG_lock
    have "ct_inv N (m\<lparr>data_lock := True\<rparr>) (P(t := K_register t RG_push))" if "\<not> data_lock m"
      by (rule same) (use cd RG_lock l t that lock_acquire [of N P t] p in \<open>auto simp: client_inv_def\<close>)
    moreover have "P(t := K_register t RG_lock) = P" using p RG_lock by auto
    ultimately show ?thesis using p RG_lock inv by (simp add: ct_goes_def ct_points)
  next
    case RG_push
    let ?m = "m\<lparr>clients := clients m @ [t], id_value := id_value m + 1, clientsID := clientsID m @ [id_value m + 1]\<rparr>"
    have "ct_inv N ?m (P(t := K_register t RG_store))"
    proof (rule ct_inv_client [OF inv t])
      show "tables_inv N ?m" using tb cd RG_push t by (auto simp: tables_inv_def)
      show "lock_inv N (data_lock ?m) (P(t := K_register t RG_store))" using lock_same [OF l] p RG_push by simp
      show "client_inv ?m (collecting (P 0)) t (K_register t RG_store)" using cd RG_push by (auto simp: client_inv_def)
    qed (use p RG_push in auto)
    with p RG_push show ?thesis by (simp add: ct_goes_def ct_points)
  next
    case RG_store
    have "ct_inv N (set_state t k_REGISTERED m) (P(t := K_register t RG_set))"
      by (rule same) (use cd RG_store lock_same [OF l] p in \<open>auto simp: client_inv_def set_state_def\<close>)
    with p RG_store show ?thesis by (simp add: ct_goes_def ct_points)
  next
    case RG_set
    have "ct_inv N (m\<lparr>cl_thread := (cl_thread m)(t := True)\<rparr>) (P(t := K_register t RG_unlock))"
      by (rule same) (use cd RG_set lock_same [OF l] p in \<open>auto simp: client_inv_def\<close>)
    with p RG_set show ?thesis by (simp add: ct_goes_def ct_points)
  next
    case RG_unlock
    have "ct_inv N (m\<lparr>data_lock := False\<rparr>) (P(t := K_live t))"
      by (rule same) (use cd RG_unlock lock_release [OF l t(2)] p in \<open>auto simp: client_inv_def\<close>)
    with p RG_unlock show ?thesis by (simp add: ct_goes_def ct_points)
  qed
qed

lemma deregister_step:
  assumes inv: "ct_inv N m P" and t: "2 \<le> t" "t < N" and p: "P t = K_deregister t p"
  shows "ct_goes E N m P t"
proof -
  have l: "lock_inv N (data_lock m) P" and tb: "tables_inv N m" and ci: "client_inv m (collecting (P 0)) t (P t)"
    using inv t by (auto simp: ct_inv_def)
  note same = client_same [OF inv t]
  note cd = ci [unfolded p client_inv_def]
  show ?thesis
  proof (cases p)
    case DR_cas
    show ?thesis
    proof (cases "collecting (P 0) = Some t")
      case True
      have "ct_inv N (set_state t k_COLLECTING m) (P(t := K_deregister t (DR_check k_COLLECTING)))"
        by (rule same) (use cd DR_cas True lock_same [OF l] p in \<open>auto simp: client_inv_def set_state_def\<close>)
      with cd DR_cas True show ?thesis by (simp add: ct_goes_def p ct_points client_states)
    next
      case False
      have "ct_inv N (set_state t k_DELETING m) (P(t := K_deregister t DR_lock))"
        by (rule same) (use cd DR_cas False lock_same [OF l] p in \<open>auto simp: client_inv_def set_state_def\<close>)
      with cd DR_cas False show ?thesis by (simp add: ct_goes_def p ct_points)
    qed
  next
    case (DR_check e)
    have "ct_inv N m (P(t := K_deregister t DR_cas))"
      by (rule same) (use cd DR_check lock_same [OF l] p in \<open>auto simp: client_inv_def\<close>)
    with cd DR_check show ?thesis by (simp add: ct_goes_def p ct_points check_def)
  next
    case DR_lock
    have "ct_inv N (m\<lparr>data_lock := True\<rparr>) (P(t := K_deregister t DR_find))" if "\<not> data_lock m"
      by (rule same) (use cd DR_lock l t that lock_acquire [of N P t] p in \<open>auto simp: client_inv_def\<close>)
    moreover have "P(t := K_deregister t DR_lock) = P" using p DR_lock by auto
    ultimately show ?thesis using p DR_lock inv by (simp add: ct_goes_def ct_points)
  next
    case DR_find
    have "t \<in> set (clients m)" using cd DR_find by auto
    then obtain ix where ix: "find_client (clients m) t 0 = Some ix" using find_client_None [of "clients m" t 0] by fastforce
    have "ct_inv N m (P(t := K_deregister t (DR_erase ix)))"
      by (rule same) (use cd DR_find find_client_Some [OF ix] lock_same [OF l] p in \<open>auto simp: client_inv_def\<close>)
    with ix p DR_find show ?thesis by (simp add: ct_goes_def ct_points)
  next
    case (DR_erase ix)
    let ?m = "m\<lparr>clients := erase_at ix (clients m), clientsID := erase_at ix (clientsID m)\<rparr>"
    have ix: "ix < length (clients m)" "clients m ! ix = t" and d: "distinct (clients m)"
      using cd DR_erase tb by (auto simp: tables_inv_def)
    note e = erase_at_props [OF ix(1) d]
    have "ct_inv N ?m (P(t := K_deregister t DR_store))"
    proof (rule ct_inv_client [OF inv t])
      show "tables_inv N ?m" using tb ix e by (auto simp: tables_inv_def length_erase_at)
      show "lock_inv N (data_lock ?m) (P(t := K_deregister t DR_store))" using lock_same [OF l] p DR_erase by simp
      show "client_inv ?m (collecting (P 0)) t (K_deregister t DR_store)" using cd DR_erase e(2) ix(2) by (auto simp: client_inv_def)
    qed (use p DR_erase e(2) ix(2) in auto)
    with p DR_erase show ?thesis by (simp add: ct_goes_def ct_points)
  next
    case DR_store
    have "ct_inv N (set_state t k_UNREGISTERED m) (P(t := K_deregister t DR_unlock))"
      by (rule same) (use cd DR_store lock_same [OF l] p in \<open>auto simp: client_inv_def set_state_def\<close>)
    with p DR_store show ?thesis by (simp add: ct_goes_def ct_points)
  next
    case DR_unlock
    have "ct_inv N (m\<lparr>data_lock := False\<rparr>) (P(t := K_none t))"
      by (rule same) (use cd DR_unlock lock_release [OF l t(2)] p in \<open>auto simp: client_inv_def\<close>)
    with p DR_unlock show ?thesis by (simp add: ct_goes_def ct_points)
  qed
qed

lemma client_step:
  assumes inv: "ct_inv N m P" and t: "2 \<le> t" "t < N"
  shows "ct_goes E N m P t"
proof -
  have l: "lock_inv N (data_lock m) P" and ci: "client_inv m (collecting (P 0)) t (P t)"
    using inv t by (auto simp: ct_inv_def)
  have c: "client_of (P t) = Some t" using ci by (simp add: client_inv_def)
  note same = client_same [OF inv t]
  show ?thesis
  proof (cases "P t" rule: client_of.cases)
    case (2 b)
    have "ct_inv N (client_ctor t m) (P(t := K_register t RG_state))"
      by (rule same) (use ci 2 c lock_same [OF l] in \<open>auto simp: client_inv_def client_ctor_def client_states\<close>)
    with 2 c show ?thesis by (simp add: ct_goes_def)
  next
    case (3 b q)
    with c register_step [OF inv t] show ?thesis by simp
  next
    case (5 b)
    have "ct_inv N (m\<lparr>cl_data := d\<rparr>) (P(t := K_signal t))" for d
      by (rule same) (use ci 5 c lock_same [OF l] in \<open>auto simp: client_inv_def\<close>)
    with 5 c show ?thesis by (simp add: ct_goes_def)
  next
    case (6 b)
    have "ct_inv N (Signal f m) (P(t := K_live t))" for f
      by (rule same) (use ci 6 c lock_same [OF l] in \<open>auto simp: client_inv_def Signal_def\<close>)
    with 6 c show ?thesis by (simp add: ct_goes_def)
  next
    case (7 b q)
    with c deregister_step [OF inv t] show ?thesis by simp
  qed (use c in \<open>simp_all add: ct_goes_def\<close>)
qed

text \<open>
  The owner's thread. Its one step that can fail is the call of \<^verbatim>\<open>join\<close> in \<^verbatim>\<open>Stop(true)\<close>, when the collector thread has
  set \<^verbatim>\<open>thrd\<close> to null since the test.
\<close>

definition null_join :: "('b, 'd) ct_env \<Rightarrow> ('b, 'd) ct \<Rightarrow> ct_pc \<Rightarrow> bool" where
  "null_join E m p \<longleftrightarrow> p = O_stop SP_call \<and> (\<forall>f. ct_act E p = Mem f \<longrightarrow> f m = (m, Stop (Bad_deref ''thrd'')))"

lemma owner_step:
  assumes inv: "ct_inv N m P" and t: "1 < N"
  shows "ct_goes E N m P 1 \<or> null_join E m (P 1)"
proof -
  have l: "lock_inv N (data_lock m) P" and o: "owner_inv (P 1)" using inv t by (auto simp: ct_inv_def)
  have keep: "ct_inv N m' (P(1 := q))"
    if "data_lock m' = data_lock m" "clients m' = clients m" "clientsID m' = clientsID m" "cl_state m' = cl_state m"
      "cl_thread m' = cl_thread m" "owner_inv q" for m' q
  proof -
    have "\<not> in_lock q" "\<not> in_lock (P 1)" using o that(6) by (auto elim!: owner_inv.elims)
    then have "lock_inv N (data_lock m') (P(1 := q))" using lock_same [OF l, of q 1] that(1) by simp
    moreover have "scan_inv N m' (P 0)" by (rule scan_inv_frame) (use inv t that in \<open>auto simp: ct_inv_def\<close>)
    moreover have "client_inv m' (collecting (P 0)) c (P c)" if "2 \<le> c" "c < N" for c
      by (rule client_inv_frame [where m = m]) (use inv that \<open>clients m' = clients m\<close> \<open>cl_state m' = cl_state m\<close> \<open>cl_thread m' = cl_thread m\<close> in \<open>auto simp: ct_inv_def\<close>)
    ultimately show ?thesis using inv that(2,3,6) by (auto simp: ct_inv_def tables_inv_def)
  qed
  note keep = keep [unfolded One_nat_def]
  show ?thesis
  proof (cases "P 1" rule: owner_inv.cases)
    case (3 q)
    then show ?thesis by (cases q) (auto simp: ct_goes_def null_join_def ct_points intro!: keep)
  qed (use o in \<open>auto simp: ct_goes_def intro!: keep\<close>)
qed

lemma ct_step:
  assumes inv: "ct_inv N m P" and t: "t < N"
  shows "ct_goes E N m P t \<or> t = 1 \<and> null_join E m (P t)"
proof -
  consider "t = 0" | "t = 1" | "2 \<le> t" by linarith
  then show ?thesis
  proof cases
    case 1
    then have "scan_inv N m (P 0)" using inv t by (simp add: ct_inv_def)
    with 1 collector_step [OF inv] t show ?thesis
      by (cases "(N, m, P 0)" rule: scan_inv.cases) (auto simp: ct_goes_def)
  next
    case 2
    with owner_step [OF inv] t show ?thesis by simp
  next
    case 3
    with client_step [OF inv _ t] show ?thesis by simp
  qed
qed

text \<open>Without \<^verbatim>\<open>Stop(true)\<close> nobody calls \<^verbatim>\<open>join\<close>.\<close>

fun joins :: "ct_pc \<Rightarrow> bool" where
  "joins (O_stop p) = (p = SP_call \<or> p = SP_join)"
| "joins _ = False"

lemma joins_step:
  assumes "ct_act E p = Mem f" and "f m = (m', Ret q)" and "\<not> e_join E" and "\<not> joins p"
  shows "\<not> joins q"
proof (cases p)
  case (O_stop r)
  with assms show ?thesis by (cases r) (auto simp: ct_points)
next
  case (T_run r)
  with assms(1) have "calls T_run (\<lambda>_. T_end) (Run_ct (e_post E) (e_take E) (e_have E) (e_collect E) r) = Mem f" by simp
  from this assms(2) show ?thesis by (rule calls_Mem_Ret) (auto split: cont.splits)
next
  case (K_register c r)
  with assms(1) have "calls (K_register c) (\<lambda>_. K_live c) (RegisterClient c r) = Mem f" by simp
  from this assms(2) show ?thesis by (rule calls_Mem_Ret) (auto split: cont.splits)
next
  case (K_deregister c r)
  with assms(1) have "calls (K_deregister c) (\<lambda>_. K_none c) (DeregisterClient c r) = Mem f" by simp
  from this assms(2) show ?thesis by (rule calls_Mem_Ret) (auto split: cont.splits)
qed (use assms in auto)

text \<open>Every step is a memory access or a choice of the caller.\<close>

lemma ct_atoms:
  "\<exists>g. Collect_ct h k q = atom g" "\<exists>g. Run_ct po ta h k r = atom g" "\<exists>g. Stop_ct po j sp = atom g"
  "\<exists>g. RegisterClient c rp = atom g" "\<exists>g. DeregisterClient c dp = atom g"
proof -
  show *: "\<exists>g. Collect_ct h k q = atom g" for q by (cases q) (simp_all add: lock_data_def, (rule exI, rule refl)+)
  show "\<exists>g. Run_ct po ta h k r = atom g"
    by (cases r) (use * in \<open>simp_all, (blast | metis via_atom)+\<close>)
  show "\<exists>g. Stop_ct po j sp = atom g" by (cases sp) (simp_all, (rule exI, rule refl)+)
  show "\<exists>g. RegisterClient c rp = atom g" by (cases rp) (simp_all add: lock_data_def, (rule exI, rule refl)+)
  show "\<exists>g. DeregisterClient c dp = atom g" by (cases dp) (simp_all add: lock_data_def, (rule exI, rule refl)+)
qed

lemma calls_Mem_atom: "\<exists>g. a = atom g \<Longrightarrow> \<exists>f. calls at ret a = Mem f"
  by (auto simp: calls_atom)

lemmas ct_mems = calls_Mem_atom [OF ct_atoms(2)] calls_Mem_atom [OF ct_atoms(3)] calls_Mem_atom [OF ct_atoms(4)] calls_Mem_atom [OF ct_atoms(5)]

text \<open>The points at which a caller chooses.\<close>

lemma ct_kinds: "(\<exists>f. ct_act E p = Mem f) \<or> p = T_end \<or> p = O_idle \<or> (\<exists>c. p = K_none c \<or> p = K_live c)"
  by (cases p) (simp_all add: ct_mems)

lemma ct_no_futex: "ct_act E p \<noteq> Wait c v k" "ct_act E p \<noteq> Wake c n k'"
  using ct_kinds [of E p] by auto

lemma ct_call:
  assumes inv: "ct_inv N m P" and t: "t < N" and a: "ct_act E (P t) = Client ps" "q \<in> set ps"
  shows "ct_inv N m (P(t := q))"
proof -
  have l: "lock_inv N (data_lock m) P" using inv by (simp add: ct_inv_def)
  consider "t = 0" | "t = 1" | "2 \<le> t" by linarith
  then show ?thesis
  proof cases
    case 1
    with inv t have "scan_inv N m (P 0)" by (simp add: ct_inv_def)
    then obtain p where "P 0 = T_run p \<or> P 0 = T_end" by (cases "P 0") auto
    moreover obtain g where "Run_ct (e_post E) (e_take E) (e_have E) (e_collect E) p = atom g" using ct_atoms(2) by blast
    ultimately show ?thesis using a 1 by (auto simp: calls_atom)
  next
    case 2
    with inv t have "owner_inv (P 1)" by (simp add: ct_inv_def)
    then consider "P 1 = O_new" | "P 1 = O_idle" | p where "P 1 = O_stop p" by (cases "P 1") auto
    then show ?thesis
    proof cases
      case 1
      with a \<open>t = 1\<close> show ?thesis by simp
    next
      case 2
      then have "q = O_stop SP_active" using a \<open>t = 1\<close> by auto
      with inv 2 \<open>t = 1\<close> t lock_same [OF l, of q 1] show ?thesis by (auto simp: ct_inv_def)
    next
      case (3 p)
      with a \<open>t = 1\<close> show ?thesis by (cases p) (simp_all add: calls_atom)
    qed
  next
    case 3
    then have ci: "client_inv m (collecting (P 0)) t (P t)" using inv t by (auto simp: ct_inv_def)
    have c: "client_of (P t) = Some t" using ci by (simp add: client_inv_def)
    consider "P t = K_none t" "q = K_ctor t" | "P t = K_live t" "q = K_retire t" | "P t = K_live t" "q = K_deregister t DR_cas"
    proof (cases "P t" rule: client_of.cases)
      case (3 b r)
      with a show ?thesis by (cases r) (simp_all add: calls_atom lock_data_def)
    next
      case (7 b r)
      with a show ?thesis by (cases r) (simp_all add: calls_atom lock_data_def)
    qed (use a c that in auto)
    then show ?thesis
      by cases (rule client_same [OF inv 3 t]; use ci lock_same [OF l] in \<open>auto simp: client_inv_def\<close>)+
  qed
qed

text \<open>The invariant of a state: that of the memory and the points, and the one way in which the process stops.\<close>

definition ct_safe :: "('b, 'd) ct_env \<Rightarrow> nat \<Rightarrow> (('b, 'd) ct, ct_pc) conf \<Rightarrow> bool" where
  "ct_safe E N s \<longleftrightarrow> ct_inv N (mem s) (pcs s) \<and> (\<forall>t<N. \<not> e_join E \<longrightarrow> \<not> joins (pcs s t)) \<and>
     (halted s = None \<or> halted s = Some (Bad_deref ''thrd'') \<and> e_join E)"

lemma ct_safe_mem:
  assumes i: "ct_safe E N s" and h: "halted s = None" and t: "t < N" and f: "ct_act E (pcs s t) = Mem f" "f (mem s) = (m, c)"
  shows "ct_safe E N (goto t c (s\<lparr>mem := m\<rparr>))"
proof -
  have inv: "ct_inv N (mem s) (pcs s)" and j: "\<And>u. u < N \<Longrightarrow> \<not> e_join E \<Longrightarrow> \<not> joins (pcs s u)" using i by (auto simp: ct_safe_def)
  from ct_step [OF inv t, of E] show ?thesis
  proof
    assume "ct_goes E N (mem s) (pcs s) t"
    then obtain q where q: "c = Ret q" "ct_inv N m ((pcs s)(t := q))" using f by (auto simp: ct_goes_def)
    have "\<not> e_join E \<Longrightarrow> \<not> joins q" using joins_step [OF f(1), of "mem s" m q] f(2) q(1) j [OF t] by blast
    with q j h show ?thesis by (auto simp: ct_safe_def)
  next
    assume n: "t = 1 \<and> null_join E (mem s) (pcs s t)"
    then have "m = mem s" "c = Stop (Bad_deref ''thrd'')" using f by (auto simp: null_join_def)
    moreover have "e_join E" by (rule ccontr) (use j [OF t] n in \<open>auto simp: null_join_def\<close>)
    ultimately show ?thesis using i by (simp add: ct_safe_def)
  qed
qed

lemma ct_safe_call:
  assumes i: "ct_safe E N s" and t: "t < N" and a: "ct_act E (pcs s t) = Client ps" "q \<in> set ps"
  shows "ct_safe E N (goto t (Ret q) s)"
proof -
  have "\<not> joins q" using ct_kinds [of E "pcs s t"] a by auto
  moreover have "ct_inv N (mem s) ((pcs s)(t := q))" using i by (intro ct_call [where P = "pcs s", OF _ t a]) (simp add: ct_safe_def)
  ultimately show ?thesis using i by (auto simp: ct_safe_def)
qed

interpretation ct: machine_invariant kw N "ct_act E" rd "ct_safe E N" for kw N E rd
  by unfold_locales (auto simp: ct_no_futex simp del: goto_simps intro: ct_safe_mem ct_safe_call)

section \<open>Properties\<close>

definition ct_step_rel :: "('b, 'd) ct_env \<Rightarrow> nat \<Rightarrow> (('b, 'd) ct, ct_pc) conf \<Rightarrow> (('b, 'd) ct, ct_pc) conf \<Rightarrow> bool" where
  "ct_step_rel E N = mstep fifo_wake N (ct_act E) (\<lambda>_ _. 0)"

lemma ct_inv_start:
  "ct_inv N (CollectorThread_ctor b d) (\<lambda>t. if t = 0 then T_run RN_test else if t = 1 then O_new else K_none t)"
  by (auto simp: ct_inv_def lock_inv_def tables_inv_def CollectorThread_ctor_def client_inv_def split: if_splits)

lemma ct_reach_safe:
  assumes "reach (ct_start b d) (ct_step_rel E N) s"
  shows "ct_safe E N s"
proof (rule ct.machine_reach_inv [OF assms [unfolded ct_step_rel_def]])
  show "ct_safe E N (ct_start b d)" using ct_inv_start [of N b d] by (simp add: ct_safe_def ct_start_def)
qed

lemma ct_reach_inv:
  assumes "reach (ct_start b d) (ct_step_rel E N) s"
  shows "ct_inv N (mem s) (pcs s)"
  using ct_reach_safe [OF assms] by (simp add: ct_safe_def)

text \<open>
  C6: Deregistration is safe. In every interleaving of the collector thread with any number of
  threads that register, use and deregister clients: while the collector is inside a client's
  \<^verbatim>\<open>Collect\<close>, that client is registered and its thread is not past the compare-and-exchange of
  \<^verbatim>\<open>DeregisterClient\<close>; so when \<^verbatim>\<open>DeregisterClient\<close> has returned, the client can be
  destroyed.
\<close>

theorem ct_collect_only_registered:
  assumes "reach (ct_start b d) (ct_step_rel E N) s" and "0 < N"
    and "pcs s 0 = T_run (RN_collect (CC_client c i pend))"
  shows "c \<in> set (clients (mem s)) \<and> cl_state (mem s) c = k_COLLECTING \<and> phase_of (pcs s c) = Live"
proof -
  note inv = ct_reach_inv [OF assms(1)]
  have "2 \<le> c" "c < N" using inv assms(2,3) by (auto simp: ct_inv_def)
  then have "client_inv (mem s) (Some c) c (pcs s c)" using inv assms(3) by (auto simp: ct_inv_def)
  then show ?thesis by (auto simp: client_inv_def)
qed

text \<open>An environment for examples: a binary semaphore, and clients whose data is the number of their objects.\<close>

definition bool_sem_env :: "bool \<Rightarrow> (bool, nat) ct_env" where
  "bool_sem_env j = \<lparr>e_post = (\<lambda>_. True), e_take = (\<lambda>b. if b then Some False else None), e_have = (\<lambda>n. 0 < n),
     e_collect = (\<lambda>n. (True, 0)), e_retire = Suc, e_join = j\<rparr>"

definition ct_example :: "event list" where
  "ct_example = [Call 2 0, Run 2, Run 2, Run 2, Run 2, Run 2, Run 2, Run 2, Run 2, Call 2 0, Run 2, Run 2,
     Run 0, Run 0, Run 0, Run 0, Run 0, Run 0, Call 2 1, Run 2]"

lemmas ct_eval = ct_start_def start_def CollectorThread_ctor_def ct_example_def bool_sem_env_def ct_points client_states check_def

theorem ct_collect_only_registered_witness:
  "\<exists>s. run fifo_wake 3 (ct_act (bool_sem_env False)) (\<lambda>_ _. 0) (ct_start False (\<lambda>_. 0)) ct_example = Some s \<and>
    pcs s 0 = T_run (RN_collect (CC_client 2 1 False)) \<and> pcs s 2 = K_deregister 2 (DR_check k_COLLECTING) \<and>
    2 \<in> set (clients (mem s)) \<and> cl_state (mem s) 2 = k_COLLECTING"
proof -
  obtain s where r: "run fifo_wake 3 (ct_act (bool_sem_env False)) (\<lambda>_ _. 0) (ct_start False (\<lambda>_. 0)) ct_example = Some s"
    and s: "pcs s 0 = T_run (RN_collect (CC_client 2 1 False))" "pcs s 2 = K_deregister 2 (DR_check k_COLLECTING)"
    by (simp add: ct_eval)
  have "reach (ct_start False (\<lambda>_. 0)) (ct_step_rel (bool_sem_env False) 3) s"
    unfolding ct_step_rel_def by (rule run_reachable [OF r])
  from ct_collect_only_registered [OF this _ s(1)] r s show ?thesis by simp
qed

text \<open>
  C15: No assertion of the collector fails and no vector is accessed out of range, in every
  interleaving of the collector thread with clients that are constructed, registered, used and deregistered and with calls of
  \<^verbatim>\<open>Stop\<close>; the two vectors stay parallel and hold each registered client once. The only failure is
  the call of \<^verbatim>\<open>join\<close> through a null pointer in \<^verbatim>\<open>Stop(true)\<close>: without \<^verbatim>\<open>Stop(true)\<close> nothing fails.
\<close>

theorem ct_no_assertion_failure:
  assumes "reach (ct_start b d) (ct_step_rel E N) s"
  shows "(halted s = None \<or> halted s = Some (Bad_deref ''thrd'') \<and> e_join E) \<and> distinct (clients (mem s)) \<and>
    length (clientsID (mem s)) = length (clients (mem s))"
  using ct_reach_safe [OF assms] by (auto simp: ct_safe_def ct_inv_def tables_inv_def)

theorem ct_no_assertion_failure_witness:
  "\<exists>s. run fifo_wake 3 (ct_act (bool_sem_env False)) (\<lambda>_ _. 0) (ct_start False (\<lambda>_. 0)) ct_example = Some s \<and>
    halted s = None \<and> clients (mem s) = [2] \<and> length (clientsID (mem s)) = length (clients (mem s))"
proof -
  obtain s where r: "run fifo_wake 3 (ct_act (bool_sem_env False)) (\<lambda>_ _. 0) (ct_start False (\<lambda>_. 0)) ct_example = Some s"
    and s: "clients (mem s) = [2]"
    by (simp add: ct_eval)
  have "reach (ct_start False (\<lambda>_. 0)) (ct_step_rel (bool_sem_env False) 3) s"
    unfolding ct_step_rel_def by (rule run_reachable [OF r])
  from ct_no_assertion_failure [OF this] r s show ?thesis by (auto simp: bool_sem_env_def)
qed

text \<open>
  C39: \<^verbatim>\<open>Stop(true)\<close> races with the end of the thread: it tests \<^verbatim>\<open>thrd\<close> and reads it
  again to call \<^verbatim>\<open>join\<close>, while the ending thread sets it to null. Whatever the clients, their functions, the semaphore and the
  rest of the state: when \<^verbatim>\<open>Stop(true)\<close> is called while the collector thread is at the head of its loop, the outcome depends on
  when the thread ends. If before the test, \<^verbatim>\<open>Stop\<close> returns; if after the call, it joins the thread; and
  if in between, it calls \<^verbatim>\<open>join\<close> through the null pointer.
\<close>

theorem ct_stop_join_race:
  assumes "e_join E" and "1 < N" and "halted s = None" and "pcs s 0 = T_run RN_test" and "pcs s 1 = O_idle" and "thrd (mem s)" and "running (mem s)"
  shows "(\<exists>s'. run kw N (ct_act E) rd s [Call 1 0, Run 1, Run 1, Run 1, Run 0, Run 0, Run 1] = Some s' \<and> halted s' = Some (Bad_deref ''thrd'')) \<and>
    (\<exists>s'. run kw N (ct_act E) rd s [Call 1 0, Run 1, Run 1, Run 0, Run 0, Run 1] = Some s' \<and> halted s' = None \<and> pcs s' 1 = O_idle) \<and>
    (\<exists>s'. run kw N (ct_act E) rd s [Call 1 0, Run 1, Run 1, Run 1, Run 1, Run 1, Run 0, Run 0, Run 0, Run 1] = Some s' \<and>
      halted s' = None \<and> pcs s' 1 = O_idle \<and> \<not> running (mem s'))"
  using assms by (simp add: ct_points)

theorem ct_stop_join_race_witness:
  "\<exists>s s'. run fifo_wake 2 (ct_act (bool_sem_env True)) (\<lambda>_ _. 0) (ct_start False (\<lambda>_. 0)) [Run 1] = Some s \<and>
    run fifo_wake 2 (ct_act (bool_sem_env True)) (\<lambda>_ _. 0) s [Call 1 0, Run 1, Run 1, Run 1, Run 0, Run 0, Run 1] = Some s' \<and>
    halted s' = Some (Bad_deref ''thrd'')"
proof -
  obtain s where r: "run fifo_wake 2 (ct_act (bool_sem_env True)) (\<lambda>_ _. 0) (ct_start False (\<lambda>_. 0)) [Run 1] = Some s"
    and s: "halted s = None" "pcs s 0 = T_run RN_test" "pcs s 1 = O_idle" "thrd (mem s)" "running (mem s)"
    by (simp add: ct_eval)
  have "e_join (bool_sem_env True)" "1 < (2 :: nat)" by (simp_all add: bool_sem_env_def)
  from ct_stop_join_race [OF this s] r show ?thesis by blast
qed

text \<open>
  Deregistration is not undone by registration. \<^verbatim>\<open>DeregisterClient\<close>, called alone for a
  registered client, returns with the client out of both vectors and unregistered, but leaves its
  \<^verbatim>\<open>collector_thread\<close> set, so that registering the same object again fails an assertion.
\<close>

theorem ct_register_again_fails:
  assumes "c \<in> set (clients m)" and "cl_state m c = k_REGISTERED" and "cl_thread m c" and "\<not> data_lock m"
  shows "\<exists>m' ix. solo (DeregisterClient c) DR_cas m = Some (Ret ((), m')) \<and> clients m' = erase_at ix (clients m) \<and>
    clientsID m' = erase_at ix (clientsID m) \<and> clients m ! ix = c \<and> cl_state m' c = k_UNREGISTERED \<and>
    solo (RegisterClient c) RG_state m' = Some (Stop (Assert_failed ''client.collector_thread == NULL''))"
proof -
  obtain ix where ix: "find_client (clients m) c 0 = Some ix" using assms(1) find_client_None [of "clients m" c 0] by fastforce
  let ?m = "m\<lparr>clients := erase_at ix (clients m), clientsID := erase_at ix (clientsID m), data_lock := False,
    cl_state := (cl_state m)(c := k_UNREGISTERED)\<rparr>"
  have "solo (DeregisterClient c) DR_cas m = Some (Ret ((), ?m))"
    using assms ix
    by (simp add: solo_atom [of "DeregisterClient c", OF DeregisterClient.simps(1)] solo_atom [of "DeregisterClient c", OF DeregisterClient.simps(4)]
        solo_atom [of "DeregisterClient c", OF DeregisterClient.simps(5)] solo_atom [of "DeregisterClient c", OF DeregisterClient.simps(6)]
        solo_atom [of "DeregisterClient c", OF DeregisterClient.simps(7)]
        solo_atom [of "DeregisterClient c", OF DeregisterClient.simps(3) [unfolded lock_data_def]] atomics set_state_def)
  moreover have "solo (RegisterClient c) RG_state ?m = Some (Stop (Assert_failed ''client.collector_thread == NULL''))"
    using assms(3) by (simp add: solo_atom [of "RegisterClient c", OF RegisterClient.simps(1)] solo_atom [of "RegisterClient c", OF RegisterClient.simps(2)] check_def)
  ultimately show ?thesis using find_client_Some [OF ix] by (intro exI [of _ ?m] exI [of _ ix]) simp
qed

theorem ct_register_again_fails_witness:
  "\<exists>m' ix. solo (DeregisterClient 5) DR_cas ((CollectorThread_ctor () (\<lambda>_. ()))
      \<lparr>clients := [4, 5], clientsID := [1, 2], cl_state := (\<lambda>_. k_REGISTERED), cl_thread := (\<lambda>_. True)\<rparr>) = Some (Ret ((), m')) \<and>
    solo (RegisterClient 5) RG_state m' = Some (Stop (Assert_failed ''client.collector_thread == NULL''))"
  using ct_register_again_fails [of 5 "(CollectorThread_ctor () (\<lambda>_. ()))
      \<lparr>clients := [4, 5], clientsID := [1, 2], cl_state := (\<lambda>_. k_REGISTERED), cl_thread := (\<lambda>_. True)\<rparr>"]
  by (auto simp: CollectorThread_ctor_def)

section \<open>Signals\<close>

text \<open>What the collector relies on of \<^verbatim>\<open>BinarySemaphore\<close>: \<^verbatim>\<open>Wait\<close> does not block after \<^verbatim>\<open>Post\<close>.\<close>

definition documented_semaphore :: "('b \<Rightarrow> 'b) \<Rightarrow> ('b \<Rightarrow> 'b option) \<Rightarrow> bool" where
  "documented_semaphore sem_post sem_take \<longleftrightarrow> (\<forall>b. sem_take (sem_post b) \<noteq> None)"

lemma ct_sema_step:
  assumes "ct_act E p = Mem f" and "f m = (m', c)"
  shows "sema m' = sema m \<or> sema m' = e_post E (sema m) \<or> p = T_run RN_wait \<and> c = Ret (T_run RN_test)"
proof (cases p)
  case (T_run r)
  show ?thesis
  proof (cases r)
    case (RN_collect q)
    with assms T_run show ?thesis
      by (cases q) (auto simp: ct_points check_def split: if_splits option.splits prod.splits)
  qed (use assms T_run in \<open>auto simp: ct_points split: if_splits option.splits\<close>)
next
  case (K_register k r)
  with assms show ?thesis by (cases r) (auto simp: ct_points check_def split: if_splits)
next
  case (K_deregister k r)
  with assms show ?thesis by (cases r) (auto simp: ct_points check_def split: if_splits option.splits)
next
  case (O_stop r)
  with assms show ?thesis by (cases r) (auto simp: ct_points split: if_splits)
qed (use assms in \<open>auto simp: ct_points\<close>)

text \<open>The collector passes the head of its loop within the events.\<close>

fun passes_test :: "('b, 'd) ct_env \<Rightarrow> nat \<Rightarrow> (('b, 'd) ct, ct_pc) conf \<Rightarrow> event list \<Rightarrow> bool" where
  "passes_test E N s [] = False"
| "passes_test E N s (ev # evs) = (ev = Run 0 \<and> pcs s 0 = T_run RN_test \<or>
     (case exec fifo_wake N (ct_act E) (\<lambda>_ _. 0) s ev of None \<Rightarrow> False | Some s' \<Rightarrow> passes_test E N s' evs))"

definition woken :: "('b, 'd) ct_env \<Rightarrow> (('b, 'd) ct, ct_pc) conf \<Rightarrow> bool" where
  "woken E s \<longleftrightarrow> e_take E (sema (mem s)) \<noteq> None \<or> pcs s 0 = T_run RN_test"

lemma woken_step:
  assumes d: "documented_semaphore (e_post E) (e_take E)" and w: "woken E s"
    and e: "exec fifo_wake N (ct_act E) (\<lambda>_ _. 0) s ev = Some s'" and n: "\<not> (ev = Run 0 \<and> pcs s 0 = T_run RN_test)"
    and r: "\<forall>t<N. pcs s t = T_run RN_wait \<longrightarrow> t = 0"
  shows "woken E s'"
proof (cases ev)
  case (Run t)
  obtain f where f: "ct_act E (pcs s t) = Mem f" using e Run ct_no_futex by (auto split: if_splits action.splits)
  obtain m' c where m': "f (mem s) = (m', c)" by fastforce
  have s': "s' = goto t c (s\<lparr>mem := m'\<rparr>)" using e Run f m' by (auto split: if_splits)
  have keep: "t \<noteq> 0 \<or> pcs s 0 \<noteq> T_run RN_test" using n Run by auto
  from ct_sema_step [OF f m'] show ?thesis
  proof (elim disjE conjE)
    assume "sema m' = sema (mem s)"
    with w s' keep show ?thesis by (cases c) (auto simp: woken_def)
  next
    assume "sema m' = e_post E (sema (mem s))"
    with d s' show ?thesis by (auto simp: woken_def documented_semaphore_def)
  next
    assume "pcs s t = T_run RN_wait" "c = Ret (T_run RN_test)"
    moreover have "t < N" using e Run by (auto split: if_splits)
    ultimately show ?thesis using r s' by (auto simp: woken_def)
  qed
next
  case (Call t i)
  with e obtain ps where "ct_act E (pcs s t) = Client ps" "s' = goto t (Ret (ps ! i)) s" "i < length ps"
    by (auto split: if_splits action.splits)
  with w show ?thesis by (auto simp: woken_def calls_atom)
qed (use e in \<open>auto simp: ct_no_futex split: if_splits action.splits\<close>)

lemma wait_only_collector:
  assumes "ct_inv N m P" and "P t = T_run RN_wait" and "t < N"
  shows "t = 0"
proof (rule ccontr)
  assume "t \<noteq> 0"
  then consider "t = 1" | "2 \<le> t" by linarith
  then show False using assms by cases (auto simp: ct_inv_def client_inv_def)
qed

text \<open>
  C16: No signal is lost. If the semaphore has been posted, then whatever happens next, the
  collector does not sleep in \<^verbatim>\<open>Wait\<close> before it has been at the head of its loop again, where it
  starts a \<^verbatim>\<open>Collect\<close> unless it has been stopped: as long as it has not passed there, the semaphore
  is up or the collector is at that point.
\<close>

theorem ct_signal_not_lost:
  assumes "documented_semaphore (e_post E) (e_take E)" and "reach (ct_start b d) (ct_step_rel E N) s" and "woken E s"
    and "run fifo_wake N (ct_act E) (\<lambda>_ _. 0) s evs = Some s'" and "\<not> passes_test E N s evs"
  shows "woken E s'"
  using assms(2-5)
proof (induction evs arbitrary: s)
  case (Cons ev evs)
  from Cons.prems(3) obtain s1 where s1: "exec fifo_wake N (ct_act E) (\<lambda>_ _. 0) s ev = Some s1"
    and r1: "run fifo_wake N (ct_act E) (\<lambda>_ _. 0) s1 evs = Some s'" by (auto split: option.splits)
  have inv: "ct_inv N (mem s) (pcs s)" by (rule ct_reach_inv [OF Cons.prems(1)])
  have "woken E s1"
    by (rule woken_step [OF assms(1) Cons.prems(2) s1]) (use Cons.prems(4) wait_only_collector [OF inv] s1 in auto)
  moreover have "reach (ct_start b d) (ct_step_rel E N) s1"
    unfolding ct_step_rel_def
    by (rule reach_step [OF Cons.prems(1) [unfolded ct_step_rel_def]]) (use s1 in \<open>auto simp: mstep_def\<close>)
  ultimately show ?case using Cons.IH [OF _ _ r1] Cons.prems(4) s1 by auto
qed simp

definition ct_signalled :: "event list" where
  "ct_signalled = take 12 ct_example"

theorem ct_signal_not_lost_witness:
  "\<exists>s s'. run fifo_wake 3 (ct_act (bool_sem_env False)) (\<lambda>_ _. 0) (ct_start False (\<lambda>_. 0)) ct_signalled = Some s \<and>
    run fifo_wake 3 (ct_act (bool_sem_env False)) (\<lambda>_ _. 0) s [Call 2 1, Run 2, Run 2] = Some s' \<and> woken (bool_sem_env False) s'"
proof -
  let ?E = "bool_sem_env False"
  obtain s where r: "run fifo_wake 3 (ct_act ?E) (\<lambda>_ _. 0) (ct_start False (\<lambda>_. 0)) ct_signalled = Some s"
    and s: "woken ?E s" "\<not> passes_test ?E 3 s [Call 2 1, Run 2, Run 2]"
    and n: "\<exists>s'. run fifo_wake 3 (ct_act ?E) (\<lambda>_ _. 0) s [Call 2 1, Run 2, Run 2] = Some s'"
    by (simp add: ct_eval ct_signalled_def woken_def)
  then obtain s' where s': "run fifo_wake 3 (ct_act ?E) (\<lambda>_ _. 0) s [Call 2 1, Run 2, Run 2] = Some s'" by blast
  have "reach (ct_start False (\<lambda>_. 0)) (ct_step_rel ?E 3) s"
    unfolding ct_step_rel_def by (rule run_reachable [OF r])
  from ct_signal_not_lost [OF _ this s(1) s' s(2)] r s' show ?thesis
    by (auto simp: bool_sem_env_def documented_semaphore_def)
qed

end
