(* ===== verification/Collector_Collect.thy ===== *)
theory Collector_Collect
  imports Collector_Safety Hazard_Safety
begin

text \<open>
  \<^verbatim>\<open>CollectorThread::Collect\<close> (\<^verbatim>\<open>src/src/HazardPointer.cpp\<close>) as a whole, when no other thread
  interferes: which clients it visits, what it returns and what happens when the 32 bit client
  numbers wrap around; the interface that the collector requires of its clients as a locale,
  with \<^verbatim>\<open>HazardPointerList\<close> as its instance; and the destructor.
\<close>

section \<open>The scan\<close>

lemmas solo_ct_steps = solo_atom [of "Collect_ct h k" for h k, OF Collect_ct.simps(1) [unfolded lock_data_def]]
  solo_atom [of "Collect_ct h k" for h k, OF Collect_ct.simps(2)] solo_atom [of "Collect_ct h k" for h k, OF Collect_ct.simps(3)]
  solo_atom [of "Collect_ct h k" for h k, OF Collect_ct.simps(4)] solo_atom [of "Collect_ct h k" for h k, OF Collect_ct.simps(5)]
  solo_atom [of "Collect_ct h k" for h k, OF Collect_ct.simps(6)] solo_atom [of "Collect_ct h k" for h k, OF Collect_ct.simps(7)]

text \<open>Client numbers increase, but for those that are 0.\<close>

definition ids_ok :: "32 word list \<Rightarrow> bool" where
  "ids_ok ids \<longleftrightarrow> sorted_wrt (\<lambda>i j. i = 0 \<or> j = 0 \<or> i < j) ids"

text \<open>The clients from position \<open>j\<close> on whose number is not 0.\<close>

definition numbered :: "nat \<Rightarrow> ('b, 'd) ct \<Rightarrow> nat set" where
  "numbered j m = {clients m ! i |i. j \<le> i \<and> i < length (clients m) \<and> clientsID m ! i \<noteq> 0}"

definition scan_ready :: "('b, 'd) ct \<Rightarrow> bool" where
  "scan_ready m \<longleftrightarrow> distinct (clients m) \<and> length (clientsID m) = length (clients m) \<and> ids_ok (clientsID m) \<and>
     (\<forall>c\<in>set (clients m). cl_state m c = k_REGISTERED)"

definition collected :: "('d \<Rightarrow> bool) \<Rightarrow> ('d \<Rightarrow> bool \<times> 'd) \<Rightarrow> nat set \<Rightarrow> (nat \<Rightarrow> 'd) \<Rightarrow> nat \<Rightarrow> 'd" where
  "collected h k S D c = (if c \<in> S \<and> h (D c) then snd (k (D c)) else D c)"

definition left_over :: "('d \<Rightarrow> bool) \<Rightarrow> ('d \<Rightarrow> bool \<times> 'd) \<Rightarrow> nat set \<Rightarrow> (nat \<Rightarrow> 'd) \<Rightarrow> bool" where
  "left_over h k S D \<longleftrightarrow> (\<exists>c\<in>S. h (D c) \<and> \<not> fst (k (D c)))"

lemma solo_skip:
  assumes "\<forall>i<j. clientsID m ! i \<le> cur" and "j \<le> length (clientsID m)" and "i \<le> j"
  shows "solo (Collect_ct h k) (CC_for i cur pend) m = solo (Collect_ct h k) (CC_for j cur pend) m"
  using assms(3)
proof (induction "j - i" arbitrary: i)
  case (Suc n)
  then have "i < j" by simp
  then have "solo (Collect_ct h k) (CC_for i cur pend) m = solo (Collect_ct h k) (CC_for (i + 1) cur pend) m"
    using assms(1,2) by (subst solo_ct_steps(2)) simp
  also have "\<dots> = solo (Collect_ct h k) (CC_for j cur pend) m" using Suc.hyps(1) [of "i + 1"] Suc.hyps(2) \<open>i < j\<close> by simp
  finally show ?case .
qed simp

lemma numbered_step:
  assumes "j < length (clients m)"
  shows "numbered j m = (if clientsID m ! j = 0 then numbered (Suc j) m else insert (clients m ! j) (numbered (Suc j) m))"
proof -
  have "{i. j \<le> i \<and> i < length (clients m) \<and> clientsID m ! i \<noteq> 0} =
      {i. i = j \<and> clientsID m ! i \<noteq> 0} \<union> {i. Suc j \<le> i \<and> i < length (clients m) \<and> clientsID m ! i \<noteq> 0}"
    using assms by (auto simp: Suc_le_eq order_le_less)
  then show ?thesis unfolding numbered_def setcompr_eq_image by auto
qed

lemma numbered_fresh:
  assumes "distinct (clients m)" and "j < length (clients m)"
  shows "clients m ! j \<notin> numbered (Suc j) m"
  using assms by (auto simp: numbered_def nth_eq_iff_index_eq)

text \<open>One client is collected and the scan starts again behind it.\<close>

lemma solo_visit:
  assumes rdy: "scan_ready m" and l: "data_lock m" and j: "j < length (clients m)" and i: "clientsID m ! j \<noteq> 0"
    and h: "h (cl_data m (clients m ! j))"
  defines "c \<equiv> clients m ! j"
  shows "solo (Collect_ct h k) (CC_have j (clientsID m ! j) pend) m =
    solo (Collect_ct h k) (CC_for (Suc j) (clientsID m ! j) (pend \<or> \<not> fst (k (cl_data m c))))
      (m\<lparr>cl_data := (cl_data m)(c := snd (k (cl_data m c)))\<rparr>)"
proof -
  have st: "cl_state m c = k_REGISTERED" using rdy j by (simp add: scan_ready_def c_def)
  then have again: "(cl_state m)(c := k_REGISTERED) = cl_state m" by auto
  let ?m = "m\<lparr>cl_data := (cl_data m)(c := snd (k (cl_data m c)))\<rparr>"
  have lk: "m\<lparr>cl_data := d, data_lock := True\<rparr> = m\<lparr>cl_data := d\<rparr>" for d using l by (cases m) simp
  have "solo (Collect_ct h k) (CC_have j (clientsID m ! j) pend) m =
      solo (Collect_ct h k) (CC_for 0 (clientsID m ! j) (pend \<or> \<not> fst (k (cl_data m c)))) ?m"
    using j h l st again
    by (simp add: solo_ct_steps(1,3-7) atomics set_state_def c_def [symmetric] split_beta Let_def lk)
  also have "\<dots> = solo (Collect_ct h k) (CC_for (Suc j) (clientsID m ! j) (pend \<or> \<not> fst (k (cl_data m c)))) ?m"
  proof (rule solo_skip)
    have "\<forall>a b. a < b \<longrightarrow> b < length (clients m) \<longrightarrow>
        clientsID m ! a = 0 \<or> clientsID m ! b = 0 \<or> clientsID m ! a < clientsID m ! b"
      using rdy unfolding scan_ready_def ids_ok_def sorted_wrt_iff_nth_less by simp
    then have "clientsID m ! i' \<le> clientsID m ! j" if "i' \<le> j" for i'
      using that j i by (cases "i' = j") (simp, metis le_neq_implies_less less_imp_le word_zero_le)
    then show "\<forall>i'<Suc j. clientsID ?m ! i' \<le> clientsID m ! j" by (simp add: less_Suc_eq_le)
    show "Suc j \<le> length (clientsID ?m)" using j rdy by (simp add: scan_ready_def)
  qed simp
  finally show ?thesis .
qed

text \<open>From position \<open>j\<close> to the end, with the numbers up to \<open>cur\<close> done.\<close>

lemma solo_scan_rest:
  assumes "scan_ready m" and "data_lock m" and "j \<le> length (clients m)"
    and "\<forall>i. j \<le> i \<longrightarrow> i < length (clients m) \<longrightarrow> clientsID m ! i = 0 \<or> cur < clientsID m ! i"
  shows "solo (Collect_ct h k) (CC_for j cur pend) m = Some (Ret (pend \<or> left_over h k (numbered j m) (cl_data m),
    m\<lparr>data_lock := False, cl_data := collected h k (numbered j m) (cl_data m)\<rparr>))"
  using assms
proof (induction "length (clients m) - j" arbitrary: j cur pend m)
  case 0
  then have "numbered j m = {}" "length (clientsID m) = length (clients m)" by (auto simp: numbered_def scan_ready_def)
  with 0 show ?case by (simp add: solo_ct_steps(2,5) left_over_def collected_def [abs_def])
next
  case (Suc n)
  then have j: "j < length (clients m)" and len: "length (clientsID m) = length (clients m)" by (simp_all add: scan_ready_def)
  note IH = Suc.hyps(1) [of _ "Suc j"]
  note rest = Suc.prems(4)
  define c where "c = clients m ! j"
  show ?case
  proof (cases "clientsID m ! j = 0")
    case True
    then have "solo (Collect_ct h k) (CC_for j cur pend) m = solo (Collect_ct h k) (CC_for (Suc j) cur pend) m"
      using j len by (simp add: solo_ct_steps(2) [of h k j])
    with IH [of m cur pend] Suc j True show ?thesis by (simp add: numbered_step)
  next
    case False
    then have cur: "cur < clientsID m ! j" using rest j by auto
    then have start: "solo (Collect_ct h k) (CC_for j cur pend) m = solo (Collect_ct h k) (CC_have j (clientsID m ! j) pend) m"
      using j len cur [unfolded not_le [symmetric]] by (simp add: solo_ct_steps(2) [of h k j])
    have next_ids: "\<forall>i. Suc j \<le> i \<longrightarrow> i < length (clients m) \<longrightarrow> clientsID m ! i = 0 \<or> clientsID m ! j < clientsID m ! i"
      using Suc.prems(1) False len unfolding scan_ready_def ids_ok_def sorted_wrt_iff_nth_less by (auto simp: Suc_le_eq)
    have S: "numbered j m = insert c (numbered (Suc j) m)" "c \<notin> numbered (Suc j) m"
      using numbered_step [OF j] False numbered_fresh [OF _ j] Suc.prems(1) by (auto simp: c_def scan_ready_def)
    show ?thesis
    proof (cases "h (cl_data m c)")
      case True
      let ?m = "m\<lparr>cl_data := (cl_data m)(c := snd (k (cl_data m c)))\<rparr>"
      let ?S = "numbered (Suc j) m"
      have "solo (Collect_ct h k) (CC_have j (clientsID m ! j) pend) m =
          solo (Collect_ct h k) (CC_for (Suc j) (clientsID m ! j) (pend \<or> \<not> fst (k (cl_data m c)))) ?m"
        unfolding c_def by (rule solo_visit [OF Suc.prems(1,2) j False]) (use True in \<open>simp add: c_def\<close>)
      also have "\<dots> = Some (Ret ((pend \<or> \<not> fst (k (cl_data m c))) \<or> left_over h k ?S (cl_data ?m),
          ?m\<lparr>data_lock := False, cl_data := collected h k ?S (cl_data ?m)\<rparr>))"
        using IH [of ?m "clientsID m ! j"] Suc.hyps(2) Suc.prems(1,2) j next_ids by (simp add: scan_ready_def numbered_def)
      also have "collected h k ?S (cl_data ?m) = collected h k (numbered j m) (cl_data m)"
        using S True by (auto simp: collected_def fun_eq_iff)
      also have "((pend \<or> \<not> fst (k (cl_data m c))) \<or> left_over h k ?S (cl_data ?m)) =
          (pend \<or> left_over h k (numbered j m) (cl_data m))"
        using S True by (auto simp: left_over_def)
      finally show ?thesis unfolding start by simp
    next
      case False
      have "solo (Collect_ct h k) (CC_have j (clientsID m ! j) pend) m = solo (Collect_ct h k) (CC_for (Suc j) (clientsID m ! j) pend) m"
        using False j by (simp add: solo_ct_steps(3) c_def)
      moreover have "collected h k (numbered (Suc j) m) (cl_data m) = collected h k (numbered j m) (cl_data m)"
        "left_over h k (numbered (Suc j) m) (cl_data m) = left_over h k (numbered j m) (cl_data m)"
        using S False by (auto simp: collected_def left_over_def fun_eq_iff)
      ultimately show ?thesis
        using start IH [of m "clientsID m ! j" pend] Suc.hyps(2) Suc.prems(1,2) j next_ids by simp
    qed
  qed
qed

lemma solo_Collect_ct:
  assumes "scan_ready m" and "\<not> data_lock m"
  shows "solo (Collect_ct h k) (CC_lock 0 False) m = Some (Ret (left_over h k (numbered 0 m) (cl_data m),
    m\<lparr>cl_data := collected h k (numbered 0 m) (cl_data m)\<rparr>))"
proof -
  let ?m = "m\<lparr>data_lock := True\<rparr>"
  have "solo (Collect_ct h k) (CC_lock 0 False) m = solo (Collect_ct h k) (CC_for 0 0 False) ?m"
    using assms(2) by (simp add: solo_ct_steps(1))
  also have "\<dots> = Some (Ret (left_over h k (numbered 0 ?m) (cl_data ?m),
      ?m\<lparr>data_lock := False, cl_data := collected h k (numbered 0 ?m) (cl_data ?m)\<rparr>))"
    using solo_scan_rest [of ?m 0 0 h k False] assms(1) by (simp add: scan_ready_def word_gt_0)
  finally show ?thesis using assms(2) by (cases m) (simp add: numbered_def)
qed

section \<open>The interface of a client\<close>

text \<open>
  What \<^verbatim>\<open>CollectorClientInterface\<close> promises: \<^verbatim>\<open>Collect\<close> keeps the client's data well-formed
  and, called when there is something to delete, returns whether nothing is left.
\<close>

locale collector_client =
  fixes have_dels :: "'d \<Rightarrow> bool" and collect :: "'d \<Rightarrow> bool \<times> 'd" and wf :: "'d \<Rightarrow> bool"
  assumes collect_wf: "wf d \<Longrightarrow> wf (snd (collect d))"
    and collect_result: "wf d \<Longrightarrow> have_dels d \<Longrightarrow> fst (collect d) \<longleftrightarrow> \<not> have_dels (snd (collect d))"
begin

lemma collected_wf: "wf (D c) \<Longrightarrow> wf (collected have_dels collect S D c)"
  by (simp add: collected_def collect_wf)

lemma reports_left_over:
  assumes "\<forall>c\<in>S. wf (D c)"
  shows "left_over have_dels collect S D \<longleftrightarrow> (\<exists>c\<in>S. have_dels (collected have_dels collect S D c))"
  using assms collect_result by (auto simp: left_over_def collected_def)

end

definition hp_collect :: "hp_list \<Rightarrow> bool \<times> hp_list" where
  "hp_collect s = (case solo (Collect_hp 0) CO_test s of Some (Ret rs) \<Rightarrow> rs | _ \<Rightarrow> (False, s))"

definition hp_ok :: "hp_list \<Rightarrow> bool" where
  "hp_ok s \<longleftrightarrow> (\<exists>ns gs fs. hp_rep ns gs fs s)"

lemma HaveDeletes_iff: "hp_rep ns gs fs s \<Longrightarrow> HaveDeletes s \<longleftrightarrow> gs \<noteq> []"
  by (cases gs) (auto simp: HaveDeletes_def hp_rep_def hp_lists_def)

lemma hp_collect_rep:
  assumes "hp_rep ns gs fs s"
  shows "hp_rep ns (kept ns gs s) (rev (dead ns gs s) @ fs) (snd (hp_collect s))"
    and "fst (hp_collect s) \<longleftrightarrow> gs \<noteq> [] \<and> kept ns gs s = []"
    and "deleted (snd (hp_collect s)) = deleted s @ map (gcp (heap s)) (dead ns gs s)"
proof -
  obtain s' where "solo (Collect_hp 0) CO_test s = Some (Ret (gs \<noteq> [] \<and> kept ns gs s = [], s'))"
    "hp_rep ns (kept ns gs s) (rev (dead ns gs s) @ fs) s'" "deleted s' = deleted s @ map (gcp (heap s)) (dead ns gs s)"
    using solo_Collect [OF assms] by blast
  then show "hp_rep ns (kept ns gs s) (rev (dead ns gs s) @ fs) (snd (hp_collect s))"
    "fst (hp_collect s) \<longleftrightarrow> gs \<noteq> [] \<and> kept ns gs s = []"
    "deleted (snd (hp_collect s)) = deleted s @ map (gcp (heap s)) (dead ns gs s)"
    by (simp_all add: hp_collect_def)
qed

interpretation lists: collector_client HaveDeletes hp_collect hp_ok
proof unfold_locales
  fix s
  assume "hp_ok s"
  then obtain ns gs fs where rep: "hp_rep ns gs fs s" by (auto simp: hp_ok_def)
  show "hp_ok (snd (hp_collect s))" using hp_collect_rep(1) [OF rep] by (auto simp: hp_ok_def)
  assume "HaveDeletes s"
  then show "fst (hp_collect s) \<longleftrightarrow> \<not> HaveDeletes (snd (hp_collect s))"
    using hp_collect_rep(2) [OF rep] HaveDeletes_iff [OF rep] HaveDeletes_iff [OF hp_collect_rep(1) [OF rep]] by simp
qed

section \<open>Registration\<close>

text \<open>The tables between two calls: as the scan needs them, and no number above \<^verbatim>\<open>id_value\<close>.\<close>

definition table_ok :: "('b, 'd) ct \<Rightarrow> bool" where
  "table_ok m \<longleftrightarrow> scan_ready m \<and> \<not> data_lock m \<and> (\<forall>i\<in>set (clientsID m). i \<le> id_value m)"

definition registered :: "nat \<Rightarrow> ('b, 'd) ct \<Rightarrow> ('b, 'd) ct" where
  "registered c m = m\<lparr>clients := clients m @ [c], id_value := id_value m + 1, clientsID := clientsID m @ [id_value m + 1],
     cl_state := (cl_state m)(c := k_REGISTERED), cl_thread := (cl_thread m)(c := True)\<rparr>"

lemma solo_RegisterClient:
  assumes "cl_state m c = k_UNREGISTERED" and "\<not> cl_thread m c" and "\<not> data_lock m"
  shows "solo (RegisterClient c) RG_state m = Some (Ret ((), registered c m))"
proof -
  have "m\<lparr>data_lock := True, clients := a, id_value := b, clientsID := d, cl_state := e, cl_thread := f, data_lock := False\<rparr> =
      m\<lparr>clients := a, id_value := b, clientsID := d, cl_state := e, cl_thread := f\<rparr>" for a b d e f
    using assms(3) by (cases m) simp
  with assms show ?thesis
    by (simp add: solo_atom [of "RegisterClient c", OF RegisterClient.simps(1)] solo_atom [of "RegisterClient c", OF RegisterClient.simps(2)]
        solo_atom [of "RegisterClient c", OF RegisterClient.simps(3) [unfolded lock_data_def]]
        solo_atom [of "RegisterClient c", OF RegisterClient.simps(4)] solo_atom [of "RegisterClient c", OF RegisterClient.simps(5)]
        solo_atom [of "RegisterClient c", OF RegisterClient.simps(6)] solo_atom [of "RegisterClient c", OF RegisterClient.simps(7)]
        check_def Let_def set_state_def registered_def)
qed

lemma scan_ready_registered:
  assumes "scan_ready m" and "c \<notin> set (clients m)" and "\<forall>i\<in>set (clientsID m). i = 0 \<or> id_value m + 1 = 0 \<or> i < id_value m + 1"
  shows "scan_ready (registered c m)"
  using assms by (auto simp: scan_ready_def registered_def ids_ok_def sorted_wrt_append)

lemma numbered_registered:
  assumes "length (clientsID m) = length (clients m)"
  shows "numbered 0 (registered c m) = (if id_value m + 1 = 0 then numbered 0 m else insert c (numbered 0 m))"
proof -
  have "{i. i < length (clients m @ [c]) \<and> (clientsID m @ [id_value m + 1]) ! i \<noteq> 0} =
      {i. i < length (clients m) \<and> clientsID m ! i \<noteq> 0} \<union> {i. i = length (clients m) \<and> id_value m + 1 \<noteq> 0}"
    using assms by (auto simp: nth_append)
  then have "numbered 0 (registered c m) = (\<lambda>i. (clients m @ [c]) ! i) `
      ({i. i < length (clients m) \<and> clientsID m ! i \<noteq> 0} \<union> {i. i = length (clients m) \<and> id_value m + 1 \<noteq> 0})"
    by (simp add: numbered_def registered_def setcompr_eq_image)
  also have "\<dots> = (\<lambda>i. clients m ! i) ` {i. i < length (clients m) \<and> clientsID m ! i \<noteq> 0} \<union>
      (if id_value m + 1 = 0 then {} else {c})"
    by (auto simp: image_Un nth_append image_iff)
  finally show ?thesis by (auto simp: numbered_def setcompr_eq_image)
qed

lemma numbered_subset: "numbered j m \<subseteq> set (clients m)"
  by (auto simp: numbered_def)

lemma numbered_all:
  assumes "0 \<notin> set (clientsID m)" and "length (clientsID m) = length (clients m)"
  shows "numbered 0 m = set (clients m)"
proof -
  have "clientsID m ! i \<noteq> 0" if "i < length (clients m)" for i using assms that nth_mem by metis
  then show ?thesis unfolding numbered_def set_conv_nth by blast
qed

section \<open>Properties\<close>

text \<open>
  C14: One pass of the collector over hazard pointer lists, undisturbed: it terminates; every
  registered list has deleted exactly its retired objects that it does not protect; nothing
  else changes; and the pass reports pending work exactly if some list still has something to delete.
\<close>

theorem collector_pass:
  assumes "table_ok m" and "0 \<notin> set (clientsID m)" and "\<forall>c\<in>set (clients m). hp_ok (cl_data m c)"
  shows "\<exists>pending D. solo (Collect_ct HaveDeletes hp_collect) (CC_lock 0 False) m = Some (Ret (pending, m\<lparr>cl_data := D\<rparr>)) \<and>
    (pending \<longleftrightarrow> (\<exists>c\<in>set (clients m). HaveDeletes (D c))) \<and> (\<forall>c. c \<notin> set (clients m) \<longrightarrow> D c = cl_data m c) \<and>
    (\<forall>c\<in>set (clients m). \<forall>ns gs fs. hp_rep ns gs fs (cl_data m c) \<longrightarrow>
      hp_rep ns (kept ns gs (cl_data m c)) (rev (dead ns gs (cl_data m c)) @ fs) (D c) \<and>
      deleted (D c) = deleted (cl_data m c) @ map (gcp (heap (cl_data m c))) (dead ns gs (cl_data m c)))"
proof -
  have r: "scan_ready m" "\<not> data_lock m" using assms(1) by (auto simp: table_ok_def)
  have all: "numbered 0 m = set (clients m)" by (rule numbered_all) (use assms(2) r(1) in \<open>auto simp: scan_ready_def\<close>)
  let ?D = "collected HaveDeletes hp_collect (set (clients m)) (cl_data m)"
  have "hp_rep ns (kept ns gs (cl_data m c)) (rev (dead ns gs (cl_data m c)) @ fs) (?D c) \<and>
      deleted (?D c) = deleted (cl_data m c) @ map (gcp (heap (cl_data m c))) (dead ns gs (cl_data m c))"
    if "c \<in> set (clients m)" and rep: "hp_rep ns gs fs (cl_data m c)" for c ns gs fs
  proof (cases "HaveDeletes (cl_data m c)")
    case True
    with that(1) hp_collect_rep [OF rep] show ?thesis by (simp add: collected_def)
  next
    case False
    with HaveDeletes_iff [OF rep] rep show ?thesis by (simp add: collected_def kept_def dead_def)
  qed
  moreover have "solo (Collect_ct HaveDeletes hp_collect) (CC_lock 0 False) m =
      Some (Ret (left_over HaveDeletes hp_collect (set (clients m)) (cl_data m), m\<lparr>cl_data := ?D\<rparr>))"
    using solo_Collect_ct [OF r] unfolding all .
  ultimately show ?thesis
    using lists.reports_left_over [OF assms(3)]
    by (intro exI [of _ "left_over HaveDeletes hp_collect (set (clients m)) (cl_data m)"] exI [of _ ?D])
      (auto simp: collected_def)
qed

definition one_list :: "(unit, hp_list) ct" where
  "one_list = \<lparr>clients = [7], clientsID = [3], data_lock = False, id_value = 5, active = True, thrd = True, running = True,
     sema = (), cl_state = (\<lambda>_. k_REGISTERED), cl_thread = (\<lambda>_. True), cl_data = (\<lambda>_. two_retired)\<rparr>"

lemma one_list_ok: "table_ok one_list" "0 \<notin> set (clientsID one_list)" "\<forall>c\<in>set (clients one_list). hp_ok (cl_data one_list c)"
  using two_retired_rep by (auto simp: table_ok_def scan_ready_def ids_ok_def one_list_def hp_ok_def)

theorem collector_pass_witness:
  "\<exists>D. solo (Collect_ct HaveDeletes hp_collect) (CC_lock 0 False) one_list = Some (Ret (True, one_list\<lparr>cl_data := D\<rparr>)) \<and>
    deleted (D 7) = [88] \<and> D 8 = two_retired"
proof -
  have k: "kept [4, 3, 2] [4, 3] two_retired = [3]" "dead [4, 3, 2] [4, 3] two_retired = [4]"
    "gcp (heap two_retired) 4 = 88" "deleted two_retired = []"
    by (simp_all add: kept_def dead_def hazards_def two_retired_def ptr_def gcp_def)
  obtain pending D where r: "solo (Collect_ct HaveDeletes hp_collect) (CC_lock 0 False) one_list = Some (Ret (pending, one_list\<lparr>cl_data := D\<rparr>))"
    and p: "pending \<longleftrightarrow> (\<exists>c\<in>set (clients one_list). HaveDeletes (D c))" "\<forall>c. c \<notin> set (clients one_list) \<longrightarrow> D c = cl_data one_list c"
    and d: "\<forall>c\<in>set (clients one_list). \<forall>ns gs fs. hp_rep ns gs fs (cl_data one_list c) \<longrightarrow>
      hp_rep ns (kept ns gs (cl_data one_list c)) (rev (dead ns gs (cl_data one_list c)) @ fs) (D c) \<and>
      deleted (D c) = deleted (cl_data one_list c) @ map (gcp (heap (cl_data one_list c))) (dead ns gs (cl_data one_list c))"
    using collector_pass [OF one_list_ok] by blast
  have "hp_rep [4, 3, 2] [3] [4] (D 7) \<and> deleted (D 7) = [88]"
    using d [rule_format, of 7 "[4, 3, 2]" "[4, 3]" "[]"] two_retired_rep k by (simp add: one_list_def)
  with p r HaveDeletes_iff show ?thesis by (auto simp: one_list_def)
qed

text \<open>
  C28: Registration, called alone for a new client, returns with the client at the end of the
  vectors under a number greater than all others, as long as the 32 bit counter has not wrapped; so
  the next pass of the collector visits it.
\<close>

theorem ct_register:
  assumes "table_ok m" and "c \<notin> set (clients m)" and "cl_state m c = k_UNREGISTERED" and "\<not> cl_thread m c"
    and "id_value m \<noteq> - 1"
  shows "\<exists>m'. solo (RegisterClient c) RG_state m = Some (Ret ((), m')) \<and> table_ok m' \<and> clients m' = clients m @ [c] \<and>
    numbered 0 m' = insert c (numbered 0 m) \<and> cl_state m' c = k_REGISTERED \<and> cl_thread m' c"
proof -
  have r: "scan_ready m" "\<not> data_lock m" and b: "\<forall>i\<in>set (clientsID m). i \<le> id_value m"
    using assms(1) by (auto simp: table_ok_def)
  have nz: "id_value m + 1 \<noteq> 0" using assms(5) by (simp add: eq_neg_iff_add_eq_0)
  then have nw: "id_value m < id_value m + 1" "id_value m + 1 \<noteq> 0"
    using unatSuc [of "id_value m"] by (simp_all add: word_less_nat_alt add.commute)
  have "scan_ready (registered c m)"
    by (rule scan_ready_registered [OF r(1) assms(2)]) (use b nw(1) in \<open>auto intro: le_less_trans\<close>)
  moreover have "\<forall>i\<in>set (clientsID (registered c m)). i \<le> id_value (registered c m)"
    using b nw(1) by (auto simp: registered_def intro: less_imp_le le_less_trans)
  ultimately have "table_ok (registered c m)" using r(2) by (simp add: table_ok_def registered_def)
  moreover have "numbered 0 (registered c m) = insert c (numbered 0 m)"
    using numbered_registered [of m c] nw(2) r(1) by (simp add: scan_ready_def)
  ultimately show ?thesis
    using solo_RegisterClient [OF assms(3,4) r(2)] by (intro exI [of _ "registered c m"]) (simp add: registered_def)
qed

theorem ct_register_witness:
  "\<exists>m'. solo (RegisterClient 8) RG_state (one_list\<lparr>cl_state := (\<lambda>_. k_REGISTERED)(8 := k_UNREGISTERED), cl_thread := (\<lambda>_. False)\<rparr>) =
      Some (Ret ((), m')) \<and> table_ok m' \<and> clients m' = [7, 8] \<and> numbered 0 m' = {7, 8}"
proof -
  let ?m = "one_list\<lparr>cl_state := (\<lambda>_. k_REGISTERED)(8 := k_UNREGISTERED), cl_thread := (\<lambda>_. False)\<rparr>"
  have "table_ok ?m" "8 \<notin> set (clients ?m)" "cl_state ?m 8 = k_UNREGISTERED" "\<not> cl_thread ?m 8" "id_value ?m \<noteq> - 1"
    by (auto simp: table_ok_def scan_ready_def ids_ok_def one_list_def)
  from ct_register [OF this] show ?thesis
    using numbered_all [of ?m] by (auto simp: one_list_def)
qed

text \<open>
  The client number wraps around. The client registered when the 32 bit counter is at its
  maximum gets the number 0, and a pass of the collector that follows undisturbed does not select it: its garbage is not collected,
  and not reported as pending, whatever the client's functions return.
\<close>

theorem ct_pass_skips_zero:
  assumes "scan_ready m" and "\<not> data_lock m" and "c \<notin> set (clients m)" and "cl_state m c = k_UNREGISTERED"
    and "\<not> cl_thread m c" and "id_value m = - 1"
  shows "\<exists>m' m'' pending. solo (RegisterClient c) RG_state m = Some (Ret ((), m')) \<and> clients m' = clients m @ [c] \<and>
    clientsID m' = clientsID m @ [0] \<and> solo (Collect_ct h k) (CC_lock 0 False) m' = Some (Ret (pending, m'')) \<and>
    cl_data m'' c = cl_data m c \<and> (pending \<longleftrightarrow> left_over h k (numbered 0 m) (cl_data m))"
proof -
  let ?m = "registered c m"
  have "scan_ready ?m" by (rule scan_ready_registered [OF assms(1,3)]) (simp add: assms(6))
  moreover have "\<not> data_lock ?m" using assms(2) by (simp add: registered_def)
  moreover have n: "numbered 0 ?m = numbered 0 m"
    using numbered_registered [of m c] assms(1,6) by (simp add: scan_ready_def)
  ultimately have "solo (Collect_ct h k) (CC_lock 0 False) ?m = Some (Ret (left_over h k (numbered 0 m) (cl_data ?m),
      ?m\<lparr>cl_data := collected h k (numbered 0 m) (cl_data ?m)\<rparr>))"
    using solo_Collect_ct [of ?m h k] by simp
  moreover have "c \<notin> numbered 0 m" using numbered_subset assms(3) by blast
  ultimately show ?thesis
    using solo_RegisterClient [OF assms(4,5,2)] assms(6)
    by (intro exI [of _ ?m] exI [of _ "?m\<lparr>cl_data := collected h k (numbered 0 m) (cl_data ?m)\<rparr>"]
        exI [of _ "left_over h k (numbered 0 m) (cl_data ?m)"]) (auto simp: registered_def collected_def)
qed

theorem ct_pass_skips_zero_witness:
  "\<exists>m' m'' pending. solo (RegisterClient 8) RG_state (one_list\<lparr>cl_state := (\<lambda>_. k_REGISTERED)(8 := k_UNREGISTERED),
      cl_thread := (\<lambda>_. False), id_value := - 1\<rparr>) = Some (Ret ((), m')) \<and> clientsID m' = [3, 0] \<and>
    solo (Collect_ct HaveDeletes hp_collect) (CC_lock 0 False) m' = Some (Ret (pending, m'')) \<and> cl_data m'' 8 = two_retired"
proof -
  let ?m = "one_list\<lparr>cl_state := (\<lambda>_. k_REGISTERED)(8 := k_UNREGISTERED), cl_thread := (\<lambda>_. False), id_value := - 1\<rparr>"
  have "scan_ready ?m" "\<not> data_lock ?m" "8 \<notin> set (clients ?m)" "cl_state ?m 8 = k_UNREGISTERED" "\<not> cl_thread ?m 8" "id_value ?m = - 1"
    by (auto simp: scan_ready_def ids_ok_def one_list_def)
  from ct_pass_skips_zero [OF this, of HaveDeletes hp_collect] show ?thesis by (auto simp: one_list_def)
qed

section \<open>The destructor\<close>

lemma solo_dtor_for:
  assumes "distinct (clients m)" and "\<forall>i. j \<le> i \<longrightarrow> i < length (clients m) \<longrightarrow> cl_thread m (clients m ! i)" and "j \<le> length (clients m)"
  shows "solo (CollectorThread_dtor po) (DC_for j) m =
    Some (Ret ((), m\<lparr>clients := [], clientsID := [], data_lock := False,
      cl_thread := (\<lambda>c. if c \<in> set (drop j (clients m)) then False else cl_thread m c)\<rparr>))"
  using assms
proof (induction "length (clients m) - j" arbitrary: j m)
  case 0
  then show ?case
    by (simp add: solo_atom [of "CollectorThread_dtor po", OF CollectorThread_dtor.simps(3)]
        solo_atom [of "CollectorThread_dtor po", OF CollectorThread_dtor.simps(4)])
next
  case (Suc n)
  then have j: "j < length (clients m)" by simp
  let ?m = "m\<lparr>cl_thread := (cl_thread m)(clients m ! j := False)\<rparr>"
  have d: "drop j (clients m) = clients m ! j # drop (Suc j) (clients m)" using j by (rule Cons_nth_drop_Suc [symmetric])
  have "solo (CollectorThread_dtor po) (DC_for j) m = solo (CollectorThread_dtor po) (DC_for (Suc j)) ?m"
    using j Suc.prems(2) by (simp add: solo_atom [of "CollectorThread_dtor po", OF CollectorThread_dtor.simps(3), of j] check_def)
  also have "\<dots> = Some (Ret ((), ?m\<lparr>clients := [], clientsID := [], data_lock := False,
      cl_thread := (\<lambda>c. if c \<in> set (drop (Suc j) (clients ?m)) then False else cl_thread ?m c)\<rparr>))"
    by (rule Suc.hyps(1)) (use Suc.hyps(2) Suc.prems j in \<open>auto simp: nth_eq_iff_index_eq\<close>)
  also have "(\<lambda>c. if c \<in> set (drop (Suc j) (clients ?m)) then False else cl_thread ?m c) =
      (\<lambda>c. if c \<in> set (drop j (clients m)) then False else cl_thread m c)"
    unfolding d by (auto simp: fun_eq_iff)
  finally show ?case by simp
qed

text \<open>
  C30: The destructor, when the thread has ended: it returns with the vectors empty and
  \<^verbatim>\<open>collector_thread\<close> of every registered client reset, but leaves the state of these clients as
  it was, so that none of them can be registered with another collector: that fails an assertion.
\<close>

theorem ct_destructor:
  assumes "distinct (clients m)" and "\<forall>c\<in>set (clients m). cl_thread m c \<and> cl_state m c = k_REGISTERED"
    and "\<not> data_lock m" and "\<not> thrd m"
  shows "\<exists>m'. solo (CollectorThread_dtor po) (DC_stop SP_active) m = Some (Ret ((), m')) \<and> clients m' = [] \<and> clientsID m' = [] \<and>
    \<not> active m' \<and> (\<forall>c\<in>set (clients m). \<not> cl_thread m' c \<and>
      solo (RegisterClient c) RG_state m' = Some (Stop (Assert_failed ''false'')))"
proof -
  let ?m1 = "m\<lparr>active := False, sema := po (sema m)\<rparr>"
  have "solo (Stop_ct po True) SP_active m = Some (Ret ((), ?m1))"
    using assms(4) by (simp add: solo_atom [of "Stop_ct po True", OF Stop_ct.simps(1)] solo_atom [of "Stop_ct po True", OF Stop_ct.simps(2)]
        solo_atom [of "Stop_ct po True", OF Stop_ct.simps(3)] Signal_def)
  then have "solo (CollectorThread_dtor po) (DC_stop SP_active) m = solo (CollectorThread_dtor po) DC_lock ?m1"
    using solo_via [of "CollectorThread_dtor po" DC_stop, OF CollectorThread_dtor.simps(1)] by simp
  also have "\<dots> = solo (CollectorThread_dtor po) (DC_for 0) (?m1\<lparr>data_lock := True\<rparr>)"
    using assms(3) by (simp add: solo_atom [of "CollectorThread_dtor po", OF CollectorThread_dtor.simps(2) [unfolded lock_data_def]])
  also have "\<dots> = Some (Ret ((), ?m1\<lparr>data_lock := True, clients := [], clientsID := [], data_lock := False,
      cl_thread := (\<lambda>c. if c \<in> set (clients m) then False else cl_thread m c)\<rparr>))"
    using solo_dtor_for [of "?m1\<lparr>data_lock := True\<rparr>" 0 po] assms(1,2) by simp
  finally show ?thesis
    using assms(2) by (auto simp: solo_atom [of "RegisterClient c" for c, OF RegisterClient.simps(1)] check_def client_states)
qed

theorem ct_destructor_witness:
  "\<exists>m'. solo (CollectorThread_dtor id) (DC_stop SP_active) (one_list\<lparr>thrd := False\<rparr>) = Some (Ret ((), m')) \<and> clients m' = [] \<and>
    solo (RegisterClient 7) RG_state m' = Some (Stop (Assert_failed ''false''))"
  using ct_destructor [of "one_list\<lparr>thrd := False\<rparr>" id] by (auto simp: one_list_def)

end
