(* ===== verification/Hazard_System.thy ===== *)
theory Hazard_System
  imports Collector_Collect Hazard_Complete
begin

text \<open>
  The collector thread together with the hazard pointer lists it serves
  (\<^verbatim>\<open>src/src/HazardPointer.hpp\<close>, \<^verbatim>\<open>src/src/HazardPointer.cpp\<close>), every access of either
  side being a step: the call of \<^verbatim>\<open>Collect\<close> of a list by the collector thread, which theory
  \<open>Collector\<close> takes as one step, is the code of \<open>Collect_hp\<close> here; both constructors of
  \<^verbatim>\<open>HazardPointerList\<close> and its destructor are complete, with the calls of \<^verbatim>\<open>RegisterClient\<close> and
  \<^verbatim>\<open>DeregisterClient\<close>; and \<^verbatim>\<open>Signal\<close> of a list posts the semaphore of the collector.
  The invariant of theory \<open>Collector_Safety\<close> is carried over to this machine, and the destructor of a list is shown
  to run without interference of the collector thread.
\<close>

section \<open>The machine\<close>

text \<open>
  Thread 0 is the collector thread, thread 1 may stop it, and thread \<open>c\<close> constructs list \<open>c\<close>, with or
  without the collector, uses it and destroys it, again and again. The points of theory \<open>Collector\<close> are under
  \<open>S_ct\<close>. A list in use and its destructor remember whether it was registered.
\<close>

datatype sys_pc =
    S_ct ct_pc
  | S_collect nat "32 word" bool collect_pc
  | S_ctor nat
  | S_op nat bool hz_pc
  | S_dtor_test nat bool
  | S_dtor nat dtor_pc

text \<open>
  The environment: the semaphore as in theory \<open>Collector\<close>, the calls that the threads make on their lists, the address of the
  end node and the cells that hold the pointers to the objects of each list.
\<close>

record 'b sys_env =
  s_post :: "'b \<Rightarrow> 'b"
  s_take :: "'b \<Rightarrow> 'b option"
  s_join :: bool
  s_ops :: "hz_op list"
  s_end :: "nat \<Rightarrow> addr"
  s_cells :: "nat \<Rightarrow> addr \<rightharpoonup> addr"

definition ct_of :: "'b sys_env \<Rightarrow> ('b, hp_list) ct_env" where
  "ct_of S = \<lparr>e_post = s_post S, e_take = s_take S, e_have = HaveDeletes, e_collect = (\<lambda>d. (True, d)), e_retire = id, e_join = s_join S\<rparr>"

text \<open>Code of list \<open>c\<close>. A call of \<^verbatim>\<open>Signal\<close> is a \<^verbatim>\<open>Post\<close> of the collector's semaphore.\<close>

definition upd_list :: "('b \<Rightarrow> 'b) \<Rightarrow> nat \<Rightarrow> hp_list \<Rightarrow> ('b, hp_list) ct \<Rightarrow> ('b, hp_list) ct" where
  "upd_list post c d m = m\<lparr>cl_data := (cl_data m)(c := d), sema := (post ^^ (signals d - signals (cl_data m c))) (sema m)\<rparr>"

definition of_list :: "('b \<Rightarrow> 'b) \<Rightarrow> nat \<Rightarrow> ('n \<Rightarrow> sys_pc) \<Rightarrow> (hp_list, 'n, unit) action \<Rightarrow> (('b, hp_list) ct, sys_pc, unit) action" where
  "of_list post c = embed (\<lambda>m. cl_data m c) (upd_list post c) id"

text \<open>
  The members of a new list; \<^verbatim>\<open>collector_thread\<close> of the collector's view is set by \<^verbatim>\<open>RegisterClient\<close>, the
  list's functions run after that.
\<close>

definition new_list :: "'b sys_env \<Rightarrow> nat \<Rightarrow> bool \<Rightarrow> ('b, hp_list) ct \<Rightarrow> ('b, hp_list) ct" where
  "new_list S c reg m = (client_ctor c m)\<lparr>cl_data := (cl_data m)(c := (HazardPointerList_ctor (s_end S c) (s_cells S c))\<lparr>collector_thread := reg\<rparr>)\<rparr>"

text \<open>The first statement of the destructor.\<close>

definition list_dtor_start :: "nat \<Rightarrow> ('b, hp_list) ct \<Rightarrow> sys_pc" where
  "list_dtor_start c m = (if cl_thread m c then S_ct (K_deregister c DR_cas) else S_dtor c DT_deregister)"

fun sys_act :: "'b sys_env \<Rightarrow> sys_pc \<Rightarrow> (('b, hp_list) ct, sys_pc, unit) action" where
  "sys_act S (S_ct (K_none c)) = Client [S_ct (K_ctor c), S_ctor c]"
| "sys_act S (S_ct (K_ctor c)) = Mem (\<lambda>m. (new_list S c True m, Ret (S_ct (K_register c RG_state))))"
| "sys_act S (S_ctor c) = Mem (\<lambda>m. (new_list S c False m, Ret (S_op c False (H_idle []))))"
| "sys_act S (S_ct (K_register c p)) = calls (\<lambda>q. S_ct (K_register c q)) (\<lambda>_. S_op c True (H_idle [])) (RegisterClient c p)"
| "sys_act S (S_op c reg (H_idle hs)) = Client (map (\<lambda>op. S_op c reg (H_in hs (hz_enter op))) (s_ops S) @ [S_dtor_test c reg])"
| "sys_act S (S_op c reg (H_in hs x)) = of_list (s_post S) c (S_op c reg) (hz_point_act hs x)"
| "sys_act S (S_dtor_test c reg) = Mem (\<lambda>m. (m, Ret (list_dtor_start c m)))"
| "sys_act S (S_ct (K_deregister c p)) = calls (\<lambda>q. S_ct (K_deregister c q)) (\<lambda>_. S_dtor c DT_deregister) (DeregisterClient c p)"
| "sys_act S (S_dtor c p) = of_list (s_post S) c (\<lambda>n. case n of Goto q \<Rightarrow> S_dtor c q | Done _ \<Rightarrow> S_ct (K_none c)) (HazardPointerList_dtor c p)"
| "sys_act S (S_ct (T_run (RN_collect (CC_client c cur pend)))) = Mem (\<lambda>m. (m, Ret (S_collect c cur pend CO_test)))"
| "sys_act S (S_collect c cur pend p) = of_list (s_post S) c
     (\<lambda>n. case n of Goto q \<Rightarrow> S_collect c cur pend q | Done r \<Rightarrow> S_ct (T_run (RN_collect (CC_back c cur (if \<not> r then True else pend)))))
     (Collect_hp 0 p)"
| "sys_act S (S_ct p) = embed id (\<lambda>s _. s) id S_ct (ct_act (ct_of S) p)"

definition sys_start :: "'b \<Rightarrow> (nat \<Rightarrow> hp_list) \<Rightarrow> (('b, hp_list) ct, sys_pc) conf" where
  "sys_start b d = (start (CollectorThread_ctor b d) (S_ct O_idle))\<lparr>pcs :=
     (\<lambda>t. if t = 0 then S_ct (T_run RN_test) else if t = 1 then S_ct O_new else S_ct (K_none t))\<rparr>"

definition sys_step :: "'b sys_env \<Rightarrow> nat \<Rightarrow> (('b, hp_list) ct, sys_pc) conf \<Rightarrow> (('b, hp_list) ct, sys_pc) conf \<Rightarrow> bool" where
  "sys_step S N = mstep fifo_wake N (sys_act S) (\<lambda>_ _. 0)"

section \<open>The collector's view\<close>

text \<open>Where a thread is for theory \<open>Collector_Safety\<close>.\<close>

fun ct_view :: "sys_pc \<Rightarrow> ct_pc" where
  "ct_view (S_ct p) = p"
| "ct_view (S_collect c cur pend p) = T_run (RN_collect (CC_client c cur pend))"
| "ct_view (S_ctor c) = K_none c"
| "ct_view (S_op c reg x) = (if reg then K_live c else K_none c)"
| "ct_view (S_dtor_test c reg) = (if reg then K_live c else K_none c)"
| "ct_view (S_dtor c p) = K_none c"

text \<open>What a thread knows of the \<^verbatim>\<open>collector_thread\<close> of its list.\<close>

fun knows :: "sys_pc \<Rightarrow> bool option" where
  "knows (S_op c reg x) = Some reg"
| "knows (S_dtor_test c reg) = Some reg"
| "knows (S_ct (K_register c RG_unlock)) = Some True"
| "knows _ = None"

definition sys_inv :: "nat \<Rightarrow> ('b, hp_list) ct \<Rightarrow> (tid \<Rightarrow> sys_pc) \<Rightarrow> bool" where
  "sys_inv N m P \<longleftrightarrow> ct_inv N m (\<lambda>t. ct_view (P t)) \<and> (\<forall>c. 2 \<le> c \<longrightarrow> c < N \<longrightarrow> (\<forall>b. knows (P c) = Some b \<longrightarrow> cl_thread m c = b))"

lemma ct_inv_data:
  fixes m m' :: "('b, 'd) ct"
  assumes "ct_inv N m P" and "clients m' = clients m" "clientsID m' = clientsID m" "data_lock m' = data_lock m" "cl_state m' = cl_state m"
    "cl_thread m' = cl_thread m"
  shows "ct_inv N m' P"
proof -
  have i: "0 < N \<Longrightarrow> scan_inv N m (P 0)" "\<And>c. 2 \<le> c \<Longrightarrow> c < N \<Longrightarrow> client_inv m (collecting (P 0)) c (P c)"
    "lock_inv N (data_lock m) P" "tables_inv N m" "1 < N \<Longrightarrow> owner_inv (P 1)"
    using assms(1) by (simp_all add: ct_inv_def)
  have "scan_inv N m' (P 0)" if "0 < N" using scan_inv_frame [OF _ i(1) [OF that]] assms(2) by blast
  moreover have "client_inv m' (collecting (P 0)) c (P c)" if "2 \<le> c" "c < N" for c
    by (rule client_inv_frame [OF i(2) [OF that]]) (simp_all add: assms(2,5,6))
  moreover have "tables_inv N m'" using i(4) assms by (simp add: tables_inv_def)
  ultimately show ?thesis using i(3,5) assms(4) unfolding ct_inv_def by simp
qed

lemma upd_list_keeps [simp]: "clients (upd_list post c d m) = clients m" "clientsID (upd_list post c d m) = clientsID m"
  "data_lock (upd_list post c d m) = data_lock m" "cl_state (upd_list post c d m) = cl_state m" "cl_thread (upd_list post c d m) = cl_thread m"
  "cl_data (upd_list post c d m) = (cl_data m)(c := d)"
  by (simp_all add: upd_list_def)

lemma ct_view_upd: "(\<lambda>u. ct_view ((P(t := q)) u)) = (\<lambda>u. ct_view (P u))(t := ct_view q)"
  by auto

lemma of_list_Mem:
  assumes "of_list post c j a = Mem f" and "f m = (m', x)"
  obtains g d y where "a = Mem g" "g (cl_data m c) = (d, y)" "m' = upd_list post c d m" "x = bnd y (\<lambda>n. Ret (j n))"
  using assms by (auto simp: of_list_def embed_Mem_iff split_beta Let_def) (metis prod.collapse)

lemma of_list_Ret:
  assumes "of_list post c j a = Mem f" and "f m = (m', Ret q)"
  shows "\<exists>g d n. a = Mem g \<and> g (cl_data m c) = (d, Ret n) \<and> m' = upd_list post c d m \<and> q = j n"
proof -
  from assms obtain g d y where "a = Mem g" "g (cl_data m c) = (d, y)" "m' = upd_list post c d m" "bnd y (\<lambda>n. Ret (j n)) = Ret q"
    by (metis of_list_Mem)
  then show ?thesis by (auto simp: bnd_Ret_iff)
qed

section \<open>Every step keeps the view\<close>

lemma view_client: "sys_inv N m P \<Longrightarrow> 2 \<le> t \<Longrightarrow> t < N \<Longrightarrow> client_of (ct_view (P t)) = Some t"
  by (auto simp: sys_inv_def ct_inv_def client_inv_def)

lemma view_collector: "sys_inv N m P \<Longrightarrow> 0 < N \<Longrightarrow> client_of (ct_view (P 0)) = None"
  by (cases "(N, m, ct_view (P 0))" rule: scan_inv.cases) (auto simp: sys_inv_def ct_inv_def)

lemma view_owner: "sys_inv N m P \<Longrightarrow> 1 < N \<Longrightarrow> client_of (ct_view (P 1)) = None"
  by (cases "ct_view (P 1)") (auto simp: sys_inv_def ct_inv_def)

text \<open>The points at which a thread executes code of its list.\<close>

fun in_list :: "sys_pc \<Rightarrow> nat option" where
  "in_list (S_collect c cur pend p) = Some c"
| "in_list (S_op c reg (H_in hs x)) = Some c"
| "in_list (S_dtor c p) = Some c"
| "in_list _ = None"

text \<open>Steps of a list's code change nothing of the collector but its semaphore.\<close>

lemma list_step:
  assumes i: "sys_inv N m P" and p: "in_list (P t) = Some c" and f: "sys_act S (P t) = Mem f" "f m = (m', x)"
  shows "\<exists>d. m' = upd_list (s_post S) c d m"
  using p f by (cases "P t" rule: in_list.cases) (auto elim!: of_list_Mem)

text \<open>What the code of the collector does to the members of the lists.\<close>

definition own_client :: "nat \<Rightarrow> ('b, 'd) ct \<Rightarrow> ('b, 'd) ct \<Rightarrow> bool" where
  "own_client t m m' \<longleftrightarrow> (\<forall>c. c \<noteq> t \<longrightarrow> cl_thread m' c = cl_thread m c) \<and> cl_data m' = cl_data m"

definition own_keeps :: "nat \<Rightarrow> (('b, 'd) ct, 'n, unit) action \<Rightarrow> bool" where
  "own_keeps t a \<longleftrightarrow> (case a of Mem f \<Rightarrow> \<forall>m. own_client t m (fst (f m)) | _ \<Rightarrow> True)"

lemma own_keepsD: "own_keeps t a \<Longrightarrow> a = Mem f \<Longrightarrow> f m = (m', x) \<Longrightarrow> own_client t m m'"
  by (auto simp: own_keeps_def) (metis fst_conv)

lemma own_atom:
  assumes "\<And>m n m'. g m = Ret (n, m') \<Longrightarrow> own_client t m m'"
  shows "own_keeps t (atom g)"
  using assms by (auto simp: own_keeps_def atom_def own_client_def split: ctl.splits)

lemma own_calls: "own_keeps t a \<Longrightarrow> own_keeps t (calls at k a)" "own_keeps t a \<Longrightarrow> own_keeps t (via at' k' a)"
  by (cases a; auto simp: own_keeps_def via_def calls_def split_beta Let_def)+

lemmas own_rules = own_client_def lock_data_def set_state_def Signal_def ctl_rules Let_def

lemma own_functions:
  "own_keeps c (RegisterClient c rp)" "own_keeps t (DeregisterClient c dp)" "own_keeps t (Stop_ct po j sp)"
  "(\<And>c cur pend. q \<noteq> CC_client c cur pend) \<Longrightarrow> own_keeps t (Collect_ct h k q)"
proof -
  show "own_keeps c (RegisterClient c rp)" by (cases rp) (auto intro!: own_atom simp: own_rules split: if_splits)
  show "own_keeps t (DeregisterClient c dp)" by (cases dp) (auto intro!: own_atom simp: own_rules split: if_splits option.splits prod.splits)
  show "own_keeps t (Stop_ct po j sp)" by (cases sp) (auto intro!: own_atom simp: own_rules split: if_splits)
  show "own_keeps t (Collect_ct h k q)" if "\<And>c cur pend. q \<noteq> CC_client c cur pend"
    using that by (cases q) (auto intro!: own_atom simp: own_rules split: if_splits option.splits prod.splits)
qed

lemma own_run:
  assumes "\<And>c cur pend. q \<noteq> RN_collect (CC_client c cur pend)"
  shows "own_keeps t (Run_ct po ta h k q)"
  using assms by (cases q) (auto intro!: own_atom own_calls own_functions simp: own_rules split: if_splits option.splits)

text \<open>The points that are not those of a list's code.\<close>

lemma view_calls:
  assumes "calls at ret a = Mem f" and "f m = (m', x)" and "\<And>q. ct_view (at q) = at' q" and "\<And>r. ct_view (ret r) = ret' r"
  shows "\<exists>f'. calls at' ret' a = Mem f' \<and> f' m = (m', bnd x (\<lambda>p. Ret (ct_view p)))"
proof -
  have "ct_view (after at ret n) = after at' ret' n" for n by (cases n) (simp_all add: assms(3,4))
  then show ?thesis using assms(1,2) by (auto simp: calls_iffs split_beta Let_def bnd_assoc)
qed

text \<open>
  A step from memory \<open>m\<close> to \<open>m'\<close> keeps the invariant; only code of a list fails, and the call of \<^verbatim>\<open>join\<close> in
  \<^verbatim>\<open>Stop(true)\<close>.
\<close>

definition may_stop :: "sys_pc \<Rightarrow> fault \<Rightarrow> bool" where
  "may_stop p e \<longleftrightarrow> in_list p \<noteq> None \<or> p = S_ct (O_stop SP_call) \<and> e = Bad_deref ''thrd''"

definition stays_ok :: "nat \<Rightarrow> (tid \<Rightarrow> sys_pc) \<Rightarrow> tid \<Rightarrow> ('b, hp_list) ct \<Rightarrow> sys_pc ctl \<Rightarrow> bool" where
  "stays_ok N P t m' x \<longleftrightarrow> (case x of Ret q \<Rightarrow> sys_inv N m' (P(t := q)) | Stop e \<Rightarrow> may_stop (P t) e \<and> sys_inv N m' P)"

lemma stays_okI:
  assumes i: "sys_inv N m P" and c: "ct_inv N m' ((\<lambda>u. ct_view (P u))(t := ct_view q))"
    and o: "\<And>c. c \<noteq> t \<Longrightarrow> cl_thread m' c = cl_thread m c" and k: "\<And>b. knows q = Some b \<Longrightarrow> cl_thread m' t = b"
  shows "stays_ok N P t m' (Ret q)"
proof -
  have "cl_thread m' u = b" if u: "2 \<le> u" "u < N" "knows ((P(t := q)) u) = Some b" for u b
  proof (cases "u = t")
    case False
    with i u o show ?thesis by (simp add: sys_inv_def)
  qed (use u k in simp)
  with c show ?thesis unfolding stays_ok_def sys_inv_def ctl.case ct_view_upd by blast
qed

text \<open>Code of the collector: the steps are those of theory \<open>Collector\<close>.\<close>

lemma stays_ct:
  assumes i: "sys_inv N m P" and t: "t < N" and g: "ct_act (ct_of S) (ct_view (P t)) = Mem g" "g m = (m', bnd x (\<lambda>p. Ret (ct_view p)))"
    and o: "\<And>c. c \<noteq> t \<Longrightarrow> cl_thread m' c = cl_thread m c" and k: "\<And>q b. x = Ret q \<Longrightarrow> knows q = Some b \<Longrightarrow> cl_thread m' t = b"
  shows "stays_ok N P t m' x"
proof -
  have "ct_inv N m (\<lambda>u. ct_view (P u))" using i by (simp add: sys_inv_def)
  from ct_step [OF this t, of "ct_of S"] show ?thesis
  proof
    assume "ct_goes (ct_of S) N m (\<lambda>u. ct_view (P u)) t"
    with g obtain q' where "bnd x (\<lambda>p. Ret (ct_view p)) = Ret q'" "ct_inv N m' ((\<lambda>u. ct_view (P u))(t := q'))"
      by (auto simp: ct_goes_def)
    then obtain q where "x = Ret q" "ct_inv N m' ((\<lambda>u. ct_view (P u))(t := ct_view q))" by (cases x) auto
    with stays_okI [OF i] o k show ?thesis by blast
  next
    assume n: "t = 1 \<and> null_join (ct_of S) m (ct_view (P t))"
    then have "bnd x (\<lambda>p. Ret (ct_view p)) = Stop (Bad_deref ''thrd'')" "m' = m" "ct_view (P t) = O_stop SP_call"
      using g unfolding null_join_def by (metis prod.inject)+
    moreover from this(3) have "P t = S_ct (O_stop SP_call)" by (cases "P t") (auto split: if_splits)
    ultimately show ?thesis using i by (cases x) (simp_all add: stays_ok_def may_stop_def)
  qed
qed

lemma stays_view:
  assumes i: "sys_inv N m P" and m': "m' = upd_list po c d m" and q: "ct_view q = ct_view (P t)" "knows q = None \<or> knows q = knows (P t) \<and> 2 \<le> t \<and> t < N"
  shows "stays_ok N P t m' (Ret q)"
proof (rule stays_okI [OF i])
  have "(\<lambda>u. ct_view (P u))(t := ct_view q) = (\<lambda>u. ct_view (P u))" using q(1) by auto
  moreover have "ct_inv N m (\<lambda>u. ct_view (P u))" using i by (simp add: sys_inv_def)
  then have "ct_inv N m' (\<lambda>u. ct_view (P u))" by (rule ct_inv_data) (simp_all only: m' upd_list_keeps)
  ultimately show "ct_inv N m' ((\<lambda>u. ct_view (P u))(t := ct_view q))" by (simp only:)
  have "knows (P t) = Some b \<Longrightarrow> 2 \<le> t \<Longrightarrow> t < N \<Longrightarrow> cl_thread m t = b" for b using i unfolding sys_inv_def by blast
  moreover have "cl_thread m' = cl_thread m" by (simp only: m' upd_list_keeps)
  ultimately show "cl_thread m' t = b" if "knows q = Some b" for b using that q(2) by auto
qed (simp only: m' upd_list_keeps)

text \<open>Which threads are at which points.\<close>

lemma view_thread:
  assumes i: "sys_inv N m P" and t: "t < N"
  shows "client_of (ct_view (P t)) = Some c \<Longrightarrow> c = t \<and> 2 \<le> t" and "ct_view (P t) = T_run r \<Longrightarrow> t = 0"
proof -
  show "c = t \<and> 2 \<le> t" if "client_of (ct_view (P t)) = Some c"
  proof -
    consider "t = 0" | "t = 1" | "2 \<le> t" by linarith
    then show ?thesis
    proof cases
      case 1
      with view_collector [OF i] t that show ?thesis by simp
    next
      case 2
      with view_owner [OF i] t that show ?thesis by simp
    next
      case 3
      with view_client [OF i 3 t] that show ?thesis by simp
    qed
  qed
  show "t = 0" if "ct_view (P t) = T_run r"
  proof -
    have "\<not> 2 \<le> t" using view_client [OF i _ t] that by auto
    moreover have "t \<noteq> 1" using i t that by (auto simp: sys_inv_def ct_inv_def)
    ultimately show ?thesis by linarith
  qed
qed

lemma stays_collected:
  assumes i: "sys_inv N m P" and t: "t < N" and p: "P 0 = S_collect b cur pend r" and m': "m' = upd_list po c d m"
  shows "stays_ok N P 0 m' (Ret (S_ct (T_run (RN_collect (CC_back b cur pend')))))"
proof (rule stays_okI [OF i])
  let ?q = "T_run (RN_collect (CC_back b cur pend'))"
  have ct: "ct_inv N m (\<lambda>u. ct_view (P u))" using i by (simp add: sys_inv_def)
  then have "lock_inv N (data_lock m) (\<lambda>u. ct_view (P u))" "scan_inv N m (ct_view (P 0))" using t by (simp_all add: ct_inv_def)
  then show "ct_inv N m' ((\<lambda>u. ct_view (P u))(0 := ct_view (S_ct ?q)))"
    using p t lock_same [of N "data_lock m" "\<lambda>u. ct_view (P u)" ?q 0] by (intro collector_same [OF ct]) (simp_all add: m')
qed (simp_all add: m')

lemma stays_list:
  assumes i: "sys_inv N m P" and t: "t < N" and p: "in_list (P t) = Some c" and f: "sys_act S (P t) = Mem f" "f m = (m', x)"
  shows "stays_ok N P t m' x"
proof -
  obtain d where m': "m' = upd_list (s_post S) c d m" using list_step [OF i p f] by blast
  have ct: "ct_inv N m (\<lambda>u. ct_view (P u))" using i by (simp add: sys_inv_def)
  note v = stays_view [OF i m']
  show ?thesis
  proof (cases x)
    case (Stop e)
    have "ct_inv N m' (\<lambda>u. ct_view (P u))" using ct by (rule ct_inv_data) (simp_all only: m' upd_list_keeps)
    with i p Stop show ?thesis by (simp add: stays_ok_def may_stop_def sys_inv_def m')
  next
    case (Ret q)
    show ?thesis
    proof (cases "P t" rule: in_list.cases)
      case (1 b cur pend r)
      then have t0: "t = 0" using view_thread(2) [OF i t] by simp
      from f 1 Ret obtain n where q: "q = (case n of Goto q \<Rightarrow> S_collect b cur pend q | Done r \<Rightarrow> S_ct (T_run (RN_collect (CC_back b cur (if \<not> r then True else pend)))))"
        by (auto dest!: of_list_Ret)
      show ?thesis
      proof (cases n)
        case (Goto r')
        with q 1 v [of q t] Ret show ?thesis by simp
      next
        case (Done ok)
        with 1 t0 q Ret stays_collected [OF i t _ m'] show ?thesis by simp
      qed
    next
      case (2 b reg hs y)
      have "client_of (ct_view (P t)) = Some b" using 2 by simp
      with view_thread(1) [OF i t] have "2 \<le> t" by blast
      moreover from f 2 Ret obtain z where "q = S_op b reg z" by (auto dest!: of_list_Ret)
      ultimately show ?thesis using v [of q t] 2 t Ret by simp
    next
      case (3 b r)
      from f 3 Ret obtain n :: "(dtor_pc, unit) cont" where "q = (case n of Goto q \<Rightarrow> S_dtor b q | Done _ \<Rightarrow> S_ct (K_none b))"
        by (auto dest!: of_list_Ret)
      then show ?thesis using v [of q t] 3 Ret by (cases n) simp_all
    qed (use p in auto)
  qed
qed

lemma stays_client:
  assumes i: "sys_inv N m P" and t: "2 \<le> t" "t < N" and p: "P t = S_ct (K_register t r) \<or> P t = S_ct (K_deregister t r')"
    and f: "sys_act S (P t) = Mem f" "f m = (m', x)"
  shows "stays_ok N P t m' x"
  using p
proof
  assume p: "P t = S_ct (K_register t r)"
  then have f': "calls (\<lambda>q. S_ct (K_register t q)) (\<lambda>_. S_op t True (H_idle [])) (RegisterClient t r) = Mem f" using f(1) by simp
  from view_calls [OF this f(2), of "K_register t" "\<lambda>_. K_live t"] obtain g
    where g: "ct_act (ct_of S) (ct_view (P t)) = Mem g" "g m = (m', bnd x (\<lambda>p. Ret (ct_view p)))" using p by auto
  have o: "own_client t m m'" using own_keepsD [OF own_calls(1) [OF own_functions(1)] f' f(2)] .
  have kn: "r = RG_unlock \<Longrightarrow> cl_thread m t" using i p t by (auto simp: sys_inv_def)
  have "cl_thread m' t = b" if "x = Ret q" "knows q = Some b" for q b
    using f' f(2) that kn by (cases r) (auto simp: calls_atom lock_data_def set_state_def Let_def check_Ret_iff ctl_rules split: if_splits ctl.splits prod.splits)
  with stays_ct [OF i t(2) g] o show ?thesis by (simp add: own_client_def)
next
  assume p: "P t = S_ct (K_deregister t r')"
  then have f': "calls (\<lambda>q. S_ct (K_deregister t q)) (\<lambda>_. S_dtor t DT_deregister) (DeregisterClient t r') = Mem f" using f(1) by simp
  from view_calls [OF this f(2), of "K_deregister t" "\<lambda>_. K_none t"] obtain g
    where g: "ct_act (ct_of S) (ct_view (P t)) = Mem g" "g m = (m', bnd x (\<lambda>p. Ret (ct_view p)))" using p by auto
  have o: "own_client t m m'" using own_keepsD [OF own_calls(1) [OF own_functions(2)] f' f(2)] .
  have "knows q = None" if "x = Ret q" for q
    using f' f(2) unfolding that by (rule calls_Mem_Ret) (auto split: cont.splits)
  with stays_ct [OF i t(2) g] o show ?thesis by (simp add: own_client_def)
qed

text \<open>Construction, the test of the destructor, and the call of \<^verbatim>\<open>Collect\<close>.\<close>

lemma stays_new:
  assumes i: "sys_inv N m P" and t: "2 \<le> t" "t < N" and p: "P t = S_ct (K_ctor t) \<and> q = S_ct (K_register t RG_state) \<or> P t = S_ctor t \<and> q = S_op t False (H_idle [])"
  shows "stays_ok N P t (new_list S t reg m) (Ret q)"
proof (rule stays_okI [OF i])
  have ct: "ct_inv N m (\<lambda>u. ct_view (P u))" using i by (simp add: sys_inv_def)
  then have l: "lock_inv N (data_lock m) (\<lambda>u. ct_view (P u))" and ci: "client_inv m (collecting (ct_view (P 0))) t (ct_view (P t))"
    using t by (simp_all add: ct_inv_def)
  have ab: "phase_of (ct_view (P t)) = Absent" "\<not> in_lock (ct_view (P t))" "\<not> in_lock (ct_view q)" "client_of (ct_view q) = Some t" using p by auto
  show "ct_inv N (new_list S t reg m) ((\<lambda>u. ct_view (P u))(t := ct_view q))"
  proof (rule client_same [OF ct t])
    show "lock_inv N (data_lock (new_list S t reg m)) ((\<lambda>u. ct_view (P u))(t := ct_view q))"
      using lock_same [OF l, of "ct_view q" t] ab by (simp add: new_list_def client_ctor_def)
    show "client_inv (new_list S t reg m) (collecting (ct_view (P 0))) t (ct_view q)"
      using ci p ab by (auto simp: client_inv_def new_list_def client_ctor_def client_states)
  qed (simp_all add: new_list_def client_ctor_def)
qed (use p in \<open>auto simp: new_list_def client_ctor_def\<close>)

lemma stays_test:
  assumes i: "sys_inv N m P" and t: "2 \<le> t" "t < N" and p: "P t = S_dtor_test t reg"
  shows "stays_ok N P t m (Ret (list_dtor_start t m))"
proof -
  have ct: "ct_inv N m (\<lambda>u. ct_view (P u))" and reg: "cl_thread m t = reg" using i t p by (auto simp: sys_inv_def)
  have "ct_inv N m ((\<lambda>u. ct_view (P u))(t := K_deregister t DR_cas))" if reg
    using that p by (intro ct_call [OF ct t(2), of undefined "[K_retire t, K_deregister t DR_cas]"]) simp_all
  moreover have "(\<lambda>u. ct_view (P u))(t := K_none t) = (\<lambda>u. ct_view (P u))" if "\<not> reg" using that p by auto
  ultimately show ?thesis using reg ct by (auto intro!: stays_okI [OF i] simp: list_dtor_start_def)
qed

lemma ct_other:
  assumes "ct_act (ct_of S) p = Mem g" and "g m = (m', n)" and "\<And>c cur pend. p \<noteq> T_run (RN_collect (CC_client c cur pend))"
    and "\<And>c r r'. p \<noteq> K_register c r \<and> p \<noteq> K_deregister c r' \<and> p \<noteq> K_ctor c"
  shows "own_client t m m' \<and> (\<forall>q. n = Ret q \<longrightarrow> knows (S_ct q) = None)"
proof (cases p)
  case (T_run r)
  then have a: "calls T_run (\<lambda>_. T_end) (Run_ct (s_post S) (s_take S) HaveDeletes (\<lambda>d. (True, d)) r) = Mem g" using assms(1) by (simp add: ct_of_def)
  have "own_client t m m'" using assms(3) T_run by (intro own_keepsD [OF own_calls(1) [OF own_run] a assms(2)]) simp
  moreover have "knows (S_ct q) = None" if "n = Ret q" for q
    using a assms(2) unfolding that by (rule calls_Mem_Ret) (auto split: cont.splits)
  ultimately show ?thesis by blast
next
  case (O_stop r)
  then have a: "calls O_stop (\<lambda>_. O_idle) (Stop_ct (s_post S) (s_join S) r) = Mem g" using assms(1) by (simp add: ct_of_def)
  have "own_client t m m'" by (rule own_keepsD [OF own_calls(1) [OF own_functions(3)] a assms(2)])
  moreover have "knows (S_ct q) = None" if "n = Ret q" for q
    using a assms(2) unfolding that by (rule calls_Mem_Ret) (auto split: cont.splits)
  ultimately show ?thesis by blast
qed (use assms in \<open>auto simp: own_client_def ct_of_def Signal_def\<close>)

text \<open>The points at which a thread is not at a list's code.\<close>

lemma sys_points:
  assumes "sys_act S p = Mem f" and "in_list p = None"
  obtains (reg) c r where "p = S_ct (K_register c r)" | (dereg) c r where "p = S_ct (K_deregister c r)" | (new) c where "p = S_ct (K_ctor c) \<or> p = S_ctor c"
    | (test) c r where "p = S_dtor_test c r" | (call) c cur pend where "p = S_ct (T_run (RN_collect (CC_client c cur pend)))"
    | (other) p' where "p = S_ct p'" "sys_act S p = embed id (\<lambda>s _. s) id S_ct (ct_act (ct_of S) p')"
        "\<And>c cur pend. p' \<noteq> T_run (RN_collect (CC_client c cur pend))" "\<And>c r r'. p' \<noteq> K_register c r \<and> p' \<noteq> K_deregister c r' \<and> p' \<noteq> K_ctor c"
  using assms by (cases "(S, p)" rule: sys_act.cases) auto

lemma sys_stays:
  assumes i: "sys_inv N m P" and t: "t < N" and f: "sys_act S (P t) = Mem f" "f m = (m', x)"
  shows "stays_ok N P t m' x"
proof (cases "in_list (P t)")
  case (Some c)
  from stays_list [OF i t Some f] show ?thesis .
next
  case None
  note own = view_thread(1) [OF i t]
  show ?thesis
    using f(1) None
  proof (cases rule: sys_points)
    case (reg c r)
    with own [of c] stays_client [OF i _ t _ f] show ?thesis by auto
  next
    case (dereg c r)
    with own [of c] stays_client [OF i _ t _ f] show ?thesis by auto
  next
    case (new c)
    with own [of c] have "c = t" "2 \<le> t" by auto
    with stays_new [OF i _ t] new f show ?thesis by auto
  next
    case (test c r)
    with own [of c] have "c = t" "2 \<le> t" by (cases r; simp)+
    with stays_test [OF i _ t] test f show ?thesis by auto
  next
    case (call c cur pend)
    then have "x = Ret (S_collect c cur pend CO_test)" "m' = m" using f by auto
    moreover have "(\<lambda>u. ct_view (P u))(t := ct_view (S_collect c cur pend CO_test)) = (\<lambda>u. ct_view (P u))" using call by auto
    ultimately show ?thesis using i by (auto intro!: stays_okI [OF i] simp: sys_inv_def)
  next
    case (other p)
    from f other(2) obtain g n where g: "ct_act (ct_of S) p = Mem g" "g m = (m', n)" "x = bnd n (\<lambda>p. Ret (S_ct p))"
      by (auto simp: embed_Mem_iff split_beta Let_def) (metis prod.collapse)
    then have v: "g m = (m', bnd x (\<lambda>p. Ret (ct_view p)))" by (cases n) simp_all
    from ct_other [OF g(1,2) other(3,4)] have "own_client t m m'" and "n = Ret q \<Longrightarrow> knows (S_ct q) = None" for q by blast+
    then have o: "cl_thread m' c = cl_thread m c" if "c \<noteq> t" for c using that by (simp add: own_client_def)
    have k: "knows q = None" if "x = Ret q" for q
      using that g(3) \<open>\<And>q. n = Ret q \<Longrightarrow> knows (S_ct q) = None\<close> by (cases n) auto
    have a: "ct_act (ct_of S) (ct_view (P t)) = Mem g" using other(1) g(1) by simp
    show ?thesis by (rule stays_ct [OF i t a v o]) (use k in auto)
  qed
qed

subsection \<open>Calls\<close>

lemma is_mem_of_list [simp]: "is_mem (of_list po c j a) = is_mem a"
  by (cases a) (simp_all add: of_list_def is_mem_def)

lemma is_mem_list: "is_mem (HazardPointerList_dtor c p)" "is_mem (Collect_hp c q)"
proof -
  show "is_mem (Collect_hp c q)" for q by (cases q) (simp_all add: is_mem_lists)
  moreover have "is_mem (node_Release n r)" for n r by (cases r) (simp_all add: is_mem_enqueue)
  ultimately show "is_mem (HazardPointerList_dtor c p)" by (cases p) simp_all
qed

lemma is_mem_collector: "is_mem (RegisterClient c r)" "is_mem (DeregisterClient c r')" "is_mem (Run_ct po ta h k q)" "is_mem (Stop_ct po j sp)"
proof -
  have "\<exists>g. a = atom g \<Longrightarrow> is_mem a" for a :: "('m, ('p, 'r) cont, 'c) action" by auto
  then show "is_mem (RegisterClient c r)" "is_mem (DeregisterClient c r')" "is_mem (Run_ct po ta h k q)" "is_mem (Stop_ct po j sp)"
    using ct_atoms by (metis is_mem_simps(1))+
qed

text \<open>What a caller can choose.\<close>

lemma sys_kinds:
  "is_mem (sys_act S p) \<or> (\<exists>c. p = S_ct (K_none c)) \<or> (\<exists>c reg hs. p = S_op c reg (H_idle hs)) \<or> p = S_ct T_end \<or> p = S_ct O_idle \<or> (\<exists>c. p = S_ct (K_live c))"
proof -
  have e: "is_mem (embed id (\<lambda>s _. s) id S_ct a) = is_mem a" for a :: "(('b, hp_list) ct, ct_pc, unit) action" by (cases a) (simp_all add: is_mem_def)
  have "is_mem (ct_act (ct_of S) q)" if "\<forall>c. q \<noteq> K_none c \<and> q \<noteq> K_live c" "q \<noteq> T_end" "q \<noteq> O_idle" for q
    using that by (cases q) (simp_all add: is_mem_collector)
  then show ?thesis
    by (cases "(S, p)" rule: sys_act.cases) (simp_all add: is_mem_point is_mem_list is_mem_collector e lock_data_def)
qed

lemma sys_no_futex: "sys_act S p \<noteq> Wait c v k" "sys_act S p \<noteq> Wake c n k'"
  using sys_kinds [of S p] by (auto simp: is_mem_def)

lemma sys_choice:
  assumes i: "sys_inv N m P" and t: "t < N" and a: "sys_act S (P t) = Client ps" "q \<in> set ps"
  shows "sys_inv N m (P(t := q))"
proof -
  have ct: "ct_inv N m (\<lambda>u. ct_view (P u))" using i by (simp add: sys_inv_def)
  have "stays_ok N P t m (Ret q)"
  proof (rule stays_okI [OF i])
    have n: "\<not> is_mem (sys_act S (P t))" using a by (simp add: is_mem_def)
    consider (none) c where "P t = S_ct (K_none c)" "q = S_ct (K_ctor c) \<or> q = S_ctor c"
      | (op) c reg hs where "P t = S_op c reg (H_idle hs)" "(\<exists>x. q = S_op c reg x) \<or> q = S_dtor_test c reg"
      | (idle) "P t = S_ct O_idle" "q = S_ct (O_stop SP_active)"
      | (live) c where "P t = S_ct (K_live c)" "q = S_ct (K_retire c) \<or> q = S_ct (K_deregister c DR_cas)"
      using sys_kinds [of S "P t"] n a by auto
    note cases = this
    show "ct_inv N m ((\<lambda>u. ct_view (P u))(t := ct_view q))"
      using cases
    proof cases
      case op
      then have "(\<lambda>u. ct_view (P u))(t := ct_view q) = (\<lambda>u. ct_view (P u))" by auto
      with ct show ?thesis by simp
    next
      case none
      have "(\<lambda>u. ct_view (P u))(t := K_none c) = (\<lambda>u. ct_view (P u))" using none by auto
      with none ct ct_call [OF ct t, of "ct_of S" "[K_ctor c]" "K_ctor c"] show ?thesis by auto
    qed (use ct_call [OF ct t, of "ct_of S"] in auto)
    show "cl_thread m t = b" if "knows q = Some b" for b
      using cases
    proof cases
      case op
      then have "knows (P t) = Some b" using that by auto
      moreover have "2 \<le> t" using view_thread(1) [OF i t, of c] op by (cases reg) simp_all
      ultimately show ?thesis using i t by (simp add: sys_inv_def)
    qed (use that in auto)
  qed simp
  then show ?thesis by (simp add: stays_ok_def)
qed

section \<open>Every reachable state\<close>

lemma sys_exec:
  assumes i: "sys_inv N (mem s) (pcs s)" and ex: "exec kw N (sys_act S) rd s ev = Some s'"
  shows "sys_inv N (mem s') (pcs s')"
  using ex
proof (rule exec_pcs)
  fix t F x assume "t < N" "sys_act S (pcs s t) = Mem F" "F (mem s) = (mem s', Stop x)" "pcs s' = pcs s"
  with sys_stays [OF i] show ?thesis by (fastforce simp: stays_ok_def)
next
  fix t F p assume "t < N" "sys_act S (pcs s t) = Mem F" "F (mem s) = (mem s', Ret p)" "pcs s' = (pcs s)(t := p)"
  with sys_stays [OF i] show ?thesis by (fastforce simp: stays_ok_def)
next
  fix t ps p assume "t < N" "sys_act S (pcs s t) = Client ps" "p \<in> set ps" "pcs s' = (pcs s)(t := p)" "mem s' = mem s"
  with sys_choice [OF i] show ?thesis by metis
qed (use i in \<open>auto simp: sys_no_futex\<close>)

lemma sys_reach:
  assumes "reach (sys_start b d) (sys_step S N) s"
  shows "sys_inv N (mem s) (pcs s)"
  using assms
proof (induction rule: reach.induct)
  case reach_init
  have "(\<lambda>t. ct_view (pcs (sys_start b d) t)) = (\<lambda>t. if t = 0 then T_run RN_test else if t = 1 then O_new else K_none t)" by (auto simp: sys_start_def)
  moreover note ct_inv_start [of N b d]
  ultimately show ?case by (simp add: sys_inv_def sys_start_def)
next
  case (reach_step s s')
  then show ?case using sys_exec by (auto simp: sys_step_def mstep_def)
qed

text \<open>Which step can stop the process.\<close>

lemma sys_stops:
  assumes i: "sys_inv N (mem s) (pcs s)" and ex: "exec kw N (sys_act S) rd s ev = Some s'" and h: "halted s' = Some e"
  shows "\<exists>t<N. ev = Run t \<and> may_stop (pcs s t) e"
proof -
  have h0: "halted s = None" using ex by (cases ev) (auto split: if_splits)
  show ?thesis
  proof (cases ev)
    case (Run t)
    then have t: "t < N" using ex by (auto split: if_splits)
    obtain f where f: "sys_act S (pcs s t) = Mem f" using ex Run by (auto simp: sys_no_futex split: if_splits action.splits)
    obtain m' x where x: "f (mem s) = (m', x)" by fastforce
    have s': "s' = goto t x (s\<lparr>mem := m'\<rparr>)" using ex Run f x by (auto split: if_splits)
    with h h0 have "x = Stop e" by (cases x) auto
    with sys_stays [OF i t f x] Run t show ?thesis by (auto simp: stays_ok_def)
  qed (use ex h h0 in \<open>auto simp: sys_no_futex split: if_splits action.splits\<close>)
qed

section \<open>The destructor of a list\<close>

text \<open>Nobody else changes the list.\<close>

lemma sys_data:
  assumes i: "sys_inv N m P" and t: "t < N" and f: "sys_act S (P t) = Mem f" "f m = (m', x)" and c: "c \<noteq> t" "in_list (P t) \<noteq> Some c"
  shows "cl_data m' c = cl_data m c"
proof (cases "in_list (P t)")
  case (Some b)
  with list_step [OF i Some f] c show ?thesis by auto
next
  case None
  note own = view_thread(1) [OF i t]
  show ?thesis
    using f(1) None
  proof (cases rule: sys_points)
    case (reg b r)
    then have f': "calls (\<lambda>q. S_ct (K_register b q)) (\<lambda>_. S_op b True (H_idle [])) (RegisterClient b r) = Mem f" using f(1) by simp
    from own_keepsD [OF own_calls(1) [OF own_functions(1)] f' f(2)] show ?thesis by (simp add: own_client_def)
  next
    case (dereg b r)
    then have f': "calls (\<lambda>q. S_ct (K_deregister b q)) (\<lambda>_. S_dtor b DT_deregister) (DeregisterClient b r) = Mem f" using f(1) by simp
    from own_keepsD [OF own_calls(1) [OF own_functions(2)] f' f(2)] show ?thesis by (simp add: own_client_def)
  next
    case (new b)
    with own [of b] have "b = t" by auto
    with new f c show ?thesis by (auto simp: new_list_def)
  next
    case (other p)
    from f other(2) obtain g n where g: "ct_act (ct_of S) p = Mem g" "g m = (m', n)"
      by (auto simp: embed_Mem_iff split_beta Let_def) (metis prod.collapse)
    from ct_other [OF g other(3,4)] show ?thesis by (simp add: own_client_def)
  qed (use f in auto)
qed

text \<open>A thread that executes its own list's destructor is not a client of the collector, which does not work on the list.\<close>

lemma dtor_unregistered:
  assumes i: "sys_inv N m P" and c: "2 \<le> c" "c < N" and p: "P c = S_dtor c q"
  shows "c \<notin> set (clients m)" and "t < N \<Longrightarrow> t \<noteq> c \<Longrightarrow> in_list (P t) \<noteq> Some c"
proof -
  have ci: "client_inv m (collecting (ct_view (P 0))) c (ct_view (P c))" using i c by (simp add: sys_inv_def ct_inv_def)
  then show "c \<notin> set (clients m)" using p by (simp add: client_inv_def)
  have col: "collecting (ct_view (P 0)) \<noteq> Some c" using ci p by (auto simp: client_inv_def)
  show "in_list (P t) \<noteq> Some c" if t: "t < N" "t \<noteq> c"
  proof
    assume l: "in_list (P t) = Some c"
    then have "client_of (ct_view (P t)) = Some c \<or> (\<exists>cur pend. ct_view (P t) = T_run (RN_collect (CC_client c cur pend)))"
      by (cases "P t" rule: in_list.cases) auto
    then show False
    proof
      assume "client_of (ct_view (P t)) = Some c"
      with view_thread(1) [OF i t(1)] t(2) show False by blast
    next
      assume "\<exists>cur pend. ct_view (P t) = T_run (RN_collect (CC_client c cur pend))"
      then obtain cur pend where v: "ct_view (P t) = T_run (RN_collect (CC_client c cur pend))" by blast
      with view_thread(2) [OF i t(1)] have "t = 0" by blast
      with v col show False by simp
    qed
  qed
qed

text \<open>One step of a run of a function that ends.\<close>

lemma solo_step:
  assumes "solo f p d = Some (Ret (r, e))" and "f p = Mem g" and "g d = (d', y)"
  shows "\<exists>n. y = Ret n \<and> resume f n d' = Some (Ret (r, e))"
  using assms by (subst (asm) solo.simps) (auto simp: resume_def split: ctl.splits)

lemma dtor_step:
  assumes "solo (HazardPointerList_dtor c) q (cl_data m c) = Some (Ret ((), e))" and f: "sys_act S (S_dtor c q) = Mem f" "f m = (m', x)"
  shows "(\<exists>q'. x = Ret (S_dtor c q') \<and> solo (HazardPointerList_dtor c) q' (cl_data m' c) = Some (Ret ((), e))) \<or>
    x = Ret (S_ct (K_none c)) \<and> cl_data m' c = e"
proof -
  have "of_list (s_post S) c (\<lambda>n. case n of Goto q \<Rightarrow> S_dtor c q | Done _ \<Rightarrow> S_ct (K_none c)) (HazardPointerList_dtor c q) = Mem f"
    using f(1) by simp
  from this f(2) obtain g d y where g: "HazardPointerList_dtor c q = Mem g" "g (cl_data m c) = (d, y)" "m' = upd_list (s_post S) c d m"
    "x = bnd y (\<lambda>n. Ret (case n of Goto q \<Rightarrow> S_dtor c q | Done _ \<Rightarrow> S_ct (K_none c)))" by (rule of_list_Mem)
  from solo_step [OF assms(1) g(1,2)] obtain n where "y = Ret n" "resume (HazardPointerList_dtor c) n d = Some (Ret ((), e))" by blast
  with g(3,4) show ?thesis by (cases n) auto
qed

text \<open>The list on which \<open>c\<close> executes the destructor is on its way to \<open>e\<close>.\<close>

definition dtor_at :: "nat \<Rightarrow> hp_list \<Rightarrow> (('b, hp_list) ct, sys_pc) conf \<Rightarrow> bool" where
  "dtor_at c e s \<longleftrightarrow> (\<exists>q. pcs s c = S_dtor c q \<and> solo (HazardPointerList_dtor c) q (cl_data (mem s) c) = Some (Ret ((), e)))"

lemma dtor_kept:
  assumes i: "sys_inv N (mem s) (pcs s)" and c: "2 \<le> c" "c < N" and d: "dtor_at c e s" and st: "sys_step S N s s'"
    and p: "pcs s' c = S_dtor c q"
  shows "dtor_at c e s'"
proof -
  from d obtain q0 where q0: "pcs s c = S_dtor c q0" "solo (HazardPointerList_dtor c) q0 (cl_data (mem s) c) = Some (Ret ((), e))"
    by (auto simp: dtor_at_def)
  note other = dtor_unregistered(2) [OF i c q0(1)]
  have same: "cl_data (mem s') c = cl_data (mem s) c" if "t < N" "sys_act S (pcs s t) = Mem F" "F (mem s) = (mem s', x)" "t \<noteq> c" for t F x
    using sys_data [OF i that(1-3) _ other [OF that(1,4)]] that(4) by simp
  have keep: "dtor_at c e s'" if "pcs s' c = pcs s c" "cl_data (mem s') c = cl_data (mem s) c"
    using that q0 by (simp add: dtor_at_def)
  from st obtain ev where "exec fifo_wake N (sys_act S) (\<lambda>_ _. 0) s ev = Some s'" by (auto simp: sys_step_def mstep_def)
  then show ?thesis
  proof (rule exec_pcs)
    fix t F x assume a: "t < N" "sys_act S (pcs s t) = Mem F" "F (mem s) = (mem s', Stop x)" "pcs s' = pcs s"
    then have "t \<noteq> c" using dtor_step [OF q0(2), of S F "mem s'" "Stop x"] q0(1) by auto
    with a same keep show ?thesis by metis
  next
    fix t F r assume a: "t < N" "sys_act S (pcs s t) = Mem F" "F (mem s) = (mem s', Ret r)" "pcs s' = (pcs s)(t := r)"
    show ?thesis
    proof (cases "t = c")
      case True
      with a q0 dtor_step [OF q0(2), of S F "mem s'" "Ret r"] p show ?thesis by (auto simp: dtor_at_def)
    next
      case False
      then have "pcs s' c = pcs s c" using a(4) by simp
      with same [OF a(1-3) False] keep show ?thesis by blast
    qed
  next
    fix t ps r assume a: "t < N" "sys_act S (pcs s t) = Client ps" "pcs s' = (pcs s)(t := r)" "mem s' = mem s"
    have "is_mem (sys_act S (S_dtor c q0))" by (simp add: is_mem_list)
    then have "t \<noteq> c" using a(2) q0(1) by (auto simp: is_mem_def)
    with a keep show ?thesis by simp
  qed (use keep in \<open>auto simp: sys_no_futex\<close>)
qed

lemma dtor_done:
  assumes d: "dtor_at c e s" and ex: "exec fifo_wake N (sys_act S) (\<lambda>_ _. 0) s (Run c) = Some s'"
  shows "halted s' = None \<and> (dtor_at c e s' \<or> pcs s' c = S_ct (K_none c) \<and> cl_data (mem s') c = e)"
proof -
  from d obtain q0 where q0: "pcs s c = S_dtor c q0" "solo (HazardPointerList_dtor c) q0 (cl_data (mem s) c) = Some (Ret ((), e))"
    by (auto simp: dtor_at_def)
  have h: "halted s = None" using ex by (auto split: if_splits)
  obtain f where f: "sys_act S (pcs s c) = Mem f" using ex by (auto simp: sys_no_futex split: if_splits action.splits)
  obtain m' x where x: "f (mem s) = (m', x)" by fastforce
  have s': "s' = goto c x (s\<lparr>mem := m'\<rparr>)" using ex f x by (auto split: if_splits)
  have "sys_act S (S_dtor c q0) = Mem f" using f q0(1) by simp
  from dtor_step [OF q0(2) this x] h show ?thesis unfolding s' by (auto simp: dtor_at_def)
qed

section \<open>Examples\<close>

text \<open>
  Thread 2 constructs a registered list, acquires a node for the object in a cell and retires the object. In \<open>sys_meet\<close> the collector thread then begins to
  collect the list, the destructor meets it, tries again until \<^verbatim>\<open>Collect\<close> is done, and goes on. In \<open>sys_leave\<close> the destructor is
  first and in \<open>sys_destroy\<close> the collector thread looks for work meanwhile.
\<close>

definition sys_example :: "bool sys_env" where
  "sys_example = \<lparr>s_post = (\<lambda>_. True), s_take = (\<lambda>b. if b then Some False else None), s_join = False,
     s_ops = [New 3 0, Acquire 3 10, Delete 3], s_end = (\<lambda>_. 1), s_cells = (\<lambda>_. [10 \<mapsto> 77])\<rparr>"

abbreviation sys_run :: "(((bool, hp_list) ct, sys_pc) conf) \<Rightarrow> event list \<Rightarrow> ((bool, hp_list) ct, sys_pc) conf option" where
  "sys_run \<equiv> run fifo_wake 3 (sys_act sys_example) (\<lambda>_ _. 0)"

abbreviation sys_first :: "((bool, hp_list) ct, sys_pc) conf" where
  "sys_first \<equiv> sys_start False (\<lambda>_. HazardPointerList_ctor 1 Map.empty)"

definition sys_use :: "event list" where
  "sys_use = [Call 2 0, Run 2, Run 2, Run 2, Run 2, Run 2, Run 2, Run 2, Run 2, Call 2 0, Run 2, Run 2, Run 2, Run 2, Run 2, Run 2, Call 2 1,
     Run 2, Run 2, Run 2, Call 2 2, Run 2, Run 2, Run 2, Run 2, Run 2, Run 2, Run 2, Run 2, Run 2, Run 2]"

definition sys_meet :: "event list" where
  "sys_meet = [Run 0, Run 0, Run 0, Run 0, Run 0, Run 0, Run 0, Run 0, Run 0, Call 2 3, Run 2, Run 2, Run 2, Run 0, Run 0, Run 0, Run 0, Run 0,
     Run 0, Run 0, Run 0, Run 0, Run 0, Run 0, Run 0, Run 0, Run 0, Run 0, Run 0, Run 0, Run 0, Run 0, Run 0, Run 0, Run 0, Run 0, Run 0,
     Run 0, Run 0, Run 0, Run 0, Run 0, Run 0, Run 2, Run 2, Run 2, Run 2, Run 2, Run 2, Run 2, Run 2, Run 2, Run 2]"

definition sys_leave :: "event list" where
  "sys_leave = [Call 2 3, Run 2, Run 2, Run 2, Run 2, Run 2, Run 2, Run 2]"

definition sys_destroy :: "event list" where
  "sys_destroy = [Run 2, Run 2, Run 0, Run 0, Run 0, Run 0, Run 0, Run 0, Run 0, Run 0, Run 0, Run 2, Run 2, Run 2, Run 2, Run 2, Run 2, Run 2, Run 2,
     Run 2, Run 2, Run 2, Run 2, Run 2, Run 2, Run 2, Run 2, Run 2, Run 2, Run 2, Run 2, Run 2, Run 2, Run 2, Run 2, Run 2, Run 2, Run 2,
     Run 2, Run 2, Run 2, Run 2, Run 2]"

fun destroys :: "nat \<Rightarrow> sys_pc \<Rightarrow> bool" where
  "destroys c (S_dtor b q) = (b = c)"
| "destroys c _ = False"

text \<open>A run in which thread \<open>c\<close> stays in the destructor.\<close>

abbreviation dtor_run :: "nat \<Rightarrow> ((bool, hp_list) ct, sys_pc) conf \<Rightarrow> event list \<Rightarrow> ((bool, hp_list) ct, sys_pc) conf option" where
  "dtor_run c \<equiv> run_in (\<lambda>y. destroys c (pcs y c)) fifo_wake 3 (sys_act sys_example) (\<lambda>_ _. 0)"

lemma dtor_run_reach:
  assumes "dtor_run c s evs = Some s'"
  shows "reach s (\<lambda>x y. sys_step sys_example 3 x y \<and> (\<exists>q. pcs y c = S_dtor c q)) s'"
proof -
  have "destroys c p \<longleftrightarrow> (\<exists>q. p = S_dtor c q)" for p by (cases "(c, p)" rule: destroys.cases) auto
  with run_in_reach [OF assms reach_init] show ?thesis by (simp add: sys_step_def)
qed

lemma embed_atom:
  "Threads.embed get upd at j (atom g) = Mem (\<lambda>m. case g (get m) of Ret (n, d) \<Rightarrow> (upd d m, Ret (j n)) | Stop e \<Rightarrow> (upd (get m) m, Stop e))"
  by (auto simp: atom_def fun_eq_iff split: ctl.splits)

lemma no_hazards: "\<not> binary_search [] a"
  by (simp add: binary_search_member)

lemmas sys_eval = list_dtor_start_def sys_example_def sys_use_def sys_meet_def sys_leave_def sys_destroy_def sys_start_def start_def CollectorThread_ctor_def client_states
  check_def ct_points new_list_def of_list_def upd_list_def HazardPointerList_ctor_def init_def new_node_def HazardPointerNode_ctor_def
  IsUnqueued_def IsEnqueued_def store_def load_def erase_at_def embed_atom ct_of_def HaveDeletes_def no_hazards

section \<open>Destroying a list while the collector runs\<close>

text \<open>
  C7: While a thread executes the destructor of its list, registered with the collector or not, the list is not among the collector's
  clients and no other thread, so not the collector either, is in code of the list. And if the next step of any thread stops the process,
  then that thread is in the code of a list or calls \<^verbatim>\<open>join\<close> through the null pointer in \<^verbatim>\<open>Stop(true)\<close>: no assertion
  of the collector's own code fails, also while it executes the code of the lists access by access.
\<close>

theorem sys_destructor_alone:
  assumes "reach (sys_start b d) (sys_step S N) s" and "2 \<le> c" and "c < N" and "pcs s c = S_dtor c q"
  shows "c \<notin> set (clients (mem s)) \<and> (\<forall>t < N. in_list (pcs s t) = Some c \<longrightarrow> t = c) \<and>
    (\<forall>ev s' e. exec fifo_wake N (sys_act S) (\<lambda>_ _. 0) s ev = Some s' \<longrightarrow> halted s' = Some e \<longrightarrow>
      (\<exists>t < N. ev = Run t \<and> (in_list (pcs s t) \<noteq> None \<or> pcs s t = S_ct (O_stop SP_call) \<and> e = Bad_deref ''thrd'')))"
proof -
  note i = sys_reach [OF assms(1)]
  from dtor_unregistered [OF i assms(2-4)] sys_stops [OF i] show ?thesis unfolding may_stop_def by blast
qed

theorem sys_destructor_alone_witness:
  "\<exists>s. sys_run sys_first (sys_use @ sys_meet) = Some s \<and> pcs s 2 = S_dtor 2 (DT_collect CO_test) \<and> pcs s 0 = S_ct (T_run RN_wait) \<and>
    deleted (cl_data (mem s) 2) = [77] \<and> 2 \<notin> set (clients (mem s)) \<and> (\<forall>t < 3. in_list (pcs s t) = Some 2 \<longrightarrow> t = 2)"
proof -
  obtain s where r: "sys_run sys_first (sys_use @ sys_meet) = Some s"
    and s: "pcs s 2 = S_dtor 2 (DT_collect CO_test)" "pcs s 0 = S_ct (T_run RN_wait)" "deleted (cl_data (mem s) 2) = [77]"
    by (simp add: sys_eval)
  have "reach sys_first (sys_step sys_example 3) s" unfolding sys_step_def by (rule run_reachable [OF r])
  then have "2 \<notin> set (clients (mem s)) \<and> (\<forall>t < 3. in_list (pcs s t) = Some 2 \<longrightarrow> t = 2)"
    using sys_destructor_alone [of False _ sys_example 3 s 2, OF _ _ _ s(1)] by simp
  with r s show ?thesis by blast
qed

text \<open>
  C13: From a state in which thread \<open>c\<close> begins to destroy its list, whatever the collector and the other
  threads do meanwhile: no step of the destructor fails, and when it is done all nodes are freed and exactly the objects of the gc list
  have been deleted, in its order.
\<close>

theorem sys_destructor:
  assumes r: "reach (sys_start b d) (sys_step S N) s" and c: "2 \<le> c" "c < N" and p: "pcs s c = S_dtor c DT_deregister"
    and rep: "hp_rep ns gs fs (cl_data (mem s) c)" and r1: "reach s (\<lambda>x y. sys_step S N x y \<and> (\<exists>q. pcs y c = S_dtor c q)) s1"
    and ex: "exec fifo_wake N (sys_act S) (\<lambda>_ _. 0) s1 (Run c) = Some s2"
  shows "halted s2 = None \<and> (pcs s2 c = S_ct (K_none c) \<longrightarrow> heap (cl_data (mem s2) c) = Map.empty \<and>
    deleted (cl_data (mem s2) c) = deleted (cl_data (mem s) c) @ map (gcp (heap (cl_data (mem s) c))) gs)"
proof -
  from solo_dtor [OF rep, of c] obtain e where e: "dtor_at c e s" "heap e = Map.empty"
    "deleted e = deleted (cl_data (mem s) c) @ map (gcp (heap (cl_data (mem s) c))) gs" using p by (auto simp: dtor_at_def)
  from r1 have "reach (sys_start b d) (sys_step S N) s1 \<and> dtor_at c e s1"
  proof (induction rule: reach.induct)
    case (reach_step x y)
    then have "reach (sys_start b d) (sys_step S N) x" by blast
    then have "sys_inv N (mem x) (pcs x)" by (rule sys_reach)
    with reach_step dtor_kept [OF _ c] show ?case by (meson reach.reach_step)
  qed (use r e(1) in simp)
  with dtor_done [OF _ ex] e(2,3) show ?thesis by (auto simp: dtor_at_def)
qed

theorem sys_destructor_witness:
  "\<exists>s s1 s2. sys_run sys_first (sys_use @ sys_leave) = Some s \<and> dtor_run 2 s sys_destroy = Some s1 \<and>
    exec fifo_wake 3 (sys_act sys_example) (\<lambda>_ _. 0) s1 (Run 2) = Some s2 \<and> pcs s2 2 = S_ct (K_none 2) \<and> pcs s2 0 = S_ct (T_run RN_wait) \<and>
    halted s2 = None \<and> heap (cl_data (mem s2) 2) = Map.empty \<and> deleted (cl_data (mem s2) 2) = [77]"
proof -
  have "check_run (\<lambda>s. (pcs s 2 = S_dtor 2 DT_deregister \<and> hp_rep [3] [3] [] (cl_data (mem s) 2) \<and> deleted (cl_data (mem s) 2) = [] \<and>
        gcp (heap (cl_data (mem s) 2)) 3 = 77) \<and>
      check_run (\<lambda>s1. check_run (\<lambda>s2. pcs s2 2 = S_ct (K_none 2) \<and> pcs s2 0 = S_ct (T_run RN_wait))
        (exec fifo_wake 3 (sys_act sys_example) (\<lambda>_ _. 0) s1 (Run 2))) (dtor_run 2 s sys_destroy))
    (sys_run sys_first (sys_use @ sys_leave))"
    by (simp add: sys_eval check_run_def hp_rep_def hp_lists_def insert_commute)
  then obtain s s1 s2 where r: "sys_run sys_first (sys_use @ sys_leave) = Some s" "dtor_run 2 s sys_destroy = Some s1"
      "exec fifo_wake 3 (sys_act sys_example) (\<lambda>_ _. 0) s1 (Run 2) = Some s2"
    and s: "pcs s 2 = S_dtor 2 DT_deregister" "hp_rep [3] [3] [] (cl_data (mem s) 2)" "deleted (cl_data (mem s) 2) = []" "gcp (heap (cl_data (mem s) 2)) 3 = 77"
    and s2: "pcs s2 2 = S_ct (K_none 2)" "pcs s2 0 = S_ct (T_run RN_wait)"
    by (elim check_runD [elim_format] exE conjE) simp
  have q: "reach sys_first (sys_step sys_example 3) s" unfolding sys_step_def by (rule run_reachable [OF r(1)])
  from sys_destructor [OF q _ _ s(1,2) dtor_run_reach [OF r(2)] r(3)] s(3,4) s2
  have "halted s2 = None \<and> heap (cl_data (mem s2) 2) = Map.empty \<and> deleted (cl_data (mem s2) 2) = [77]" by simp
  with r s2 show ?thesis by blast
qed

end
