(* ===== verification/Collector_Numbers.thy ===== *)
theory Collector_Numbers
  imports Collector_Safety
begin

text \<open>
  The numbers of the clients of \<^verbatim>\<open>CollectorThread\<close> (\<^verbatim>\<open>src/src/HazardPointer.cpp\<close>) in every interleaving: the collector
  is only ever at clients whose number is not 0; so the client whose number wraps around to 0 is never collected.
\<close>

section \<open>The number of a client\<close>

definition number :: "('b, 'd) ct \<Rightarrow> nat \<Rightarrow> 32 word option" where
  "number m c = map_of (zip (clients m) (clientsID m)) c"

text \<open>The two steps that change the vectors.\<close>

lemma ct_tables_step:
  assumes "ct_act E p = Mem f" and "f m = (m', x)"
  shows "clients m' = clients m \<and> clientsID m' = clientsID m \<or>
    (\<exists>c. p = K_register c RG_push \<and> clients m' = clients m @ [c] \<and> clientsID m' = clientsID m @ [id_value m + 1]) \<or>
    (\<exists>c ix. p = K_deregister c (DR_erase ix) \<and> clients m' = erase_at ix (clients m) \<and> clientsID m' = erase_at ix (clientsID m))"
proof (cases p)
  case (T_run r)
  show ?thesis
  proof (cases r)
    case (RN_collect q)
    with assms T_run show ?thesis
      by (cases q) (auto simp: ct_points check_def split: if_splits option.splits prod.splits)
  qed (use assms T_run in \<open>auto simp: ct_points split: if_splits option.splits\<close>)
next
  case (K_register k r)
  with assms show ?thesis by (cases r) (auto simp: ct_points check_def split: if_splits)
next
  case (K_deregister k r)
  with assms show ?thesis by (cases r) (auto simp: ct_points check_def split: if_splits option.splits)
next
  case (O_stop r)
  with assms show ?thesis by (cases r) (auto simp: ct_points split: if_splits)
qed (use assms in \<open>auto simp: ct_points\<close>)

lemma number_push:
  assumes "length (clientsID m) = length (clients m)" and "clients m' = clients m @ [t]" and "clientsID m' = clientsID m @ [v]"
  shows "number m' c = (if c \<in> set (clients m) then number m c else if c = t then Some v else None)"
proof -
  have "map_of (zip (clients m) (clientsID m)) c = None \<longleftrightarrow> c \<notin> set (clients m)" by (rule map_of_zip_is_None) (use assms in simp)
  then show ?thesis using assms by (auto simp: number_def map_add_def split: option.splits dest: map_of_SomeD set_zip_leftD)
qed

lemma number_erase:
  assumes "length (clientsID m) = length (clients m)" and "ix < length (clients m)" and "clients m ! ix \<noteq> c"
    and "clients m' = erase_at ix (clients m)" and "clientsID m' = erase_at ix (clientsID m)"
  shows "number m' c = number m c"
proof -
  let ?z = "zip (clients m) (clientsID m)"
  have "zip (clients m') (clientsID m') = take ix ?z @ drop (Suc ix) ?z"
    using assms by (simp add: erase_at_def take_zip drop_zip)
  moreover have "?z = take ix ?z @ ?z ! ix # drop (Suc ix) ?z" by (rule id_take_nth_drop) (use assms in simp)
  then have "map_of ?z c = map_of (take ix ?z @ ?z ! ix # drop (Suc ix) ?z) c" by simp
  moreover have "?z ! ix = (clients m ! ix, clientsID m ! ix)" using assms by simp
  ultimately show ?thesis using assms(3) [symmetric] by (auto simp: number_def map_add_def split: option.splits)
qed

text \<open>A client keeps its number for as long as it is registered.\<close>

lemma number_step:
  assumes inv: "ct_inv N m P" and t: "t < N" and f: "ct_act E (P t) = Mem f" "f m = (m', x)"
    and c: "c \<in> set (clients m)" "c \<in> set (clients m')"
  shows "number m' c = number m c"
proof -
  have tb: "distinct (clients m)" "length (clientsID m) = length (clients m)" using inv by (simp_all add: ct_inv_def tables_inv_def)
  from ct_tables_step [OF f] consider "clients m' = clients m" "clientsID m' = clientsID m"
    | b where "clients m' = clients m @ [b]" "clientsID m' = clientsID m @ [id_value m + 1]"
    | b ix where "P t = K_deregister b (DR_erase ix)" "clients m' = erase_at ix (clients m)" "clientsID m' = erase_at ix (clientsID m)"
    by blast
  then show ?thesis
  proof cases
    case 2
    with number_push [OF tb(2) 2, of c] c(1) show ?thesis by simp
  next
    case (3 b ix)
    then have b: "client_of (P t) \<noteq> None" by simp
    have "2 \<le> t"
    proof (rule ccontr)
      assume "\<not> 2 \<le> t"
      then have "t = 0 \<or> t = 1" by linarith
      with inv t 3(1) show False by (auto simp: ct_inv_def)
    qed
    with inv t have "client_inv m (collecting (P 0)) t (P t)" by (simp add: ct_inv_def)
    with 3(1) have ix: "ix < length (clients m)" by (auto simp: client_inv_def)
    with erase_at_props(2) [OF ix tb(1)] 3 c(2) have "clients m ! ix \<noteq> c" by auto
    with number_erase [OF tb(2) ix] 3 show ?thesis by blast
  qed (simp add: number_def)
qed

section \<open>The collector only works on clients with a number\<close>

fun scan_num :: "('b, 'd) ct \<Rightarrow> ct_pc \<Rightarrow> bool" where
  "scan_num m (T_run (RN_collect (CC_have ix cur _))) = (clientsID m ! ix = cur \<and> cur \<noteq> 0)"
| "scan_num m (T_run (RN_collect (CC_cas ix cur _))) = (clientsID m ! ix = cur \<and> cur \<noteq> 0)"
| "scan_num m p = (\<forall>c. collecting p = Some c \<longrightarrow> number m c \<noteq> Some 0)"

lemma scan_num_tables:
  assumes "clients m' = clients m" and "clientsID m' = clientsID m"
  shows "scan_num m' p = scan_num m p"
  by (cases "(m, p)" rule: scan_num.cases) (use assms in \<open>simp_all add: number_def\<close>)

lemma scan_num_collector:
  assumes inv: "ct_inv N m P" and n: "0 < N" and s: "scan_num m (P 0)" and f: "ct_act E (P 0) = Mem f" "f m = (m', Ret q)"
  shows "scan_num m' q"
proof -
  have tb: "distinct (clients m)" "length (clientsID m) = length (clients m)" and sc: "scan_inv N m (P 0)"
    using inv n by (simp_all add: ct_inv_def tables_inv_def)
  have at: "number m (clients m ! ix) = Some (clientsID m ! ix)" if "ix < length (clients m)" for ix
    using map_of_zip_nth [of "clients m" "clientsID m" ix] tb that by (simp add: number_def)
  have pos: "w \<noteq> 0" if "\<not> w \<le> (v :: 32 word)" for v w using that by auto
  from sc obtain p where p: "P 0 = T_run p" using f(1) by (cases "(N, m, P 0)" rule: scan_inv.cases) auto
  show ?thesis
  proof (cases p)
    case (RN_collect r)
    show ?thesis
    proof (cases r)
      case (CC_lock cur pend)
      then have "q = P 0 \<or> q = T_run (RN_collect (CC_for 0 cur pend))" using f p RN_collect by (auto simp: ct_points split: if_splits)
      with p RN_collect CC_lock show ?thesis by auto
    next
      case (CC_for ix cur pend)
      with f p RN_collect pos show ?thesis by (auto simp: ct_points split: if_splits)
    next
      case (CC_cas ix cur pend)
      then have "ix < length (clients m)" "cur \<noteq> 0" "clientsID m ! ix = cur" using p RN_collect s sc by auto
      with f p RN_collect CC_cas at show ?thesis by (cases "cl_state m (clients m ! ix) = k_REGISTERED") (auto simp: ct_points check_def number_def split: if_splits)
    qed (use f p RN_collect s in \<open>auto simp: ct_points check_Ret_iff number_def split: if_splits option.splits prod.splits\<close>)
  next
    case RN_wait
    then have "q = P 0 \<or> q = T_run RN_test" using f p by (auto simp: ct_points split: option.splits)
    with p RN_wait show ?thesis by auto
  qed (use f p in \<open>auto simp: ct_points\<close>)
qed

lemma scan_num_other:
  assumes inv: "ct_inv N m P" and t: "t < N" "t \<noteq> 0" and s: "scan_num m (P 0)" and f: "ct_act E (P t) = Mem f" "f m = (m', Ret q)"
    and inv': "ct_inv N m' (P(t := q))"
  shows "scan_num m' (P 0)"
proof (cases "clients m' = clients m \<and> clientsID m' = clientsID m")
  case False
  with ct_tables_step [OF f] have lk: "in_lock (P t)" by auto
  have l: "lock_inv N (data_lock m) P" using inv by (simp add: ct_inv_def)
  have nl: "\<not> in_lock (P 0)" using lock_alone [OF l t(1) _ lk, of 0] t by auto
  have "number m' c \<noteq> Some 0" if c: "collecting (P 0) = Some c" for c
  proof -
    have "scan_inv N m (P 0)" using inv t by (simp add: ct_inv_def)
    then have c2: "2 \<le> c" "c < N" using c nl by (cases "(N, m, P 0)" rule: scan_inv.cases; simp)+
    have "client_inv m (Some c) c (P c)" using inv c2 c by (simp add: ct_inv_def)
    moreover have "client_inv m' (Some c) c ((P(t := q)) c)" using inv' c2 c t by (simp add: ct_inv_def)
    ultimately have "c \<in> set (clients m)" "c \<in> set (clients m')" by (simp_all add: client_inv_def)
    then have "number m' c = number m c" by (rule number_step [OF inv t(1) f])
    moreover have "number m c \<noteq> Some 0" using s c nl by (cases "(m, P 0)" rule: scan_num.cases) auto
    ultimately show ?thesis by simp
  qed
  with nl show ?thesis by (cases "(m', P 0)" rule: scan_num.cases) auto
qed (use s scan_num_tables in blast)

lemma ct_num_exec:
  assumes i: "ct_safe E N s" and n: "0 < N" and s: "scan_num (mem s) (pcs s 0)" and ex: "exec kw N (ct_act E) rd s ev = Some s'"
  shows "scan_num (mem s') (pcs s' 0)"
proof -
  have inv: "ct_inv N (mem s) (pcs s)" using i by (simp add: ct_safe_def)
  have inv': "ct_inv N (mem s') (pcs s')" using ct.exec_inv [OF ex i] by (simp add: ct_safe_def)
  from ex show ?thesis
  proof (rule exec_pcs)
    fix t F x assume a: "t < N" "ct_act E (pcs s t) = Mem F" "F (mem s) = (mem s', Stop x)" "pcs s' = pcs s"
    then have "mem s' = mem s" using ct_step [OF inv, of t E] by (auto simp: ct_goes_def null_join_def)
    with s a show ?thesis by simp
  next
    fix t F q assume a: "t < N" "ct_act E (pcs s t) = Mem F" "F (mem s) = (mem s', Ret q)" "pcs s' = (pcs s)(t := q)"
    show ?thesis
    proof (cases "t = 0")
      case True
      with scan_num_collector [OF inv n s] a show ?thesis by simp
    next
      case False
      with scan_num_other [OF inv a(1) False s a(2,3)] inv' a(4) show ?thesis by simp
    qed
  next
    fix t ps q assume a: "ct_act E (pcs s t) = Client ps" "q \<in> set ps" "pcs s' = (pcs s)(t := q)" "mem s' = mem s"
    then have "collecting q = None" "scan_num (mem s') q = (\<forall>c. collecting q = Some c \<longrightarrow> number (mem s') c \<noteq> Some 0)"
      using ct_kinds [of E "pcs s t"] by auto
    with a s show ?thesis by auto
  qed (use s in \<open>auto simp: ct_no_futex\<close>)
qed

lemma ct_num_reach:
  assumes "reach (ct_start b d) (ct_step_rel E N) s" and "0 < N"
  shows "scan_num (mem s) (pcs s 0)"
  using assms(1)
proof (induction rule: reach.induct)
  case (reach_step s s')
  with ct_num_exec [OF ct_reach_safe [OF reach_step.hyps(1)] assms(2)] show ?case by (auto simp: ct_step_rel_def mstep_def)
qed (simp add: ct_start_def)

section \<open>The counter wraps around\<close>

text \<open>
  C29: The client number wraps around. The client that is registered when the 32 bit counter is at its
  maximum gets the number 0. For as long as it stays registered, in every interleaving of the collector thread and all clients, it
  keeps that number and the collector never calls its \<^verbatim>\<open>Collect\<close>, whatever the clients' functions return.
\<close>

theorem ct_id_wraps:
  assumes r: "reach (ct_start b d) (ct_step_rel E N) s" and p: "pcs s c = K_register c RG_push" and v: "id_value (mem s) = - 1"
    and ex: "exec fifo_wake N (ct_act E) (\<lambda>_ _. 0) s (Run c) = Some s1"
    and r2: "reach s1 (\<lambda>x y. ct_step_rel E N x y \<and> c \<in> set (clients (mem y))) s2"
  shows "number (mem s2) c = Some 0 \<and> (\<forall>i pend. pcs s2 0 \<noteq> T_run (RN_collect (CC_client c i pend)))"
proof -
  have st: "ct_step_rel E N s s1" using ex unfolding ct_step_rel_def mstep_def by blast
  have inv: "ct_inv N (mem s) (pcs s)" by (rule ct_reach_inv [OF r])
  have cN: "c < N" using ex by (auto split: if_splits)
  have "2 \<le> c"
  proof (rule ccontr)
    assume "\<not> 2 \<le> c"
    then have "c = 0 \<or> c = 1" by linarith
    with inv cN p show False by (auto simp: ct_inv_def)
  qed
  with inv cN have "client_inv (mem s) (collecting (pcs s 0)) c (pcs s c)" "length (clientsID (mem s)) = length (clients (mem s))"
    by (simp_all add: ct_inv_def tables_inv_def)
  with p have new: "c \<notin> set (clients (mem s))" "length (clientsID (mem s)) = length (clients (mem s))" by (simp_all add: client_inv_def)
  have tab: "clients (mem s1) = clients (mem s) @ [c]" "clientsID (mem s1) = clientsID (mem s) @ [0]"
    using ex p v by (auto simp: ct_points split: if_splits)
  with number_push [OF new(2) tab, of c] new(1) have n1: "number (mem s1) c = Some 0" "c \<in> set (clients (mem s1))" by simp_all
  from r2 have "reach (ct_start b d) (ct_step_rel E N) s2 \<and> number (mem s2) c = Some 0 \<and> c \<in> set (clients (mem s2))"
  proof (induction rule: reach.induct)
    case reach_init
    with reach.reach_step [OF r st] n1 show ?case by blast
  next
    case (reach_step x y)
    then have rx: "reach (ct_start b d) (ct_step_rel E N) x" and nx: "number (mem x) c = Some 0" "c \<in> set (clients (mem x))" by blast+
    obtain ev where "exec fifo_wake N (ct_act E) (\<lambda>_ _. 0) x ev = Some y" using reach_step.hyps(2) by (auto simp: ct_step_rel_def mstep_def)
    then consider "mem y = mem x" | t F q where "t < N" "ct_act E (pcs x t) = Mem F" "F (mem x) = (mem y, q)" by (rule exec_pcs) blast+
    then have "number (mem y) c = number (mem x) c"
    proof cases
      case (2 t F q)
      with number_step [OF ct_reach_inv [OF rx] 2 nx(2)] reach_step.hyps(2) show ?thesis by blast
    qed simp
    then show ?case using reach.reach_step [OF rx] nx reach_step.hyps(2) by auto
  qed
  then have "scan_num (mem s2) (pcs s2 0)" "number (mem s2) c = Some 0" using ct_num_reach [of b d E N s2] cN by auto
  then show ?thesis by auto
qed

text \<open>
  The counter does get there: thread 2 registers and deregisters its client again and again, and every round
  adds one.
\<close>

definition after_rounds :: "32 word \<Rightarrow> ((bool, nat) ct, ct_pc) conf" where
  "after_rounds v = (let s = ct_start False (\<lambda>_. 0) in
     s\<lparr>mem := (mem s)\<lparr>id_value := v, cl_state := (\<lambda>_. 0)(2 := 0), cl_thread := (\<lambda>_. False)(2 := True)\<rparr>,
       pcs := (pcs s)(2 := K_none 2), stat := (\<lambda>_. Running)(2 := Running)\<rparr>)"

definition one_round :: "event list" where
  "one_round = [Call 2 0, Run 2, Run 2, Run 2, Run 2, Run 2, Run 2, Run 2, Run 2, Call 2 1, Run 2, Run 2, Run 2, Run 2, Run 2, Run 2]"

abbreviation wrap_run :: "((bool, nat) ct, ct_pc) conf \<Rightarrow> event list \<Rightarrow> ((bool, nat) ct, ct_pc) conf option" where
  "wrap_run \<equiv> run fifo_wake 3 (ct_act (bool_sem_env False)) (\<lambda>_ _. 0)"

lemmas wrap_eval = ct_eval after_rounds_def one_round_def erase_at_def

lemma round_first: "wrap_run (ct_start False (\<lambda>_. 0)) one_round = Some (after_rounds 1)"
  by (simp add: wrap_eval)

lemma round_next: "wrap_run (after_rounds v) one_round = Some (after_rounds (v + 1))"
  by (simp add: wrap_eval)

lemma rounds_reach: "reach (ct_start False (\<lambda>_. 0)) (ct_step_rel (bool_sem_env False) 3) (after_rounds (of_nat (Suc n)))"
proof (induction n)
  case 0
  show ?case using run_reachable [OF round_first] by (simp add: ct_step_rel_def)
next
  case (Suc n)
  then have "reach (ct_start False (\<lambda>_. 0)) (ct_step_rel (bool_sem_env False) 3) (after_rounds (of_nat (Suc n) + 1))"
    unfolding ct_step_rel_def by (rule reach_run) (rule round_next)
  then show ?case by (simp add: add.commute)
qed

lemma counter_full: "reach (ct_start False (\<lambda>_. 0)) (ct_step_rel (bool_sem_env False) 3) (after_rounds (- 1))"
proof -
  have "(4294967295 :: 32 word) = - 1" by (simp add: word_uint_eq_iff unsigned_minus_1_eq_mask mask_eq_exp_minus_1)
  with rounds_reach [of 4294967294] show ?thesis by simp
qed

theorem ct_id_wraps_witness:
  "\<exists>s s1 s2. reach (ct_start False (\<lambda>_. 0)) (ct_step_rel (bool_sem_env False) 3) s \<and> pcs s 2 = K_register 2 RG_push \<and> id_value (mem s) = - 1 \<and>
    exec fifo_wake 3 (ct_act (bool_sem_env False)) (\<lambda>_ _. 0) s (Run 2) = Some s1 \<and>
    run_in (\<lambda>y. 2 \<in> set (clients (mem y))) fifo_wake 3 (ct_act (bool_sem_env False)) (\<lambda>_ _. 0) s1
      [Run 2, Run 2, Run 2, Call 2 0, Run 2, Run 2, Run 0, Run 0, Run 0, Run 0, Run 0] = Some s2 \<and>
    cl_data (mem s2) 2 = 1 \<and> pcs s2 0 = T_run RN_wait \<and> number (mem s2) 2 = Some 0"
proof -
  obtain s s1 s2 where s: "wrap_run (after_rounds (- 1)) [Call 2 0, Run 2, Run 2, Run 2, Run 2] = Some s" "pcs s 2 = K_register 2 RG_push" "id_value (mem s) = - 1"
    and s1: "exec fifo_wake 3 (ct_act (bool_sem_env False)) (\<lambda>_ _. 0) s (Run 2) = Some s1"
    and s2: "run_in (\<lambda>y. 2 \<in> set (clients (mem y))) fifo_wake 3 (ct_act (bool_sem_env False)) (\<lambda>_ _. 0) s1
      [Run 2, Run 2, Run 2, Call 2 0, Run 2, Run 2, Run 0, Run 0, Run 0, Run 0, Run 0] = Some s2" "cl_data (mem s2) 2 = 1" "pcs s2 0 = T_run RN_wait"
  proof -
    have "\<exists>s. wrap_run (after_rounds (- 1)) [Call 2 0, Run 2, Run 2, Run 2, Run 2] = Some s \<and> pcs s 2 = K_register 2 RG_push \<and> id_value (mem s) = - 1 \<and>
      (\<exists>s1. exec fifo_wake 3 (ct_act (bool_sem_env False)) (\<lambda>_ _. 0) s (Run 2) = Some s1 \<and>
        (\<exists>s2. run_in (\<lambda>y. 2 \<in> set (clients (mem y))) fifo_wake 3 (ct_act (bool_sem_env False)) (\<lambda>_ _. 0) s1
          [Run 2, Run 2, Run 2, Call 2 0, Run 2, Run 2, Run 0, Run 0, Run 0, Run 0, Run 0] = Some s2 \<and> cl_data (mem s2) 2 = 1 \<and> pcs s2 0 = T_run RN_wait))"
      by (simp add: wrap_eval)
    with that show thesis by blast
  qed
  have r: "reach (ct_start False (\<lambda>_. 0)) (ct_step_rel (bool_sem_env False) 3) s"
    unfolding ct_step_rel_def by (rule reach_run [OF counter_full [unfolded ct_step_rel_def] s(1)])
  have "reach s1 (\<lambda>x y. ct_step_rel (bool_sem_env False) 3 x y \<and> 2 \<in> set (clients (mem y))) s2"
    unfolding ct_step_rel_def by (rule run_in_reach [OF s2(1) reach_init])
  from ct_id_wraps [OF r s(2,3) s1 this] r s s1 s2 show ?thesis by blast
qed

end
