(* ===== verification/Spec2Isabelle.thy ===== *)
theory Spec2Isabelle
  imports RW_Progress RW_Spec RW_Rules RW_Locks Fu_Lock Semaphores Stacktrace Hazard_Pointer Hazard_Guarded Hazard_System Collector_Numbers
begin

text \<open>
  \<^bold>\<open>The program.\<close> A C++ library for threads that share memory, under \<^verbatim>\<open>src/src\<close>. Two groups of
  classes:

  \<^item> Locks and semaphores on Linux futexes: the wrappers of the system call (\<^verbatim>\<open>bdfutex\<close>), a lock in
    one word with priority inheritance (\<^verbatim>\<open>bdlock\<close>, class \<^verbatim>\<open>fu_lock\<close>), a read/write lock
    (\<^verbatim>\<open>bdrwlock\<close>: a mutex word called the gate, the control object \<^verbatim>\<open>futex_rw_control\<close>, and the
    classes that make it usable with \<^verbatim>\<open>std::lock_guard\<close>), a binary semaphore and a wrapper of the
    POSIX semaphore (\<^verbatim>\<open>semaphore\<close>).
  \<^item> Hazard pointers (\<^verbatim>\<open>HazardPointer.hpp\<close>, \<^verbatim>\<open>HazardPointer.cpp\<close>): a \<^verbatim>\<open>HazardPointerList\<close> owns
    nodes on three linked lists (all nodes, free nodes, nodes whose object waits for deletion); a
    \<^verbatim>\<open>HazardPointer\<close> is a client's handle on one node; a \<^verbatim>\<open>CollectorThread\<close> calls \<^verbatim>\<open>Collect\<close> of
    the lists registered with it, woken through a semaphore.

  \<^bold>\<open>How code is modelled.\<close> A member function is a \<^verbatim>\<open>fun\<close> on its program points. At each point it gives
  one action: an access to shared memory (one load, store or atomic builtin), a futex wait or
  wake, or a choice of the caller (theory \<open>Threads\<close>). A function that calls another embeds the
  other's program points (\<open>calls\<close>, \<open>via\<close>). The same definitions are used in two ways:

  \<^item> \<open>exec\<close> runs one event of one of \<open>N\<close> threads; every sequence of events is a run, and
    \<open>reach\<close> gives the reachable states. The kernel is a parameter: which sleepers a wake rouses
    (\<open>kw\<close>), and a wait may return at any time with any result.
  \<^item> \<open>solo\<close> runs one call with no other thread in between; it is a \<^verbatim>\<open>partial_function (option)\<close>
    and \<^const>\<open>None\<close> means that the call does not return. There is no fuel anywhere: theorems that a call
    returns say \<open>Some (Ret _)\<close>.

  A call ends with \<open>Ret\<close> or stops with a \<open>fault\<close>: a failed assertion, an access through
  a bad address, an exception, a critical futex error, undefined behaviour. An \<^verbatim>\<open>int\<close> word is
  a 32 bit word and wraps around; pointers are natural numbers with \<open>NULL = 0\<close>, and objects are in an
  explicit heap, so aliasing is that of the code. The results of \<^verbatim>\<open>new\<close> and the contents of
  uninitialised memory are arguments. Deleting an object appends its address to a list.

  \<^bold>\<open>Theories and what they show.\<close>

  \<^item> \<open>Prelude\<close>: words, \<open>ctl\<close>, the atomic builtins, \<open>reach\<close>, locale \<open>invariant_system\<close> (an
    inductive invariant holds in every reachable state).
  \<^item> \<open>Futex\<close> (\<^verbatim>\<open>bdfutex.h\<close>, \<^verbatim>\<open>bdfutex.cpp\<close>): every wrapper, over the system call as an argument.
  \<^item> \<open>Threads\<close>: the machine above. Locale \<open>machine_invariant\<close> reduces invariance to one condition
    per kind of action; \<open>safety_invariant\<close> is its case for invariants of memory and
    program points (a sublocale), which also excludes assertion failures; \<open>machine_map\<close> carries
    results from one machine to another whose functions call the first one's.
  \<^item> \<open>Solo\<close>: sequential runs, and that a thread scheduled alone does the same.
  \<^item> \<open>Gate\<close> (\<^verbatim>\<open>bdrwlock.cpp\<close>, \<^verbatim>\<open>enter_gate\<close>, \<^verbatim>\<open>try_enter_gate\<close>, \<^verbatim>\<open>leave_gate\<close>): locale
    \<open>mutex_word\<close>, the contract the read/write lock relies on, interpreted on the gate (\<open>gt\<close>).
  \<^item> \<open>RW_Control\<close> (\<^verbatim>\<open>futex_rw_control\<close>): the six operations and the destructor; the
    invariant of the two words (interpretation \<open>rw\<close>), mutual exclusion, no assertion failure.
    \<open>RW_Progress\<close>: no lost wake-up and no deadlock (interpretation \<open>rw_wakeups\<close>), for a kernel
    with \<open>documented_wake\<close>. \<open>RW_Spec\<close>: an abstract read/write lock on sets of threads and the
    refinement. \<open>RW_Rules\<close>: threads that nest two locks, against the rules in the header of
    \<^verbatim>\<open>bdrwlock.h\<close>: which combinations never return (interpretations \<open>re\<close>, \<open>stuck\<close>). The number of threads
    (twice it, where locks nest) is below \<open>2 ^ 31\<close>, so that the reader count does not overflow.
  \<^item> \<open>RW_Locks\<close> (\<^verbatim>\<open>fu_read_lock\<close>, \<^verbatim>\<open>fu_write_lock\<close>, \<^verbatim>\<open>fu_read_modifiable_lock\<close>, \<^verbatim>\<open>fu_rw_lock\<close>): the
    results carried over to the classes (interpretation \<open>fu\<close> of \<open>machine_map\<close>), and what goes wrong when
    a modifiable lock object is used twice.
  \<^item> \<open>Fu_Lock\<close> (\<^verbatim>\<open>bdlock\<close>, and the PI wrappers of \<^verbatim>\<open>bdfutex.cpp\<close>): the calls, and a machine of threads and kernel
    made of the same definitions; exclusion for a documented kernel in runs in which it
    has asked for no retry (interpretation \<open>pi_machine\<close>), round trip, exceptions, and the failure
    when the kernel does ask for a retry.
  \<^item> \<open>Semaphores\<close> (\<^verbatim>\<open>semaphore.hpp\<close>, \<^verbatim>\<open>semaphore.cpp\<close>): value 0 or 1, posts and waits balance, no
    lost wake-up (interpretations \<open>sem\<close>, \<open>sem_wakeups\<close>), the destructor; the definitions of the POSIX wrapper over the POSIX
    functions as an argument, which it passes through.
  \<^item> \<open>Stacktrace\<close> (\<^verbatim>\<open>stacktrace.h\<close>): \<^verbatim>\<open>print_stacktrace\<close> on the bytes of the symbol lines, with the functions of the C
    library as an argument: what is printed for every line, and that exactly the allocated blocks are freed.
  \<^item> \<open>Binary_Search\<close>, \<open>Hazard_Nodes\<close>, \<open>Hazard_Collect\<close>: \<^verbatim>\<open>std::binary_search\<close>,
    \<^verbatim>\<open>HazardPointerNode\<close> and \<^verbatim>\<open>HazardPointerList\<close>, function by function. \<open>Hazard_Chains\<close>: the linked
    lists as lists of addresses (\<open>hp_rep\<close>). \<open>Hazard_Ops\<close>: every call, when it runs alone,
    returns and refines the abstract domain \<open>hz\<close> (who protects what, what is retired, what is gone).
    \<open>Hazard_Safety\<close>: sequences of calls, locale \<open>reclamation\<close> (interpretation \<open>hp\<close>): a protected object is
    not deleted; \<^verbatim>\<open>Collect\<close>, \<^verbatim>\<open>Prime\<close> and the destructor in full.
  \<^item> \<open>Hazard_Pointer\<close>: class \<^verbatim>\<open>HazardPointer\<close>, programs with any number of handles: they follow the
    abstract domain, and no handle yields a deleted object if objects are unlinked before they are
    retired and retired once. Also what the move constructor, \<^verbatim>\<open>Recycle\<close> and the release of an
    unused handle do, which is not what their comments say.
  \<^item> \<open>Hazard_Race\<close>: the list used by several threads at once, interleaved at every access; runs in which
    a protected object is deleted, one node is given to two threads, and a \<^verbatim>\<open>Delete\<close> that overlaps \<^verbatim>\<open>Collect\<close> puts a
    node on two lists or fails its own assertion. \<open>Hazard_Complete\<close>: what holds in
    every such run, the complete set of nodes only grows (\<^verbatim>\<open>README.md\<close> bases safe enumeration on it).
  \<^item> \<open>Hazard_Discipline\<close>, \<open>Hazard_Steps\<close>, \<open>Hazard_Objects\<close>, \<open>Hazard_Guarded\<close>: threads that use the list at the same time and avoid
    exactly those overlaps (two threads in \<^verbatim>\<open>pop\<close>; \<^verbatim>\<open>Delete\<close> with \<^verbatim>\<open>Collect\<close>). The first has the
    invariant of the lists and of every program point, the second that every step keeps it and the
    rules for the callers (\<open>guarded_step\<close>), the third the way of an object from a cell to its deletion, the
    last the results: no assertion fails, no node has two owners, linked objects are not deleted, none is deleted twice, and a protected
    object that was linked after it was protected is not deleted in any interleaving.
  \<^item> \<open>Collector\<close>: \<^verbatim>\<open>CollectorThread\<close>, every function, with the collector thread and any number of
    clients interleaved. \<open>Collector_Safety\<close>: its invariant (interpretation \<open>ct\<close>): parallel tables, no
    failure but that of \<^verbatim>\<open>Stop(true)\<close>, no client collected after it deregistered, no signal lost; the race of
    \<^verbatim>\<open>Stop(true)\<close> and the failure of registering twice. \<open>Collector_Numbers\<close>: the clients' numbers; the client whose number wraps to 0 is never collected. \<open>Collector_Collect\<close>: locale \<open>collector_client\<close>, what the
    collector requires of a client, interpreted on \<^verbatim>\<open>HazardPointerList\<close> (\<open>lists\<close>); a whole pass over
    the lists, registration and its 32 bit numbers, the destructor.
  \<^item> \<open>Hazard_System\<close>: the two halves together, one thread per list, every access of the collector and of the lists a
    step, the constructors and the destructor of a list complete. The collector's invariant holds here too; a list that is being
    destroyed is not collected, so the destructor does what it does alone: no step of it fails, it deletes the
    objects of the gc list and frees all nodes, whatever the collector thread and the other lists' threads do.

  \<^bold>\<open>Limits of the model.\<close> Memory is sequentially consistent: the memory orders that the code
  passes to the builtins are not distinguished. In theory \<open>Collector\<close> a call
  of a client's \<^verbatim>\<open>Collect\<close> is one step; in \<open>Hazard_System\<close> it is the code of the list, which only its own thread and the collector
  thread use. Calls on a \<^verbatim>\<open>HazardPointerList\<close> that overlap are covered from theory
  \<open>Hazard_Race\<close> on; without the rules of \<open>Hazard_Steps\<close> the guarantees of the other theories fail there, so the results
  on objects and nodes assume these rules.
  The machines are definitions of the callers (\<open>rw_act\<close>, \<open>fu_act\<close>, \<open>sem_act\<close>, \<open>pi_exec\<close>, \<open>ct_act\<close>, \<open>sys_act\<close>): which call a thread may make when,
  as the comments and the interfaces ask; they translate no lines of their own beyond the calls. In \<open>ct_act\<close> a client is constructed before each
  registration, and the destructor of the collector is not called while clients run.
  Assertions are those of a build in which \<^verbatim>\<open>CHECK_ASSERT\<close> is \<^verbatim>\<open>assert\<close>.
  The class \<^verbatim>\<open>BinarySemaphore\<close> (from a \<^verbatim>\<open>Semaphore.hpp\<close> that the repository does not contain),
  the futex system call, the POSIX semaphore functions and a client's virtual functions are arguments.

  \<^bold>\<open>Not modelled.\<close> The messages that other functions write to \<^verbatim>\<open>stderr\<close> before \<^verbatim>\<open>abort\<close>, code under
  \<^verbatim>\<open>#if 0\<close>, \<^verbatim>\<open>CollectOne\<close> (declared and never defined), the member \<^verbatim>\<open>owner\<close> of a node (there is one
  list), the deleted copy and move operations (they do not compile when used), and the test programs.
\<close>

end
